(* ===== verification/Fly_Prelude.thy ===== *)
theory Fly_Prelude
  imports Main "HOL-Library.AList" "HOL-Library.Product_Lexorder"
begin

text \<open>
  Shared vocabulary of the development: names for the identifier types of the framework, the
  models of the container aliases of src/container/cpp/container_aliases.h, and the generic
  lemmas on lists and maps that the component theories use.

  \<^item> \<open>CMVector\<close>, \<open>CMDeque\<close>: lists.
  \<^item> \<open>CMSet\<close> (an ordered set): a strictly sorted list, updated by \<open>insort_insert\<close> and
    \<open>removeAll\<close>, so that iterating over it is reading the list.
  \<^item> \<open>CMUnorderedSet\<close>: a list without repetitions, updated by \<open>List.insert\<close> and
    \<open>removeAll\<close>; the list order stands for the unspecified iteration order.
  \<^item> \<open>CMUnorderedMap\<close>: a partial function where the code only looks keys up, and an association
    list with distinct keys (\<open>AList.update\<close>, \<open>AList.delete\<close>) where it iterates or counts.
\<close>

type_synonym task_id = nat
type_synonym worker_id = nat
type_synonym data_path = string

named_theorems graph_simps \<open>equations of the dependency graph operations\<close>
named_theorems worker_simps \<open>equations of the worker table operations\<close>
named_theorems tm_simps \<open>equations of the task table operations\<close>

section \<open>Ordered and unordered sets as lists\<close>

lemma distinct_List_insert [simp]: "distinct (List.insert x xs) \<longleftrightarrow> distinct xs"
  by (simp add: List.insert_def)

lemma removeAll_eq_Nil_iff: "removeAll x xs = [] \<longleftrightarrow> set xs \<subseteq> {x}"
  by (induction xs) auto

lemma sorted_removeAll [intro]: "sorted xs \<Longrightarrow> sorted (removeAll x xs)"
  by (simp add: removeAll_filter_not_eq sorted_wrt_filter)

lemma sort_removeAll: "sort (removeAll x xs) = removeAll x (sort xs)"
  by (simp add: removeAll_filter_not_eq filter_sort)

lemma distinct_insort_insert_id [intro]: "distinct xs \<Longrightarrow> distinct (insort_insert x xs)"
  by (auto simp: insort_insert_key_def distinct_insort)

lemma snd_removeAll_pair:
  assumes "\<And>k. (k, t) \<in> set xs \<Longrightarrow> k = p"
  shows "map snd (removeAll (p, t) xs) = removeAll t (map snd xs)"
  using assms
proof (induction xs)
  case (Cons x xs)
  obtain k u where x: "x = (k, u)" by (cases x)
  have "map snd (removeAll (p, t) xs) = removeAll t (map snd xs)"
    by (rule Cons.IH) (use Cons.prems in auto)
  moreover have "u = t \<longrightarrow> k = p" using Cons.prems x by auto
  ultimately show ?case using x by auto
qed simp

lemma length_filter_eq: "length (filter P xs) = length xs \<longleftrightarrow> (\<forall>x \<in> set xs. P x)"
proof (induction xs)
  case (Cons x xs)
  have "length (filter P xs) \<noteq> Suc (length xs)" using length_filter_le [of P xs] by linarith
  then show ?case using Cons by auto
qed simp

section \<open>Association lists\<close>

definition umap_ok :: "('k \<times> 'v) list \<Rightarrow> bool" where
  "umap_ok m \<longleftrightarrow> distinct (map fst m)"

lemma umap_ok_Nil [simp, intro!]: "umap_ok []"
  by (simp add: umap_ok_def)

lemma umap_ok_update [intro]: "umap_ok m \<Longrightarrow> umap_ok (AList.update k v m)"
  by (simp add: umap_ok_def distinct_update)

lemma umap_ok_delete [intro]: "umap_ok m \<Longrightarrow> umap_ok (AList.delete k m)"
  by (simp add: umap_ok_def distinct_delete)

lemma umap_ok_filter [intro]: "umap_ok m \<Longrightarrow> umap_ok (filter P m)"
  by (simp add: umap_ok_def distinct_map_filter)

lemma map_of_alist_update [simp]: "map_of (AList.update k v m) = (map_of m)(k \<mapsto> v)"
  by (simp add: update_conv')

lemma map_of_alist_delete [simp]: "map_of (AList.delete k m) = (map_of m)(k := None)"
  by (simp add: delete_conv')

lemma umap_ok_map_entry [intro]: "umap_ok m \<Longrightarrow> umap_ok (AList.map_entry k f m)"
  by (simp add: umap_ok_def distinct_map_entry)

lemma map_of_alist_map_entry: "map_of (AList.map_entry k f m) = (map_of m)(k := map_option f (map_of m k))"
  by (simp add: map_of_map_entry map_option_case)

lemma umap_mem_iff: "umap_ok m \<Longrightarrow> (k, v) \<in> set m \<longleftrightarrow> map_of m k = Some v"
  by (simp add: umap_ok_def)

section \<open>Reachable states of a component\<close>

text \<open>
  A component is a state type with an initial state and a function that executes one operation
  (\<open>None\<close> when the operation stops the process).  \<open>ok\<close> restricts which operation a client may
  issue in which state; with \<open>ok = (\<lambda>_ _. True)\<close> every sequence of operations is considered.
\<close>

inductive reachable_by ::
  "('op \<Rightarrow> 's \<Rightarrow> 's option) \<Rightarrow> ('s \<Rightarrow> 'op \<Rightarrow> bool) \<Rightarrow> 's \<Rightarrow> 's \<Rightarrow> bool"
  for exec ok init where
  reach_init: "reachable_by exec ok init init"
| reach_step: "\<lbrakk>reachable_by exec ok init s; ok s op; exec op s = Some s'\<rbrakk>
    \<Longrightarrow> reachable_by exec ok init s'"

abbreviation any_op :: "'s \<Rightarrow> 'op \<Rightarrow> bool" where
  "any_op \<equiv> \<lambda>_ _. True"

text \<open>
  A concrete run: executing a list of operations stays inside the reachable states when every
  operation was permitted where it was issued.
\<close>

fun run_ops :: "('op \<Rightarrow> 's \<Rightarrow> 's option) \<Rightarrow> ('s \<Rightarrow> 'op \<Rightarrow> bool) \<Rightarrow> 'op list \<Rightarrow> 's \<Rightarrow> 's option"
where
  "run_ops exec ok [] s = Some s"
| "run_ops exec ok (op # ops) s =
     (if ok s op then (case exec op s of None \<Rightarrow> None | Some s' \<Rightarrow> run_ops exec ok ops s') else None)"

lemma reachable_run_ops:
  assumes "reachable_by exec ok init s" and "run_ops exec ok ops s = Some s'"
  shows "reachable_by exec ok init s'"
  using assms
proof (induction ops arbitrary: s)
  case (Cons op ops)
  then show ?case
    by (auto split: if_splits option.splits intro: reachable_by.reach_step)
qed simp

text \<open>
  A relation between the state and the operations issued so far is carried along a run.
\<close>

lemma run_ops_simulation:
  assumes "run_ops exec ok ops s = Some s'" and "I s" and "absf s = a"
    and step: "\<And>s op s'. \<lbrakk>I s; ok s op; exec op s = Some s'\<rbrakk> \<Longrightarrow> I s' \<and> absf s' = spec op (absf s)"
  shows "I s' \<and> absf s' = fold spec ops a"
  using assms(1-3)
proof (induction ops arbitrary: s a)
  case (Cons op ops)
  obtain s1 where s1: "exec op s = Some s1" "run_ops exec ok ops s1 = Some s'" and "ok s op"
    using Cons.prems(1) by (auto split: if_splits option.splits)
  then have "I s1 \<and> absf s1 = spec op (absf s)" using step Cons.prems(2) by blast
  then show ?case using Cons.IH [OF s1(2)] Cons.prems(3) by simp
qed simp

text \<open>The contract between a component and its invariant.\<close>

locale component_invariant =
  fixes exec :: "'op \<Rightarrow> 's \<Rightarrow> 's option"
    and ok :: "'s \<Rightarrow> 'op \<Rightarrow> bool"
    and init :: 's
    and inv :: "'s \<Rightarrow> bool"
  assumes inv_init: "inv init"
    and inv_exec: "\<lbrakk>inv s; ok s op; exec op s = Some s'\<rbrakk> \<Longrightarrow> inv s'"
begin

lemma reachable_inv: "reachable_by exec ok init s \<Longrightarrow> inv s"
  by (induction rule: reachable_by.induct) (auto intro: inv_init inv_exec)

lemma run_inv: "run_ops exec ok ops init = Some s \<Longrightarrow> inv s"
  by (rule reachable_inv) (rule reachable_run_ops [OF reachable_by.reach_init])

end

end
