(* ===== verification/Dependency_Graph.thy ===== *)
theory Dependency_Graph
  imports Fly_Prelude Complex_Main
begin

text \<open>
  The dependency graph of the scheduler, src/task/cpp/dependency_graph.h and .cpp.
  A task waits in \<open>pending_tasks\<close> until all the data paths it reads are ready and then moves to
  the ordered set \<open>ready_tasks\<close>, whose key is (minus priority, task id).  A reverse index from
  data paths to waiting tasks saves \<open>mark_data_ready\<close> the scan of all waiting tasks.
\<close>

section \<open>State\<close>

record task_requirements =
  capabilities :: "string list"
  timeout_seconds :: rat
  locality_hint :: "(worker_id \<times> int) list"
  priority :: int

definition default_requirements :: task_requirements where
  "default_requirements =
     \<lparr>capabilities = [], timeout_seconds = -1, locality_hint = [], priority = 10\<rparr>"

text \<open>A reading of the two clocks: the steady clock in seconds, the wall clock in milliseconds.\<close>

type_synonym clock = "rat \<times> int"

record dep_graph =
  task_dependencies :: "task_id \<rightharpoonup> data_path list"
  data_ready_status :: "data_path \<rightharpoonup> bool"
  requirements_of :: "task_id \<rightharpoonup> task_requirements"
  ready_tasks :: "(int \<times> task_id) list"
  pending_tasks :: "task_id list"
  completed_tasks :: "task_id list"
  task_ready_timestamps :: "task_id \<rightharpoonup> rat"
  task_ready_epoch_ms :: "task_id \<rightharpoonup> int"
  data_to_pending_tasks :: "data_path \<rightharpoonup> task_id list"

definition empty_graph :: dep_graph where
  "empty_graph = \<lparr>task_dependencies = Map.empty, data_ready_status = Map.empty,
     requirements_of = Map.empty, ready_tasks = [], pending_tasks = [], completed_tasks = [],
     task_ready_timestamps = Map.empty, task_ready_epoch_ms = Map.empty,
     data_to_pending_tasks = Map.empty\<rparr>"

section \<open>Operations\<close>

text \<open>The test \<open>!data_ready_status_.count(dep) || !data_ready_status_[dep]\<close>.\<close>

definition data_unmet :: "(data_path \<rightharpoonup> bool) \<Rightarrow> data_path \<Rightarrow> bool" where
  "data_unmet st d \<longleftrightarrow> st d \<noteq> Some True"

fun index_unmet ::
  "(data_path \<rightharpoonup> bool) \<Rightarrow> task_id \<Rightarrow> data_path list \<Rightarrow> (data_path \<rightharpoonup> task_id list) \<Rightarrow>
   (data_path \<rightharpoonup> task_id list)" where
  "index_unmet st t [] ix = ix"
| "index_unmet st t (d # ds) ix =
     index_unmet st t ds
       (if data_unmet st d then ix(d \<mapsto> List.insert t (case ix d of None \<Rightarrow> [] | Some s \<Rightarrow> s))
        else ix)"

fun unindex ::
  "task_id \<Rightarrow> data_path list \<Rightarrow> (data_path \<rightharpoonup> task_id list) \<Rightarrow> (data_path \<rightharpoonup> task_id list)"
where
  "unindex t [] ix = ix"
| "unindex t (d # ds) ix =
     unindex t ds
       (case ix d of
          None \<Rightarrow> ix
        | Some s \<Rightarrow> (let s' = removeAll t s in if s' = [] then ix(d := None) else ix(d \<mapsto> s')))"

text \<open>\<open>None\<close> is the failed assertion that stops the process on a duplicate task id.\<close>

definition add_task ::
  "clock \<Rightarrow> task_id \<Rightarrow> data_path list \<Rightarrow> task_requirements \<Rightarrow> dep_graph \<Rightarrow> dep_graph option"
where
  "add_task clk t inputs reqs g =
     (if task_dependencies g t \<noteq> None then None
      else
        let g1 = g\<lparr>task_dependencies := (task_dependencies g)(t \<mapsto> inputs),
                   requirements_of := (requirements_of g)(t \<mapsto> reqs),
                   data_to_pending_tasks :=
                     index_unmet (data_ready_status g) t inputs (data_to_pending_tasks g)\<rparr>;
            pending = length (filter (data_unmet (data_ready_status g)) inputs)
        in Some
          (if pending = 0 then
             g1\<lparr>ready_tasks := insort_insert (- priority reqs, t) (ready_tasks g1),
                task_ready_timestamps := (task_ready_timestamps g1)(t \<mapsto> fst clk),
                task_ready_epoch_ms := (task_ready_epoch_ms g1)(t \<mapsto> snd clk)\<rparr>
           else g1\<lparr>pending_tasks := List.insert t (pending_tasks g1)\<rparr>))"

definition set_task_locality_hint ::
  "task_id \<Rightarrow> (worker_id \<times> int) list \<Rightarrow> dep_graph \<Rightarrow> dep_graph" where
  "set_task_locality_hint t hint g =
     (case requirements_of g t of
        None \<Rightarrow> g
      | Some r \<Rightarrow> g\<lparr>requirements_of := (requirements_of g)(t \<mapsto> r\<lparr>locality_hint := hint\<rparr>)\<rparr>)"

definition priority_of :: "dep_graph \<Rightarrow> task_id \<Rightarrow> int" where
  "priority_of g t = (case requirements_of g t of None \<Rightarrow> 10 | Some r \<Rightarrow> priority r)"

text \<open>
  \<open>task_dependencies_[task_id]\<close> is the inserting subscript: it creates an empty entry for an
  unknown key.
\<close>

definition deps_subscript :: "task_id \<Rightarrow> dep_graph \<Rightarrow> data_path list" where
  "deps_subscript t g = (case task_dependencies g t of None \<Rightarrow> [] | Some ds \<Rightarrow> ds)"

definition touch_deps :: "task_id \<Rightarrow> dep_graph \<Rightarrow> dep_graph" where
  "touch_deps t g = g\<lparr>task_dependencies := (task_dependencies g)(t \<mapsto> deps_subscript t g)\<rparr>"

text \<open>The block "all deps ready": leave \<open>pending\<close>, enter \<open>ready\<close>, clean the reverse index.\<close>

definition promote :: "clock \<Rightarrow> task_id \<Rightarrow> dep_graph \<Rightarrow> dep_graph" where
  "promote clk t g =
     g\<lparr>pending_tasks := removeAll t (pending_tasks g),
       ready_tasks := insort_insert (- priority_of g t, t) (ready_tasks g),
       task_ready_timestamps := (task_ready_timestamps g)(t \<mapsto> fst clk),
       task_ready_epoch_ms := (task_ready_epoch_ms g)(t \<mapsto> snd clk),
       data_to_pending_tasks := unindex t (deps_subscript t g) (data_to_pending_tasks g)\<rparr>"

definition check_and_move_to_ready :: "clock \<Rightarrow> task_id \<Rightarrow> dep_graph \<Rightarrow> dep_graph \<times> bool" where
  "check_and_move_to_ready clk t g =
     (if t \<in> set (completed_tasks g) then (g, False)
      else if t \<in> snd ` set (ready_tasks g) then (g, False)
      else if t \<notin> set (pending_tasks g) then (g, False)
      else
        let deps = deps_subscript t g; g0 = touch_deps t g
        in if \<exists>d \<in> set deps. data_unmet (data_ready_status g0) d then (g0, False)
           else (promote clk t g0, True))"

text \<open>
  \<open>clk\<close> gives the clock reading at the moment a task is moved.  The loop runs over a copy of the
  index set, as the code does.
\<close>

definition mark_data_ready :: "(task_id \<Rightarrow> clock) \<Rightarrow> data_path \<Rightarrow> dep_graph \<Rightarrow> dep_graph" where
  "mark_data_ready clk d g =
     (let g1 = g\<lparr>data_ready_status := (data_ready_status g)(d \<mapsto> True)\<rparr>
      in case data_to_pending_tasks g1 d of
           None \<Rightarrow> g1
         | Some affected \<Rightarrow> fold (\<lambda>t g. fst (check_and_move_to_ready (clk t) t g)) affected g1)"

definition ready_dependents :: "data_path \<Rightarrow> dep_graph \<Rightarrow> task_id list" where
  "ready_dependents d g =
     filter (\<lambda>t. d \<in> set (deps_subscript t g)) (map snd (ready_tasks g))"

definition demote :: "task_id \<Rightarrow> dep_graph \<Rightarrow> dep_graph" where
  "demote t g =
     g\<lparr>ready_tasks := removeAll (- priority_of g t, t) (ready_tasks g),
       pending_tasks := List.insert t (pending_tasks g),
       task_ready_timestamps := (task_ready_timestamps g)(t := None),
       data_to_pending_tasks :=
         index_unmet (data_ready_status g) t (deps_subscript t g) (data_to_pending_tasks g)\<rparr>"

definition mark_data_removed :: "data_path \<Rightarrow> dep_graph \<Rightarrow> dep_graph" where
  "mark_data_removed d g =
     (let g1 = g\<lparr>data_ready_status := (data_ready_status g)(d := None)\<rparr>;
          g2 = fold touch_deps (map snd (ready_tasks g1)) g1
      in fold demote (ready_dependents d g2) g2)"

definition get_ready_tasks :: "dep_graph \<Rightarrow> task_id list" where
  "get_ready_tasks g = map snd (ready_tasks g)"

definition is_data_ready :: "dep_graph \<Rightarrow> data_path \<Rightarrow> bool" where
  "is_data_ready g d = (case data_ready_status g d of None \<Rightarrow> False | Some b \<Rightarrow> b)"

definition get_pending_tasks :: "dep_graph \<Rightarrow> task_id list" where
  "get_pending_tasks g = sort (pending_tasks g)"

definition is_task_ready :: "dep_graph \<Rightarrow> task_id \<Rightarrow> bool" where
  "is_task_ready g t \<longleftrightarrow> (- priority_of g t, t) \<in> set (ready_tasks g)"

definition graph_remove_task :: "task_id \<Rightarrow> dep_graph \<Rightarrow> dep_graph" where
  "graph_remove_task t g =
     g\<lparr>ready_tasks := removeAll (- priority_of g t, t) (ready_tasks g),
       pending_tasks := removeAll t (pending_tasks g),
       completed_tasks := List.insert t (completed_tasks g),
       task_ready_timestamps := (task_ready_timestamps g)(t := None),
       data_to_pending_tasks :=
         (case task_dependencies g t of
            None \<Rightarrow> data_to_pending_tasks g
          | Some deps \<Rightarrow> unindex t deps (data_to_pending_tasks g)),
       task_dependencies := (task_dependencies g)(t := None),
       requirements_of := (requirements_of g)(t := None)\<rparr>"

definition completed_count :: "dep_graph \<Rightarrow> nat" where
  "completed_count g = length (completed_tasks g)"

definition get_task_requirements :: "dep_graph \<Rightarrow> task_id \<Rightarrow> task_requirements" where
  "get_task_requirements g t =
     (case requirements_of g t of None \<Rightarrow> default_requirements | Some r \<Rightarrow> r)"

definition get_task_ready_timestamp :: "dep_graph \<Rightarrow> task_id \<Rightarrow> rat option" where
  "get_task_ready_timestamp g t = task_ready_timestamps g t"

definition get_task_ready_epoch_ms :: "dep_graph \<Rightarrow> task_id \<Rightarrow> int" where
  "get_task_ready_epoch_ms g t = (case task_ready_epoch_ms g t of None \<Rightarrow> 0 | Some e \<Rightarrow> e)"

definition get_task_dependencies :: "dep_graph \<Rightarrow> task_id \<Rightarrow> data_path list" where
  "get_task_dependencies g t = (case task_dependencies g t of None \<Rightarrow> [] | Some ds \<Rightarrow> ds)"

section \<open>The reverse index\<close>

definition idx :: "(data_path \<rightharpoonup> task_id list) \<Rightarrow> data_path \<Rightarrow> task_id list" where
  "idx ix d = (case ix d of None \<Rightarrow> [] | Some s \<Rightarrow> s)"

definition idx_ok :: "(data_path \<rightharpoonup> task_id list) \<Rightarrow> bool" where
  "idx_ok ix \<longleftrightarrow> (\<forall>d s. ix d = Some s \<longrightarrow> s \<noteq> [] \<and> distinct s)"

lemma List_insert_not_Nil [simp]: "List.insert x xs \<noteq> []"
  by (cases xs) (auto simp: List.insert_def)

lemma set_idx_index_unmet [graph_simps]:
  "set (idx (index_unmet st t ds ix) d) =
     set (idx ix d) \<union> (if d \<in> set ds \<and> data_unmet st d then {t} else {})"
  by (induction ds arbitrary: ix) (auto simp: idx_def split: option.splits)

lemma idx_okD: "idx_ok ix \<Longrightarrow> ix d = Some s \<Longrightarrow> s \<noteq> [] \<and> distinct s"
  by (simp add: idx_ok_def)

lemma idx_ok_upd: "idx_ok ix \<Longrightarrow> s \<noteq> [] \<Longrightarrow> distinct s \<Longrightarrow> idx_ok (ix(d \<mapsto> s))"
  by (simp add: idx_ok_def)

lemma idx_ok_del: "idx_ok ix \<Longrightarrow> idx_ok (ix(d := None))"
  by (simp add: idx_ok_def)

lemma idx_ok_index_unmet [intro]: "idx_ok ix \<Longrightarrow> idx_ok (index_unmet st t ds ix)"
proof (induction ds arbitrary: ix)
  case (Cons d ds)
  have "idx_ok (ix(d \<mapsto> List.insert t (case ix d of None \<Rightarrow> [] | Some s \<Rightarrow> s)))"
    by (rule idx_ok_upd [OF Cons.prems]) (use idx_okD [OF Cons.prems] in \<open>auto split: option.splits\<close>)
  then show ?case using Cons by simp
qed simp

lemma set_idx_unindex [graph_simps]:
  "set (idx (unindex t ds ix) d) = set (idx ix d) - (if d \<in> set ds then {t} else {})"
proof (induction ds arbitrary: ix)
  case (Cons e ds)
  let ?ix = "case ix e of None \<Rightarrow> ix
    | Some s \<Rightarrow> let s' = removeAll t s in if s' = [] then ix(e := None) else ix(e \<mapsto> s')"
  have "set (idx ?ix d) = set (idx ix d) - (if d = e then {t} else {})"
    by (auto simp: idx_def Let_def removeAll_eq_Nil_iff split: option.splits)
  then show ?case by (simp add: Cons.IH)
qed simp

lemma idx_ok_unindex [intro]: "idx_ok ix \<Longrightarrow> idx_ok (unindex t ds ix)"
proof (induction ds arbitrary: ix)
  case (Cons d ds)
  have "idx_ok (case ix d of None \<Rightarrow> ix
    | Some s \<Rightarrow> let s' = removeAll t s in if s' = [] then ix(d := None) else ix(d \<mapsto> s'))"
    using Cons.prems idx_okD [OF Cons.prems]
    by (auto simp: Let_def distinct_removeAll intro: idx_ok_upd idx_ok_del split: option.splits)
  then show ?case using Cons.IH by simp
qed simp

section \<open>Invariants\<close>

text \<open>
  The structural invariant.  \<open>B\<close> names tasks that are about to leave the ready set, so that the
  same predicate describes the states inside the loop of \<open>mark_data_removed\<close>.
\<close>

definition graph_inv_upto :: "task_id set \<Rightarrow> dep_graph \<Rightarrow> bool" where
  "graph_inv_upto B g \<longleftrightarrow>
     sorted (ready_tasks g) \<and> distinct (ready_tasks g) \<and>
     distinct (pending_tasks g) \<and> distinct (completed_tasks g) \<and>
     dom (requirements_of g) = dom (task_dependencies g) \<and>
     dom (task_dependencies g) = snd ` set (ready_tasks g) \<union> set (pending_tasks g) \<and>
     snd ` set (ready_tasks g) \<inter> set (pending_tasks g) = {} \<and>
     (\<forall>(k, t) \<in> set (ready_tasks g). k = - priority_of g t \<and>
        (t \<notin> B \<longrightarrow> (\<forall>d \<in> set (deps_subscript t g). \<not> data_unmet (data_ready_status g) d))) \<and>
     idx_ok (data_to_pending_tasks g) \<and>
     (\<forall>d. \<forall>t \<in> set (idx (data_to_pending_tasks g) d).
        t \<in> set (pending_tasks g) \<and> d \<in> set (deps_subscript t g))"

abbreviation graph_inv :: "dep_graph \<Rightarrow> bool" where
  "graph_inv \<equiv> graph_inv_upto {}"

text \<open>
  The wake-up invariant: a waiting task still misses an input and is indexed under every input it
  misses, and no id in use was ever removed before.  \<open>A\<close> names tasks still to be re-examined by
  the loop of \<open>mark_data_ready\<close>.
\<close>

definition wakeup_upto :: "task_id set \<Rightarrow> dep_graph \<Rightarrow> bool" where
  "wakeup_upto A g \<longleftrightarrow>
     set (completed_tasks g) \<inter> dom (task_dependencies g) = {} \<and>
     (\<forall>t \<in> set (pending_tasks g).
        (t \<in> A \<or> (\<exists>d \<in> set (deps_subscript t g). data_unmet (data_ready_status g) d)) \<and>
        (\<forall>d \<in> set (deps_subscript t g). data_unmet (data_ready_status g) d \<longrightarrow>
           t \<in> set (idx (data_to_pending_tasks g) d)))"

abbreviation wakeup_inv :: "dep_graph \<Rightarrow> bool" where
  "wakeup_inv \<equiv> wakeup_upto {}"

lemma ready_key:
  "graph_inv_upto B g \<Longrightarrow> (k, t) \<in> set (ready_tasks g) \<Longrightarrow> k = - priority_of g t"
  by (auto simp: graph_inv_upto_def)

lemma graph_inv_dom:
  "graph_inv_upto B g \<Longrightarrow>
     dom (task_dependencies g) = snd ` set (ready_tasks g) \<union> set (pending_tasks g)"
  by (simp add: graph_inv_upto_def)

lemma graph_inv_dom_reqs:
  "graph_inv_upto B g \<Longrightarrow> dom (requirements_of g) = dom (task_dependencies g)"
  by (simp add: graph_inv_upto_def)

lemma graph_inv_disjoint:
  "graph_inv_upto B g \<Longrightarrow> snd ` set (ready_tasks g) \<inter> set (pending_tasks g) = {}"
  by (simp add: graph_inv_upto_def)

lemma graph_inv_idx:
  "graph_inv_upto B g \<Longrightarrow> t \<in> set (idx (data_to_pending_tasks g) d) \<Longrightarrow>
     t \<in> set (pending_tasks g) \<and> d \<in> set (deps_subscript t g)"
  by (simp add: graph_inv_upto_def)

lemma graph_inv_met:
  assumes "graph_inv_upto B g" and "t \<in> snd ` set (ready_tasks g)" and "t \<notin> B"
    and "d \<in> set (deps_subscript t g)"
  shows "\<not> data_unmet (data_ready_status g) d"
proof -
  obtain k where "(k, t) \<in> set (ready_tasks g)" using assms(2) by force
  then show ?thesis using assms(1,3,4) by (auto simp: graph_inv_upto_def)
qed

lemma known_iff:
  "graph_inv_upto B g \<Longrightarrow>
     task_dependencies g t \<noteq> None \<longleftrightarrow> t \<in> snd ` set (ready_tasks g) \<or> t \<in> set (pending_tasks g)"
  using graph_inv_dom [of B g] by (metis Un_iff domIff)

lemma ready_ids_remove:
  assumes "graph_inv_upto B g"
  shows "map snd (removeAll (- priority_of g t, t) (ready_tasks g)) =
    removeAll t (map snd (ready_tasks g))"
  by (rule snd_removeAll_pair) (use ready_key [OF assms] in blast)

lemma snd_set_remove:
  assumes "graph_inv_upto B g"
  shows "snd ` (set (ready_tasks g) - {(- priority_of g t, t)}) = snd ` set (ready_tasks g) - {t}"
  using ready_key [OF assms] by force

lemma touch_known [simp]: "task_dependencies g t \<noteq> None \<Longrightarrow> touch_deps t g = g"
  by (auto simp: touch_deps_def deps_subscript_def map_upd_triv)

lemma is_task_ready_iff:
  assumes "graph_inv g"
  shows "is_task_ready g t \<longleftrightarrow> t \<in> snd ` set (ready_tasks g)"
  using ready_key [OF assms] by (force simp: is_task_ready_def)

subsection \<open>Preservation by the operations\<close>

lemma graph_inv_uptoI:
  assumes "sorted (ready_tasks g)" and "distinct (ready_tasks g)"
    and "distinct (pending_tasks g)" and "distinct (completed_tasks g)"
    and "dom (requirements_of g) = dom (task_dependencies g)"
    and "dom (task_dependencies g) = snd ` set (ready_tasks g) \<union> set (pending_tasks g)"
    and "snd ` set (ready_tasks g) \<inter> set (pending_tasks g) = {}"
    and "\<And>k t. (k, t) \<in> set (ready_tasks g) \<Longrightarrow> k = - priority_of g t"
    and "\<And>k t d. \<lbrakk>(k, t) \<in> set (ready_tasks g); t \<notin> B; d \<in> set (deps_subscript t g)\<rbrakk>
      \<Longrightarrow> \<not> data_unmet (data_ready_status g) d"
    and "idx_ok (data_to_pending_tasks g)"
    and "\<And>d t. t \<in> set (idx (data_to_pending_tasks g) d) \<Longrightarrow>
      t \<in> set (pending_tasks g) \<and> d \<in> set (deps_subscript t g)"
  shows "graph_inv_upto B g"
proof -
  have "\<forall>(k, t) \<in> set (ready_tasks g). k = - priority_of g t \<and>
      (t \<notin> B \<longrightarrow> (\<forall>d \<in> set (deps_subscript t g). \<not> data_unmet (data_ready_status g) d))"
    using assms(8,9) by auto
  moreover have "\<forall>d. \<forall>t \<in> set (idx (data_to_pending_tasks g) d).
      t \<in> set (pending_tasks g) \<and> d \<in> set (deps_subscript t g)"
    using assms(11) by blast
  ultimately show ?thesis
    unfolding graph_inv_upto_def using assms(1-7,10) by (intro conjI)
qed

lemma empty_graph_inv: "graph_inv empty_graph"
  by (rule graph_inv_uptoI) (auto simp: empty_graph_def idx_def idx_ok_def)

lemma empty_graph_wakeup: "wakeup_inv empty_graph"
  by (simp add: wakeup_upto_def empty_graph_def)

lemma graph_inv_basic:
  assumes "graph_inv_upto B g"
  shows "sorted (ready_tasks g)" and "distinct (ready_tasks g)"
    and "distinct (pending_tasks g)" and "distinct (completed_tasks g)"
    and "idx_ok (data_to_pending_tasks g)"
  using assms by (simp_all add: graph_inv_upto_def)

lemma insort_insert_graph:
  assumes "graph_inv_upto B g"
  shows "sorted (insort_insert e (ready_tasks g))" and "distinct (insort_insert e (ready_tasks g))"
  using graph_inv_basic [OF assms] by (auto intro: sorted_insort_insert)

lemma add_task_new:
  assumes "add_task clk t inputs reqs g = Some g'"
  shows "task_dependencies g t = None"
  using assms by (simp add: add_task_def split: if_splits)

lemma idx_fresh:
  "graph_inv_upto B g \<Longrightarrow> t \<notin> set (pending_tasks g) \<Longrightarrow> t \<notin> set (idx (data_to_pending_tasks g) d)"
  using graph_inv_idx by blast

lemma graph_inv_met_pair:
  assumes "graph_inv_upto B g" and "(k, t) \<in> set (ready_tasks g)" and "t \<notin> B"
    and "d \<in> set (deps_subscript t g)"
  shows "\<not> data_unmet (data_ready_status g) d"
  by (rule graph_inv_met [OF assms(1) _ assms(3,4)]) (use assms(2) in force)

text \<open>A new task that enters the graph as ready, and one that enters it as waiting.\<close>

lemma graph_inv_new_ready:
  assumes inv: "graph_inv g" and new: "task_dependencies g t = None"
    and met: "\<forall>d \<in> set inputs. \<not> data_unmet (data_ready_status g) d"
  shows "graph_inv (g\<lparr>task_dependencies := (task_dependencies g)(t \<mapsto> inputs),
      requirements_of := (requirements_of g)(t \<mapsto> reqs),
      ready_tasks := insort_insert (- priority reqs, t) (ready_tasks g),
      task_ready_timestamps := ts, task_ready_epoch_ms := es\<rparr>)" (is "graph_inv ?g")
proof -
  have fresh: "t \<notin> snd ` set (ready_tasks g)" "t \<notin> set (pending_tasks g)"
    using new known_iff [OF inv, of t] by auto
  have freshr: "(k, t) \<notin> set (ready_tasks g)" for k using fresh(1) by force
  have deps: "deps_subscript u ?g = (if u = t then inputs else deps_subscript u g)" for u
    by (simp add: deps_subscript_def)
  have prio: "priority_of ?g u = (if u = t then priority reqs else priority_of g u)" for u
    by (simp add: priority_of_def)
  show ?thesis
  proof (rule graph_inv_uptoI)
    show "dom (requirements_of ?g) = dom (task_dependencies ?g)"
      by (simp add: graph_inv_dom_reqs [OF inv])
    show "dom (task_dependencies ?g) = snd ` set (ready_tasks ?g) \<union> set (pending_tasks ?g)"
      by (simp add: graph_inv_dom [OF inv] set_insort_insert)
    show "snd ` set (ready_tasks ?g) \<inter> set (pending_tasks ?g) = {}"
      using fresh graph_inv_disjoint [OF inv] by (simp add: set_insort_insert)
    show "k = - priority_of ?g u" if "(k, u) \<in> set (ready_tasks ?g)" for k u
      using that ready_key [OF inv] freshr by (auto simp: prio set_insort_insert)
    show "\<not> data_unmet (data_ready_status ?g) d"
      if "(k, u) \<in> set (ready_tasks ?g)" "d \<in> set (deps_subscript u ?g)" for k u d
      using that graph_inv_met_pair [OF inv] met
      by (auto simp: deps set_insort_insert split: if_splits)
    show "u \<in> set (pending_tasks ?g) \<and> d \<in> set (deps_subscript u ?g)"
      if "u \<in> set (idx (data_to_pending_tasks ?g) d)" for u d
      using graph_inv_idx [OF inv] that idx_fresh [OF inv fresh(2)] by (auto simp: deps)
  qed (use graph_inv_basic [OF inv] insort_insert_graph [OF inv] in simp_all)
qed

lemma graph_inv_new_pending:
  assumes inv: "graph_inv g" and new: "task_dependencies g t = None"
  shows "graph_inv (g\<lparr>task_dependencies := (task_dependencies g)(t \<mapsto> inputs),
      requirements_of := (requirements_of g)(t \<mapsto> reqs),
      data_to_pending_tasks :=
        index_unmet (data_ready_status g) t inputs (data_to_pending_tasks g),
      pending_tasks := List.insert t (pending_tasks g)\<rparr>)" (is "graph_inv ?g")
proof -
  have fresh: "t \<notin> snd ` set (ready_tasks g)" "t \<notin> set (pending_tasks g)"
    using new known_iff [OF inv, of t] by auto
  have freshr: "(k, t) \<notin> set (ready_tasks g)" for k using fresh(1) by force
  have deps: "deps_subscript u ?g = (if u = t then inputs else deps_subscript u g)" for u
    by (simp add: deps_subscript_def)
  have prio: "priority_of ?g u = (if u = t then priority reqs else priority_of g u)" for u
    by (simp add: priority_of_def)
  show ?thesis
  proof (rule graph_inv_uptoI)
    show "dom (requirements_of ?g) = dom (task_dependencies ?g)"
      by (simp add: graph_inv_dom_reqs [OF inv])
    show "dom (task_dependencies ?g) = snd ` set (ready_tasks ?g) \<union> set (pending_tasks ?g)"
      by (simp add: graph_inv_dom [OF inv])
    show "snd ` set (ready_tasks ?g) \<inter> set (pending_tasks ?g) = {}"
      using fresh graph_inv_disjoint [OF inv] by simp
    show "k = - priority_of ?g u" if "(k, u) \<in> set (ready_tasks ?g)" for k u
      using that ready_key [OF inv] freshr by (auto simp: prio)
    show "\<not> data_unmet (data_ready_status ?g) d"
      if "(k, u) \<in> set (ready_tasks ?g)" "d \<in> set (deps_subscript u ?g)" for k u d
      using that graph_inv_met_pair [OF inv] freshr by (auto simp: deps split: if_splits)
    show "u \<in> set (pending_tasks ?g) \<and> d \<in> set (deps_subscript u ?g)"
      if "u \<in> set (idx (data_to_pending_tasks ?g) d)" for u d
      using graph_inv_idx [OF inv] that idx_fresh [OF inv fresh(2)]
      by (auto simp: deps set_idx_index_unmet split: if_splits)
    show "idx_ok (data_to_pending_tasks ?g)"
      using graph_inv_basic(5) [OF inv] by auto
  qed (use graph_inv_basic [OF inv] in simp_all)
qed

lemma index_unmet_none:
  "\<forall>d \<in> set ds. \<not> data_unmet st d \<Longrightarrow> index_unmet st t ds ix = ix"
  by (induction ds arbitrary: ix) auto

lemma add_task_cases:
  assumes "add_task clk t inputs reqs g = Some g'"
  obtains (ready) "\<forall>d \<in> set inputs. \<not> data_unmet (data_ready_status g) d"
      "g' = g\<lparr>task_dependencies := (task_dependencies g)(t \<mapsto> inputs),
        requirements_of := (requirements_of g)(t \<mapsto> reqs),
        ready_tasks := insort_insert (- priority reqs, t) (ready_tasks g),
        task_ready_timestamps := (task_ready_timestamps g)(t \<mapsto> fst clk),
        task_ready_epoch_ms := (task_ready_epoch_ms g)(t \<mapsto> snd clk)\<rparr>"
  | (pending) "\<exists>d \<in> set inputs. data_unmet (data_ready_status g) d"
      "g' = g\<lparr>task_dependencies := (task_dependencies g)(t \<mapsto> inputs),
        requirements_of := (requirements_of g)(t \<mapsto> reqs),
        data_to_pending_tasks :=
          index_unmet (data_ready_status g) t inputs (data_to_pending_tasks g),
        pending_tasks := List.insert t (pending_tasks g)\<rparr>"
proof (cases "\<forall>d \<in> set inputs. \<not> data_unmet (data_ready_status g) d")
  case True
  then have "filter (data_unmet (data_ready_status g)) inputs = []"
    by (simp add: filter_empty_conv)
  with True assms ready show ?thesis
    by (simp add: add_task_def Let_def index_unmet_none split: if_splits)
next
  case False
  then have "filter (data_unmet (data_ready_status g)) inputs \<noteq> []"
    by (simp add: filter_empty_conv)
  with False assms pending show ?thesis
    by (simp add: add_task_def Let_def split: if_splits)
qed

lemma add_task_inv:
  assumes inv: "graph_inv g" and add: "add_task clk t inputs reqs g = Some g'"
  shows "graph_inv g'"
  using add
proof (cases rule: add_task_cases)
  case ready
  then show ?thesis using graph_inv_new_ready [OF inv add_task_new [OF add]] by simp
next
  case pending
  then show ?thesis using graph_inv_new_pending [OF inv add_task_new [OF add]] by simp
qed

lemma graph_inv_set_ready:
  assumes inv: "graph_inv g"
  shows "graph_inv (g\<lparr>data_ready_status := (data_ready_status g)(d \<mapsto> True)\<rparr>)" (is "graph_inv ?g")
proof (rule graph_inv_uptoI)
  have deps: "deps_subscript u ?g = deps_subscript u g" for u by (simp add: deps_subscript_def)
  have prio: "priority_of ?g u = priority_of g u" for u by (simp add: priority_of_def)
  show "k = - priority_of ?g t" if "(k, t) \<in> set (ready_tasks ?g)" for k t
    using that ready_key [OF inv] by (simp add: prio)
  show "\<not> data_unmet (data_ready_status ?g) e"
    if "(k, t) \<in> set (ready_tasks ?g)" "e \<in> set (deps_subscript t ?g)" for k t e
    using that graph_inv_met_pair [OF inv, of k t e] by (simp add: deps data_unmet_def)
  show "t \<in> set (pending_tasks ?g) \<and> e \<in> set (deps_subscript t ?g)"
    if "t \<in> set (idx (data_to_pending_tasks ?g) e)" for e t
    using that graph_inv_idx [OF inv] by (simp add: deps)
qed (use graph_inv_basic [OF inv] graph_inv_dom [OF inv] graph_inv_dom_reqs [OF inv]
      graph_inv_disjoint [OF inv] in simp_all)

lemma promote_inv:
  assumes inv: "graph_inv g" and pend: "t \<in> set (pending_tasks g)"
    and met: "\<forall>d \<in> set (deps_subscript t g). \<not> data_unmet (data_ready_status g) d"
  shows "graph_inv (promote clk t g)" (is "graph_inv ?g")
proof (rule graph_inv_uptoI)
  have deps: "deps_subscript u ?g = deps_subscript u g" for u
    by (simp add: deps_subscript_def promote_def)
  have prio: "priority_of ?g u = priority_of g u" for u
    by (simp add: priority_of_def promote_def)
  show "dom (requirements_of ?g) = dom (task_dependencies ?g)"
    by (simp add: promote_def graph_inv_dom_reqs [OF inv])
  show "dom (task_dependencies ?g) = snd ` set (ready_tasks ?g) \<union> set (pending_tasks ?g)"
    using pend by (auto simp: promote_def graph_inv_dom [OF inv] set_insort_insert)
  show "snd ` set (ready_tasks ?g) \<inter> set (pending_tasks ?g) = {}"
    using graph_inv_disjoint [OF inv] by (auto simp: promote_def set_insort_insert)
  show "k = - priority_of ?g u" if "(k, u) \<in> set (ready_tasks ?g)" for k u
    using that ready_key [OF inv] unfolding prio by (auto simp: promote_def set_insort_insert)
  show "\<not> data_unmet (data_ready_status ?g) d"
    if "(k, u) \<in> set (ready_tasks ?g)" "d \<in> set (deps_subscript u ?g)" for k u d
    using that graph_inv_met_pair [OF inv, of k u d] met unfolding deps
    by (auto simp: promote_def set_insort_insert)
  show "u \<in> set (pending_tasks ?g) \<and> d \<in> set (deps_subscript u ?g)"
    if "u \<in> set (idx (data_to_pending_tasks ?g) d)" for d u
    using that graph_inv_idx [OF inv, of u d] unfolding deps
    by (auto simp: promote_def set_idx_unindex split: if_splits)
  show "idx_ok (data_to_pending_tasks ?g)"
    using graph_inv_basic(5) [OF inv] by (auto simp: promote_def)
qed (use graph_inv_basic [OF inv] insort_insert_graph [OF inv] in
      \<open>simp_all add: promote_def distinct_removeAll\<close>)

lemma check_and_move_cases:
  assumes inv: "graph_inv g"
  obtains (stay) "fst (check_and_move_to_ready clk t g) = g"
      "t \<in> set (completed_tasks g) \<or> t \<notin> set (pending_tasks g) \<or>
       (\<exists>d \<in> set (deps_subscript t g). data_unmet (data_ready_status g) d)"
  | (move) "fst (check_and_move_to_ready clk t g) = promote clk t g"
      "t \<notin> set (completed_tasks g)" "t \<in> set (pending_tasks g)"
      "\<forall>d \<in> set (deps_subscript t g). \<not> data_unmet (data_ready_status g) d"
proof (cases "t \<in> set (completed_tasks g) \<or> t \<notin> set (pending_tasks g)")
  case True
  have "fst (check_and_move_to_ready clk t g) = g"
    using True by (auto simp: check_and_move_to_ready_def)
  then show ?thesis using True stay by blast
next
  case False
  then have "touch_deps t g = g" using known_iff [OF inv, of t] by simp
  moreover have "t \<notin> snd ` set (ready_tasks g)" using False graph_inv_disjoint [OF inv] by blast
  ultimately have eq: "fst (check_and_move_to_ready clk t g) =
      (if \<exists>d \<in> set (deps_subscript t g). data_unmet (data_ready_status g) d then g
       else promote clk t g)"
    using False by (simp add: check_and_move_to_ready_def Let_def)
  show ?thesis
  proof (cases "\<exists>d \<in> set (deps_subscript t g). data_unmet (data_ready_status g) d")
    case True
    then show ?thesis using eq stay by simp
  next
    case nomiss: False
    then show ?thesis using eq move False by simp
  qed
qed

lemma check_and_move_inv:
  assumes inv: "graph_inv g"
  shows "graph_inv (fst (check_and_move_to_ready clk t g))"
  by (cases rule: check_and_move_cases [OF inv, of clk t]) (use inv promote_inv in auto)

lemma fold_check_and_move_inv:
  "graph_inv g \<Longrightarrow> graph_inv (fold (\<lambda>t g. fst (check_and_move_to_ready (clk t) t g)) ts g)"
  by (induction ts arbitrary: g) (auto intro: check_and_move_inv)

lemma mark_data_ready_inv: "graph_inv g \<Longrightarrow> graph_inv (mark_data_ready clk d g)"
  by (auto simp: mark_data_ready_def Let_def split: option.splits
      intro: graph_inv_set_ready fold_check_and_move_inv)

lemma remove_task_inv:
  assumes inv: "graph_inv g"
  shows "graph_inv (graph_remove_task t g)" (is "graph_inv ?g")
proof (rule graph_inv_uptoI)
  have deps: "deps_subscript u ?g = (if u = t then [] else deps_subscript u g)" for u
    by (simp add: deps_subscript_def graph_remove_task_def)
  have prio: "u \<noteq> t \<Longrightarrow> priority_of ?g u = priority_of g u" for u
    by (simp add: priority_of_def graph_remove_task_def)
  have rdy: "(k, u) \<in> set (ready_tasks ?g) \<longleftrightarrow> (k, u) \<in> set (ready_tasks g) \<and> u \<noteq> t" for k u
    using ready_key [OF inv] by (auto simp: graph_remove_task_def)
  have ids: "snd ` set (ready_tasks ?g) = snd ` set (ready_tasks g) - {t}"
    using snd_set_remove [OF inv] by (simp add: graph_remove_task_def)
  have ix: "set (idx (data_to_pending_tasks ?g) d) = set (idx (data_to_pending_tasks g) d) - {t}" for d
  proof (cases "task_dependencies g t")
    case None
    then have "t \<notin> set (pending_tasks g)" using known_iff [OF inv, of t] by simp
    then show ?thesis using None idx_fresh [OF inv, of t d] by (simp add: graph_remove_task_def)
  next
    case (Some ds)
    have "t \<in> set (idx (data_to_pending_tasks g) d) \<Longrightarrow> d \<in> set ds"
      using graph_inv_idx [OF inv, of t d] Some by (simp add: deps_subscript_def)
    then show ?thesis using Some by (auto simp: graph_remove_task_def set_idx_unindex)
  qed
  show "dom (requirements_of ?g) = dom (task_dependencies ?g)"
    by (simp add: graph_remove_task_def graph_inv_dom_reqs [OF inv])
  show "dom (task_dependencies ?g) = snd ` set (ready_tasks ?g) \<union> set (pending_tasks ?g)"
    unfolding ids by (auto simp: graph_remove_task_def graph_inv_dom [OF inv])
  show "snd ` set (ready_tasks ?g) \<inter> set (pending_tasks ?g) = {}"
    unfolding ids using graph_inv_disjoint [OF inv] by (auto simp: graph_remove_task_def)
  show "k = - priority_of ?g u" if "(k, u) \<in> set (ready_tasks ?g)" for k u
    using that ready_key [OF inv] unfolding rdy by (simp add: prio)
  show "\<not> data_unmet (data_ready_status ?g) d"
    if "(k, u) \<in> set (ready_tasks ?g)" "d \<in> set (deps_subscript u ?g)" for k u d
    using that graph_inv_met_pair [OF inv, of k u d] unfolding deps rdy
    by (auto simp: graph_remove_task_def split: if_splits)
  show "u \<in> set (pending_tasks ?g) \<and> d \<in> set (deps_subscript u ?g)"
    if "u \<in> set (idx (data_to_pending_tasks ?g) d)" for d u
    using that graph_inv_idx [OF inv, of u d] unfolding deps ix by (auto simp: graph_remove_task_def)
  show "idx_ok (data_to_pending_tasks ?g)"
    using graph_inv_basic(5) [OF inv] by (auto simp: graph_remove_task_def split: option.splits)
  show "sorted (ready_tasks ?g)" "distinct (ready_tasks ?g)"
    using graph_inv_basic [OF inv] by (auto simp: graph_remove_task_def distinct_removeAll)
qed (use graph_inv_basic [OF inv] in \<open>simp_all add: graph_remove_task_def distinct_removeAll\<close>)

lemma demote_ready:
  assumes "graph_inv_upto B g"
  shows "(k, u) \<in> set (ready_tasks (demote t g)) \<longleftrightarrow> (k, u) \<in> set (ready_tasks g) \<and> u \<noteq> t"
  using ready_key [OF assms] by (auto simp: demote_def)

lemma demote_ids:
  "graph_inv_upto B g \<Longrightarrow> snd ` set (ready_tasks (demote t g)) = snd ` set (ready_tasks g) - {t}"
  using snd_set_remove by (simp add: demote_def)

lemma demote_deps [simp]: "deps_subscript u (demote t g) = deps_subscript u g"
  by (simp add: deps_subscript_def demote_def)

lemma demote_status [simp]: "data_ready_status (demote t g) = data_ready_status g"
  by (simp add: demote_def)

lemma demote_inv:
  assumes inv: "graph_inv_upto (insert t B) g" and rdy: "t \<in> snd ` set (ready_tasks g)"
  shows "graph_inv_upto B (demote t g)" (is "graph_inv_upto B ?g")
proof (rule graph_inv_uptoI)
  have prio: "priority_of ?g u = priority_of g u" for u
    by (simp add: priority_of_def demote_def)
  show "dom (requirements_of ?g) = dom (task_dependencies ?g)"
    by (simp add: demote_def graph_inv_dom_reqs [OF inv])
  show "dom (task_dependencies ?g) = snd ` set (ready_tasks ?g) \<union> set (pending_tasks ?g)"
    unfolding demote_ids [OF inv] using rdy by (auto simp: demote_def graph_inv_dom [OF inv])
  show "snd ` set (ready_tasks ?g) \<inter> set (pending_tasks ?g) = {}"
    unfolding demote_ids [OF inv] using graph_inv_disjoint [OF inv] by (auto simp: demote_def)
  show "k = - priority_of ?g u" if "(k, u) \<in> set (ready_tasks ?g)" for k u
    using that ready_key [OF inv] unfolding demote_ready [OF inv] by (simp add: prio)
  show "\<not> data_unmet (data_ready_status ?g) d"
    if "(k, u) \<in> set (ready_tasks ?g)" "u \<notin> B" "d \<in> set (deps_subscript u ?g)" for k u d
    using that graph_inv_met_pair [OF inv, of k u d] unfolding demote_ready [OF inv] by auto
  show "u \<in> set (pending_tasks ?g) \<and> d \<in> set (deps_subscript u ?g)"
    if "u \<in> set (idx (data_to_pending_tasks ?g) d)" for d u
  proof -
    from that have "u \<in> set (idx (data_to_pending_tasks g) d) \<or> u = t \<and> d \<in> set (deps_subscript t g)"
      by (auto simp: demote_def set_idx_index_unmet split: if_splits)
    then show ?thesis using graph_inv_idx [OF inv, of u d] by (auto simp: demote_def deps_subscript_def)
  qed
  show "idx_ok (data_to_pending_tasks ?g)"
    using graph_inv_basic(5) [OF inv] by (auto simp: demote_def)
  show "sorted (ready_tasks ?g)" "distinct (ready_tasks ?g)"
    using graph_inv_basic [OF inv] by (auto simp: demote_def distinct_removeAll)
qed (use graph_inv_basic [OF inv] in \<open>simp_all add: demote_def\<close>)

lemma fold_demote_inv:
  "\<lbrakk>graph_inv_upto (set ts) g; distinct ts; set ts \<subseteq> snd ` set (ready_tasks g)\<rbrakk>
     \<Longrightarrow> graph_inv (fold demote ts g)"
proof (induction ts arbitrary: g)
  case (Cons t ts)
  have inv: "graph_inv_upto (insert t (set ts)) g" using Cons.prems(1) by simp
  have "graph_inv_upto (set ts) (demote t g)"
    by (rule demote_inv [OF inv]) (use Cons.prems(3) in simp)
  moreover have "set ts \<subseteq> snd ` set (ready_tasks (demote t g))"
    unfolding demote_ids [OF inv] using Cons.prems(2,3) by auto
  ultimately show ?case using Cons.IH Cons.prems(2) by simp
qed simp

text \<open>The state after the first statement of \<open>mark_data_removed\<close>.\<close>

abbreviation forget_data :: "data_path \<Rightarrow> dep_graph \<Rightarrow> dep_graph" where
  "forget_data d g \<equiv> g\<lparr>data_ready_status := (data_ready_status g)(d := None)\<rparr>"

lemma forget_data_simps [simp]:
  "deps_subscript t (forget_data d g) = deps_subscript t g"
  "priority_of (forget_data d g) t = priority_of g t"
  "ready_dependents d (forget_data e g) = ready_dependents d g"
  by (simp_all add: deps_subscript_def priority_of_def ready_dependents_def)

lemma forget_data_inv:
  assumes inv: "graph_inv g"
  shows "graph_inv_upto (set (ready_dependents d g)) (forget_data d g)" (is "graph_inv_upto ?B ?g")
proof (rule graph_inv_uptoI)
  show "k = - priority_of ?g t" if "(k, t) \<in> set (ready_tasks ?g)" for k t
    using that ready_key [OF inv] by simp
  show "\<not> data_unmet (data_ready_status ?g) e"
    if "(k, t) \<in> set (ready_tasks ?g)" "t \<notin> ?B" "e \<in> set (deps_subscript t ?g)" for k t e
  proof -
    have "d \<notin> set (deps_subscript t g)"
      using that(1,2) by (force simp: ready_dependents_def)
    then show ?thesis
      using that graph_inv_met_pair [OF inv, of k t e] by (auto simp: data_unmet_def)
  qed
  show "t \<in> set (pending_tasks ?g) \<and> e \<in> set (deps_subscript t ?g)"
    if "t \<in> set (idx (data_to_pending_tasks ?g) e)" for e t
    using that graph_inv_idx [OF inv, of t e] by simp
qed (use graph_inv_basic [OF inv] graph_inv_dom [OF inv] graph_inv_dom_reqs [OF inv]
      graph_inv_disjoint [OF inv] in simp_all)

lemma fold_touch_known: "\<forall>t \<in> set ts. task_dependencies g t \<noteq> None \<Longrightarrow> fold touch_deps ts g = g"
  by (induction ts) auto

lemma mark_data_removed_eq:
  assumes inv: "graph_inv g"
  shows "mark_data_removed d g = fold demote (ready_dependents d g) (forget_data d g)"
proof -
  have "fold touch_deps (map snd (ready_tasks g)) (forget_data d g) = forget_data d g"
    by (rule fold_touch_known) (use known_iff [OF inv] in force)
  then show ?thesis by (simp add: mark_data_removed_def Let_def)
qed

lemma ready_ids_distinct:
  assumes "graph_inv_upto B g"
  shows "distinct (map snd (ready_tasks g))"
proof -
  have "inj_on snd (set (ready_tasks g))"
    by (rule inj_onI) (metis ready_key [OF assms] prod.collapse)
  then show ?thesis using graph_inv_basic(2) [OF assms] by (simp add: distinct_map)
qed

lemma ready_dependents_props:
  assumes "graph_inv g"
  shows "distinct (ready_dependents d g)"
    and "set (ready_dependents d g) \<subseteq> snd ` set (ready_tasks g)"
  using ready_ids_distinct [OF assms] by (auto simp: ready_dependents_def)

lemma mark_data_removed_inv:
  assumes inv: "graph_inv g"
  shows "graph_inv (mark_data_removed d g)"
  unfolding mark_data_removed_eq [OF inv]
  by (rule fold_demote_inv [OF forget_data_inv [OF inv]]) (use ready_dependents_props [OF inv] in auto)

lemma set_hint_simps [simp]:
  "task_dependencies (set_task_locality_hint t h g) = task_dependencies g"
  "data_ready_status (set_task_locality_hint t h g) = data_ready_status g"
  "ready_tasks (set_task_locality_hint t h g) = ready_tasks g"
  "pending_tasks (set_task_locality_hint t h g) = pending_tasks g"
  "completed_tasks (set_task_locality_hint t h g) = completed_tasks g"
  "data_to_pending_tasks (set_task_locality_hint t h g) = data_to_pending_tasks g"
  "deps_subscript u (set_task_locality_hint t h g) = deps_subscript u g"
  "priority_of (set_task_locality_hint t h g) u = priority_of g u"
  "dom (requirements_of (set_task_locality_hint t h g)) = dom (requirements_of g)"
  by (auto simp: set_task_locality_hint_def deps_subscript_def priority_of_def split: option.splits)

lemma set_hint_inv: "graph_inv g \<Longrightarrow> graph_inv (set_task_locality_hint t h g)"
  by (simp add: graph_inv_upto_def)

subsection \<open>Preservation of the wake-up invariant\<close>

lemma wakeup_uptoI:
  assumes "set (completed_tasks g) \<inter> dom (task_dependencies g) = {}"
    and "\<And>t. \<lbrakk>t \<in> set (pending_tasks g); t \<notin> A\<rbrakk>
      \<Longrightarrow> \<exists>d \<in> set (deps_subscript t g). data_unmet (data_ready_status g) d"
    and "\<And>t d. \<lbrakk>t \<in> set (pending_tasks g); d \<in> set (deps_subscript t g);
        data_unmet (data_ready_status g) d\<rbrakk> \<Longrightarrow> t \<in> set (idx (data_to_pending_tasks g) d)"
  shows "wakeup_upto A g"
  using assms unfolding wakeup_upto_def by blast

lemma wakeup_fresh:
  "wakeup_upto A g \<Longrightarrow> task_dependencies g t \<noteq> None \<Longrightarrow> t \<notin> set (completed_tasks g)"
  by (auto simp: wakeup_upto_def)

lemma wakeup_misses:
  "\<lbrakk>wakeup_upto A g; t \<in> set (pending_tasks g); t \<notin> A\<rbrakk>
     \<Longrightarrow> \<exists>d \<in> set (deps_subscript t g). data_unmet (data_ready_status g) d"
  by (auto simp: wakeup_upto_def)

lemma wakeup_indexed:
  "\<lbrakk>wakeup_upto A g; t \<in> set (pending_tasks g); d \<in> set (deps_subscript t g);
    data_unmet (data_ready_status g) d\<rbrakk> \<Longrightarrow> t \<in> set (idx (data_to_pending_tasks g) d)"
  by (auto simp: wakeup_upto_def)

lemma wakeup_completed:
  "wakeup_upto A g \<Longrightarrow> set (completed_tasks g) \<inter> dom (task_dependencies g) = {}"
  by (simp add: wakeup_upto_def)

lemma add_task_wakeup:
  assumes inv: "graph_inv g" and wk: "wakeup_inv g"
    and add: "add_task clk t inputs reqs g = Some g'" and new: "t \<notin> set (completed_tasks g)"
  shows "wakeup_inv g'"
proof -
  have notin: "t \<notin> set (pending_tasks g)"
    using add_task_new [OF add] known_iff [OF inv, of t] by simp
  from add show ?thesis
  proof (cases rule: add_task_cases)
    case ready
    have deps: "deps_subscript u g' = (if u = t then inputs else deps_subscript u g)" for u
      by (simp add: deps_subscript_def ready)
    show ?thesis
    proof (rule wakeup_uptoI)
      show "set (completed_tasks g') \<inter> dom (task_dependencies g') = {}"
        using wakeup_completed [OF wk] new by (simp add: ready)
      show "\<exists>d \<in> set (deps_subscript u g'). data_unmet (data_ready_status g') d"
        if "u \<in> set (pending_tasks g')" for u
        using that wakeup_misses [OF wk, of u] notin unfolding deps by (auto simp: ready)
      show "u \<in> set (idx (data_to_pending_tasks g') d)"
        if "u \<in> set (pending_tasks g')" "d \<in> set (deps_subscript u g')"
          "data_unmet (data_ready_status g') d" for u d
        using that wakeup_indexed [OF wk, of u d] notin unfolding deps
        by (auto simp: ready split: if_splits)
    qed
  next
    case pending
    have deps: "deps_subscript u g' = (if u = t then inputs else deps_subscript u g)" for u
      by (simp add: deps_subscript_def pending)
    show ?thesis
    proof (rule wakeup_uptoI)
      show "set (completed_tasks g') \<inter> dom (task_dependencies g') = {}"
        using wakeup_completed [OF wk] new by (simp add: pending)
      show "\<exists>d \<in> set (deps_subscript u g'). data_unmet (data_ready_status g') d"
        if "u \<in> set (pending_tasks g')" for u
        using that wakeup_misses [OF wk, of u] pending(1) unfolding deps by (auto simp: pending(2))
      show "u \<in> set (idx (data_to_pending_tasks g') d)"
        if "u \<in> set (pending_tasks g')" "d \<in> set (deps_subscript u g')"
          "data_unmet (data_ready_status g') d" for u d
        using that wakeup_indexed [OF wk, of u d] unfolding deps
        by (auto simp: pending(2) set_idx_index_unmet split: if_splits)
    qed
  qed
qed

lemma set_ready_wakeup:
  assumes wk: "wakeup_inv g"
  shows "wakeup_upto (set (idx (data_to_pending_tasks g) d))
    (g\<lparr>data_ready_status := (data_ready_status g)(d \<mapsto> True)\<rparr>)" (is "wakeup_upto ?A ?g")
proof (rule wakeup_uptoI)
  have deps: "deps_subscript u ?g = deps_subscript u g" for u by (simp add: deps_subscript_def)
  have unm: "data_unmet (data_ready_status ?g) e \<longleftrightarrow> e \<noteq> d \<and> data_unmet (data_ready_status g) e" for e
    by (simp add: data_unmet_def)
  show "set (completed_tasks ?g) \<inter> dom (task_dependencies ?g) = {}"
    using wakeup_completed [OF wk] by simp
  show "\<exists>e \<in> set (deps_subscript u ?g). data_unmet (data_ready_status ?g) e"
    if "u \<in> set (pending_tasks ?g)" "u \<notin> ?A" for u
  proof -
    have u: "u \<in> set (pending_tasks g)" using that(1) by simp
    then obtain e where "e \<in> set (deps_subscript u g)" "data_unmet (data_ready_status g) e"
      using wakeup_misses [OF wk] by blast
    moreover from this have "e \<noteq> d" using wakeup_indexed [OF wk u] that(2) by blast
    ultimately show ?thesis unfolding deps unm by blast
  qed
  show "u \<in> set (idx (data_to_pending_tasks ?g) e)"
    if "u \<in> set (pending_tasks ?g)" "e \<in> set (deps_subscript u ?g)"
      "data_unmet (data_ready_status ?g) e" for u e
    using that wakeup_indexed [OF wk, of u e] unfolding deps unm by simp
qed

lemma check_and_move_wakeup:
  assumes inv: "graph_inv g" and wk: "wakeup_upto (insert t A) g"
  shows "wakeup_upto A (fst (check_and_move_to_ready clk t g))"
  using inv
proof (cases rule: check_and_move_cases [where clk = clk and t = t])
  case stay
  have "t \<in> set (pending_tasks g) \<Longrightarrow> t \<notin> set (completed_tasks g)"
    using wakeup_fresh [OF wk, of t] known_iff [OF inv, of t] by blast
  then show ?thesis using wk stay unfolding wakeup_upto_def by auto
next
  case move
  let ?g = "promote clk t g"
  have deps: "deps_subscript u ?g = deps_subscript u g" for u
    by (simp add: deps_subscript_def promote_def)
  have "wakeup_upto A ?g"
  proof (rule wakeup_uptoI)
    show "set (completed_tasks ?g) \<inter> dom (task_dependencies ?g) = {}"
      using wakeup_completed [OF wk] by (simp add: promote_def)
    show "\<exists>e \<in> set (deps_subscript u ?g). data_unmet (data_ready_status ?g) e"
      if "u \<in> set (pending_tasks ?g)" "u \<notin> A" for u
      using that wakeup_misses [OF wk, of u] unfolding deps by (simp add: promote_def)
    show "u \<in> set (idx (data_to_pending_tasks ?g) e)"
      if "u \<in> set (pending_tasks ?g)" "e \<in> set (deps_subscript u ?g)"
        "data_unmet (data_ready_status ?g) e" for u e
      using that wakeup_indexed [OF wk, of u e] unfolding deps
      by (simp add: promote_def set_idx_unindex)
  qed
  then show ?thesis using move by simp
qed

lemma fold_check_and_move_wakeup:
  "graph_inv g \<Longrightarrow> wakeup_upto (set ts) g \<Longrightarrow>
     wakeup_inv (fold (\<lambda>t g. fst (check_and_move_to_ready (clk t) t g)) ts g)"
  by (induction ts arbitrary: g) (auto intro: check_and_move_inv check_and_move_wakeup)

lemma mark_data_ready_wakeup:
  assumes inv: "graph_inv g" and wk: "wakeup_inv g"
  shows "wakeup_inv (mark_data_ready clk d g)"
proof (cases "data_to_pending_tasks g d")
  case None
  then show ?thesis
    using set_ready_wakeup [OF wk, of d] by (simp add: mark_data_ready_def idx_def)
next
  case (Some ts)
  have "wakeup_upto (set ts) (g\<lparr>data_ready_status := (data_ready_status g)(d \<mapsto> True)\<rparr>)"
    using set_ready_wakeup [OF wk, of d] Some by (simp add: idx_def)
  then show ?thesis
    using fold_check_and_move_wakeup [OF graph_inv_set_ready [OF inv]] Some
    by (simp add: mark_data_ready_def)
qed

lemma remove_task_wakeup:
  assumes inv: "graph_inv g" and wk: "wakeup_inv g"
  shows "wakeup_inv (graph_remove_task t g)" (is "wakeup_inv ?g")
proof (rule wakeup_uptoI)
  have deps: "u \<noteq> t \<Longrightarrow> deps_subscript u ?g = deps_subscript u g" for u
    by (simp add: deps_subscript_def graph_remove_task_def)
  have st: "data_ready_status ?g = data_ready_status g" by (simp add: graph_remove_task_def)
  have pend: "set (pending_tasks ?g) = set (pending_tasks g) - {t}"
    by (simp add: graph_remove_task_def)
  show "set (completed_tasks ?g) \<inter> dom (task_dependencies ?g) = {}"
    using wakeup_completed [OF wk] by (auto simp: graph_remove_task_def)
  show "\<exists>e \<in> set (deps_subscript u ?g). data_unmet (data_ready_status ?g) e"
    if "u \<in> set (pending_tasks ?g)" for u
    using that wakeup_misses [OF wk, of u] by (simp add: pend deps st)
  show "u \<in> set (idx (data_to_pending_tasks ?g) e)"
    if "u \<in> set (pending_tasks ?g)" "e \<in> set (deps_subscript u ?g)"
      "data_unmet (data_ready_status ?g) e" for u e
  proof -
    have "u \<in> set (idx (data_to_pending_tasks g) e)" and "u \<noteq> t"
      using that wakeup_indexed [OF wk, of u e] by (auto simp: pend deps st)
    then show ?thesis by (simp add: graph_remove_task_def set_idx_unindex split: option.splits)
  qed
qed

text \<open>
  \<open>mark_data_removed\<close> re-indexes only the tasks it takes out of the ready set.  It keeps the
  wake-up invariant when no waiting task reads the path while the path is ready.
\<close>

definition no_waiting_reader :: "data_path \<Rightarrow> dep_graph \<Rightarrow> bool" where
  "no_waiting_reader d g \<longleftrightarrow>
     (\<forall>t \<in> set (pending_tasks g). d \<in> set (deps_subscript t g) \<longrightarrow>
        data_unmet (data_ready_status g) d)"

lemma forget_data_wakeup:
  assumes wk: "wakeup_inv g" and "no_waiting_reader d g"
  shows "wakeup_inv (forget_data d g)"
proof (rule wakeup_uptoI)
  have unm: "data_unmet (data_ready_status (forget_data d g)) e \<longleftrightarrow>
      e = d \<or> data_unmet (data_ready_status g) e" for e
    by (simp add: data_unmet_def)
  show "\<exists>e \<in> set (deps_subscript u (forget_data d g)).
      data_unmet (data_ready_status (forget_data d g)) e"
    if "u \<in> set (pending_tasks (forget_data d g))" for u
    using that wakeup_misses [OF wk, of u] unfolding unm by auto
  show "u \<in> set (idx (data_to_pending_tasks (forget_data d g)) e)"
    if "u \<in> set (pending_tasks (forget_data d g))" "e \<in> set (deps_subscript u (forget_data d g))"
      "data_unmet (data_ready_status (forget_data d g)) e" for u e
    using that assms(2) wakeup_indexed [OF wk, of u e] unfolding unm
    by (auto simp: no_waiting_reader_def)
qed (use wakeup_completed [OF wk] in simp)

lemma demote_wakeup:
  assumes wk: "wakeup_inv g" and rdy: "task_dependencies g t \<noteq> None"
    and miss: "\<exists>d \<in> set (deps_subscript t g). data_unmet (data_ready_status g) d"
  shows "wakeup_inv (demote t g)"
proof (rule wakeup_uptoI)
  show "set (completed_tasks (demote t g)) \<inter> dom (task_dependencies (demote t g)) = {}"
    using wakeup_completed [OF wk] by (simp add: demote_def)
  show "\<exists>e \<in> set (deps_subscript u (demote t g)). data_unmet (data_ready_status (demote t g)) e"
    if "u \<in> set (pending_tasks (demote t g))" for u
  proof -
    have "u = t \<or> u \<in> set (pending_tasks g)" using that by (simp add: demote_def)
    then show ?thesis using miss wakeup_misses [OF wk, of u] by auto
  qed
  show "u \<in> set (idx (data_to_pending_tasks (demote t g)) e)"
    if "u \<in> set (pending_tasks (demote t g))" "e \<in> set (deps_subscript u (demote t g))"
      "data_unmet (data_ready_status (demote t g)) e" for u e
  proof -
    have "u = t \<or> u \<in> set (pending_tasks g)" using that(1) by (simp add: demote_def)
    then have "u = t \<or> u \<in> set (idx (data_to_pending_tasks g) e)"
      using that(2,3) wakeup_indexed [OF wk, of u e] by auto
    then show ?thesis using that(2,3) unfolding demote_deps demote_status
      by (auto simp: demote_def set_idx_index_unmet)
  qed
qed

lemma fold_demote_wakeup:
  "\<lbrakk>wakeup_inv g;
    \<forall>t \<in> set ts. task_dependencies g t \<noteq> None \<and>
      (\<exists>d \<in> set (deps_subscript t g). data_unmet (data_ready_status g) d)\<rbrakk>
     \<Longrightarrow> wakeup_inv (fold demote ts g)"
proof (induction ts arbitrary: g)
  case (Cons t ts)
  have "wakeup_inv (demote t g)" by (rule demote_wakeup) (use Cons.prems in auto)
  moreover have "task_dependencies (demote t g) = task_dependencies g" by (simp add: demote_def)
  ultimately show ?case using Cons.IH [of "demote t g"] Cons.prems(2) by simp
qed simp

lemma mark_data_removed_wakeup:
  assumes inv: "graph_inv g" and wk: "wakeup_inv g" and "no_waiting_reader d g"
  shows "wakeup_inv (mark_data_removed d g)"
  unfolding mark_data_removed_eq [OF inv]
proof (rule fold_demote_wakeup [OF forget_data_wakeup [OF wk assms(3)]], rule ballI)
  fix t assume t: "t \<in> set (ready_dependents d g)"
  then have "task_dependencies g t \<noteq> None"
    using ready_dependents_props(2) [OF inv, of d] known_iff [OF inv, of t] by blast
  moreover have "d \<in> set (deps_subscript t g)" using t by (simp add: ready_dependents_def)
  ultimately show "task_dependencies (forget_data d g) t \<noteq> None \<and>
      (\<exists>e \<in> set (deps_subscript t (forget_data d g)).
         data_unmet (data_ready_status (forget_data d g)) e)"
    by (auto simp: data_unmet_def)
qed

lemma set_hint_wakeup: "wakeup_inv g \<Longrightarrow> wakeup_inv (set_task_locality_hint t h g)"
  by (simp add: wakeup_upto_def)

section \<open>The graph as a component\<close>

datatype graph_op =
    AddTask clock task_id "data_path list" task_requirements
  | SetLocalityHint task_id "(worker_id \<times> int) list"
  | MarkDataReady "task_id \<Rightarrow> clock" data_path
  | MarkDataRemoved data_path
  | RemoveTask task_id

fun graph_exec :: "graph_op \<Rightarrow> dep_graph \<Rightarrow> dep_graph option" where
  "graph_exec (AddTask clk t inputs reqs) g = add_task clk t inputs reqs g"
| "graph_exec (SetLocalityHint t h) g = Some (set_task_locality_hint t h g)"
| "graph_exec (MarkDataReady clk d) g = Some (mark_data_ready clk d g)"
| "graph_exec (MarkDataRemoved d) g = Some (mark_data_removed d g)"
| "graph_exec (RemoveTask t) g = Some (graph_remove_task t g)"

text \<open>
  The discipline under which every task is woken: ids are not reused after a removal, and a data
  path is not withdrawn while a waiting task reads it.
\<close>

fun graph_disciplined :: "dep_graph \<Rightarrow> graph_op \<Rightarrow> bool" where
  "graph_disciplined g (AddTask clk t inputs reqs) \<longleftrightarrow> t \<notin> set (completed_tasks g)"
| "graph_disciplined g (MarkDataRemoved d) \<longleftrightarrow> no_waiting_reader d g"
| "graph_disciplined g _ \<longleftrightarrow> True"

lemma graph_exec_inv: "graph_inv g \<Longrightarrow> graph_exec op g = Some g' \<Longrightarrow> graph_inv g'"
  by (cases op)
     (auto intro: add_task_inv set_hint_inv mark_data_ready_inv mark_data_removed_inv remove_task_inv)

lemma graph_exec_wakeup:
  "\<lbrakk>graph_inv g; wakeup_inv g; graph_disciplined g op; graph_exec op g = Some g'\<rbrakk> \<Longrightarrow> wakeup_inv g'"
  by (cases op)
     (auto intro: add_task_wakeup set_hint_wakeup mark_data_ready_wakeup mark_data_removed_wakeup
        remove_task_wakeup)

interpretation graph_all: component_invariant graph_exec any_op empty_graph graph_inv
  by unfold_locales (auto intro: empty_graph_inv graph_exec_inv)

interpretation graph_disc: component_invariant graph_exec graph_disciplined empty_graph
  "\<lambda>g. graph_inv g \<and> wakeup_inv g"
  by unfold_locales
     (auto intro: empty_graph_inv empty_graph_wakeup graph_exec_inv graph_exec_wakeup)

section \<open>The abstract scheduler graph\<close>

text \<open>
  What the graph promises, without queues or an index: the inputs of each live task and the set of
  ready data paths.  A task is ready when its inputs are.
\<close>

record graph_spec =
  spec_inputs :: "task_id \<rightharpoonup> data_path list"
  spec_data :: "data_path set"

definition spec_init :: graph_spec where
  "spec_init = \<lparr>spec_inputs = Map.empty, spec_data = {}\<rparr>"

fun spec_exec :: "graph_op \<Rightarrow> graph_spec \<Rightarrow> graph_spec" where
  "spec_exec (AddTask clk t inputs reqs) a = a\<lparr>spec_inputs := (spec_inputs a)(t \<mapsto> inputs)\<rparr>"
| "spec_exec (SetLocalityHint t h) a = a"
| "spec_exec (MarkDataReady clk d) a = a\<lparr>spec_data := insert d (spec_data a)\<rparr>"
| "spec_exec (MarkDataRemoved d) a = a\<lparr>spec_data := spec_data a - {d}\<rparr>"
| "spec_exec (RemoveTask t) a = a\<lparr>spec_inputs := (spec_inputs a)(t := None)\<rparr>"

definition spec_ready :: "graph_spec \<Rightarrow> task_id set" where
  "spec_ready a = {t. \<exists>ds. spec_inputs a t = Some ds \<and> set ds \<subseteq> spec_data a}"

definition abs_graph :: "dep_graph \<Rightarrow> graph_spec" where
  "abs_graph g = \<lparr>spec_inputs = task_dependencies g,
     spec_data = {d. data_ready_status g d = Some True}\<rparr>"

lemma check_and_move_abs:
  "graph_inv g \<Longrightarrow> abs_graph (fst (check_and_move_to_ready clk t g)) = abs_graph g"
  by (cases rule: check_and_move_cases [where clk = clk and t = t])
     (auto simp: abs_graph_def promote_def)

lemma fold_check_and_move_abs:
  "graph_inv g \<Longrightarrow>
     abs_graph (fold (\<lambda>t g. fst (check_and_move_to_ready (clk t) t g)) ts g) = abs_graph g"
  by (induction ts arbitrary: g) (simp_all add: check_and_move_abs check_and_move_inv)

lemma fold_demote_abs: "abs_graph (fold demote ts g) = abs_graph g"
  by (induction ts arbitrary: g) (simp_all add: abs_graph_def demote_def)

lemma graph_exec_abs:
  assumes inv: "graph_inv g" and ex: "graph_exec op g = Some g'"
  shows "abs_graph g' = spec_exec op (abs_graph g)"
proof (cases op)
  case (AddTask clk t inputs reqs)
  then show ?thesis using ex by (auto simp: add_task_def Let_def abs_graph_def split: if_splits)
next
  case (MarkDataReady clk d)
  let ?g = "g\<lparr>data_ready_status := (data_ready_status g)(d \<mapsto> True)\<rparr>"
  have "abs_graph (mark_data_ready clk d g) = abs_graph ?g"
    using graph_inv_set_ready [OF inv, of d]
    by (auto simp: mark_data_ready_def Let_def fold_check_and_move_abs split: option.splits)
  then show ?thesis using ex MarkDataReady by (auto simp: abs_graph_def)
next
  case (MarkDataRemoved d)
  have "abs_graph (mark_data_removed d g) = abs_graph (forget_data d g)"
    by (simp add: mark_data_removed_eq [OF inv] fold_demote_abs)
  then show ?thesis using ex MarkDataRemoved by (auto simp: abs_graph_def)
qed (use ex in \<open>auto simp: abs_graph_def graph_remove_task_def\<close>)

lemma ready_iff_spec:
  assumes inv: "graph_inv g" and wk: "wakeup_inv g"
  shows "t \<in> set (get_ready_tasks g) \<longleftrightarrow> t \<in> spec_ready (abs_graph g)"
proof -
  have met: "t \<in> spec_ready (abs_graph g) \<longleftrightarrow> task_dependencies g t \<noteq> None \<and>
      (\<forall>d \<in> set (deps_subscript t g). \<not> data_unmet (data_ready_status g) d)"
    by (auto simp: spec_ready_def abs_graph_def deps_subscript_def data_unmet_def)
  show ?thesis
  proof (cases "t \<in> set (get_ready_tasks g)")
    case True
    then show ?thesis
      using graph_inv_met [OF inv, of t] known_iff [OF inv, of t] by (auto simp: met get_ready_tasks_def)
  next
    case False
    then show ?thesis using wakeup_misses [OF wk, of t] known_iff [OF inv, of t]
      by (auto simp: met get_ready_tasks_def)
  qed
qed

lemma abs_empty_graph: "abs_graph empty_graph = spec_init"
  by (simp add: abs_graph_def empty_graph_def spec_init_def)

section \<open>Properties\<close>

text \<open>
  C1: For every sequence of operations that respects the discipline (no id reused after a removal,
  no data path withdrawn while a waiting task reads it), the tasks \<open>get_ready_tasks\<close> returns are
  exactly the live tasks whose inputs are all ready in the abstract graph: nothing is scheduled
  early and no wake-up is lost.
\<close>

theorem graph_refines_spec:
  assumes "run_ops graph_exec graph_disciplined ops empty_graph = Some g"
  shows "set (get_ready_tasks g) = spec_ready (fold spec_exec ops spec_init)"
proof -
  have "(graph_inv g \<and> wakeup_inv g) \<and> abs_graph g = fold spec_exec ops spec_init"
    by (rule run_ops_simulation [OF assms, where I = "\<lambda>g. graph_inv g \<and> wakeup_inv g"])
       (auto intro: empty_graph_inv empty_graph_wakeup graph_exec_inv graph_exec_wakeup
         simp: graph_exec_abs abs_empty_graph)
  then show ?thesis using ready_iff_spec [of g] by auto
qed

definition demo_ops :: "graph_op list" where
  "demo_ops =
     [AddTask (0, 0) 7 [''a'', ''b''] default_requirements,
      AddTask (0, 0) 2 [] (default_requirements\<lparr>priority := 3\<rparr>),
      MarkDataReady (\<lambda>_. (1, 1)) ''a'', MarkDataReady (\<lambda>_. (2, 2)) ''b'', MarkDataRemoved ''a'',
      MarkDataReady (\<lambda>_. (3, 3)) ''a'', RemoveTask 2]"

lemma demo_run:
  "map_option get_ready_tasks (run_ops graph_exec graph_disciplined demo_ops empty_graph) = Some [7]"
  by code_simp

theorem graph_refines_spec_witness:
  "\<exists>g. run_ops graph_exec graph_disciplined demo_ops empty_graph = Some g \<and>
     get_ready_tasks g = [7] \<and> spec_ready (fold spec_exec demo_ops spec_init) = {7}"
proof -
  obtain g where g: "run_ops graph_exec graph_disciplined demo_ops empty_graph = Some g"
    and "get_ready_tasks g = [7]" using demo_run by blast
  then show ?thesis using graph_refines_spec [OF g] by simp
qed

text \<open>
  C2: After any sequence of operations whatsoever, a task that \<open>is_task_ready\<close> reports ready has
  only inputs that \<open>is_data_ready\<close> reports ready: the scheduler never starts a task on data that
  is missing, whatever was added, removed, withdrawn or re-added before.
\<close>

theorem ready_task_inputs_ready:
  assumes "reachable_by graph_exec any_op empty_graph g"
    and "is_task_ready g t" and "d \<in> set (get_task_dependencies g t)"
  shows "is_data_ready g d"
proof -
  have inv: "graph_inv g" using graph_all.reachable_inv assms(1) by simp
  have "t \<in> snd ` set (ready_tasks g)" using is_task_ready_iff [OF inv] assms(2) by simp
  then show ?thesis
    using graph_inv_met [OF inv, of t d] assms(3)
    by (simp add: get_task_dependencies_def deps_subscript_def data_unmet_def is_data_ready_def)
qed

theorem ready_task_inputs_ready_witness:
  "\<exists>g. run_ops graph_exec any_op demo_ops empty_graph = Some g \<and> is_task_ready g 7 \<and>
     ''b'' \<in> set (get_task_dependencies g 7) \<and> is_data_ready g ''b''"
proof -
  have "map_option (\<lambda>g. (is_task_ready g 7, get_task_dependencies g 7))
      (run_ops graph_exec any_op demo_ops empty_graph) = Some (True, [''a'', ''b''])"
    by code_simp
  then obtain g where g: "run_ops graph_exec any_op demo_ops empty_graph = Some g"
    and rdy: "is_task_ready g 7" and deps: "get_task_dependencies g 7 = [''a'', ''b'']" by auto
  have "''b'' \<in> set (get_task_dependencies g 7)" by (simp add: deps)
  then show ?thesis
    using ready_task_inputs_ready [OF reachable_run_ops [OF reachable_by.reach_init g] rdy] g rdy
    by blast
qed

text \<open>
  After any sequence of operations the ready list is strictly ordered by priority (higher
  first) and, at equal priority, by task id, so it has no repetitions; and every live task is
  either ready or pending, never both.
\<close>

theorem ready_list_ordered:
  assumes "reachable_by graph_exec any_op empty_graph g"
  shows "sorted_wrt (\<lambda>t u. priority_of g t > priority_of g u \<or>
      priority_of g t = priority_of g u \<and> t < u) (get_ready_tasks g) \<and>
    set (get_ready_tasks g) \<inter> set (get_pending_tasks g) = {} \<and>
    set (get_ready_tasks g) \<union> set (get_pending_tasks g) = dom (task_dependencies g)"
proof -
  let ?lt = "\<lambda>t u. priority_of g t > priority_of g u \<or> priority_of g t = priority_of g u \<and> t < u"
  have inv: "graph_inv g" using graph_all.reachable_inv assms by simp
  have srt: "sorted_wrt (<) (ready_tasks g)"
    using graph_inv_basic [OF inv] by (simp add: strict_sorted_iff)
  have "?lt (snd p) (snd q)"
    if "p \<in> set (ready_tasks g)" "q \<in> set (ready_tasks g)" "p < q" for p q
  proof -
    have "fst p = - priority_of g (snd p)" "fst q = - priority_of g (snd q)"
      using ready_key [OF inv, of "fst p" "snd p"] ready_key [OF inv, of "fst q" "snd q"] that(1,2)
      by simp_all
    then show ?thesis using that(3) by (auto simp: less_prod_def')
  qed
  then have "sorted_wrt (\<lambda>p q. ?lt (snd p) (snd q)) (ready_tasks g)"
    by (rule sorted_wrt_mono_rel [OF _ srt])
  then show ?thesis
    using graph_inv_disjoint [OF inv] graph_inv_dom [OF inv]
    by (simp add: get_ready_tasks_def get_pending_tasks_def sorted_wrt_map)
qed

theorem ready_list_ordered_witness:
  "\<exists>g. run_ops graph_exec any_op (take 4 demo_ops) empty_graph = Some g \<and>
     get_ready_tasks g = [7, 2] \<and> priority_of g 7 > priority_of g 2"
proof -
  have "map_option (\<lambda>g. (get_ready_tasks g, priority_of g 7, priority_of g 2))
      (run_ops graph_exec any_op (take 4 demo_ops) empty_graph) = Some ([7, 2], 10, 3)"
    by code_simp
  then obtain g where g: "run_ops graph_exec any_op (take 4 demo_ops) empty_graph = Some g"
    and "get_ready_tasks g = [7, 2]" by auto
  then show ?thesis
    using ready_list_ordered [OF reachable_run_ops [OF reachable_by.reach_init g]] by fastforce
qed

text \<open>The completed-id trap: once a live task carries a completed id and waits, it waits forever.\<close>

lemma stuck_check_and_move:
  assumes "graph_inv g" and "t \<in> set (completed_tasks g)" and "t \<in> set (pending_tasks g)"
  shows "t \<in> set (completed_tasks (fst (check_and_move_to_ready clk u g))) \<and>
    t \<in> set (pending_tasks (fst (check_and_move_to_ready clk u g)))"
  using assms
  by (auto simp: check_and_move_to_ready_def Let_def promote_def touch_deps_def)

lemma stuck_fold_check_and_move:
  "\<lbrakk>graph_inv g; t \<in> set (completed_tasks g); t \<in> set (pending_tasks g)\<rbrakk> \<Longrightarrow>
     t \<in> set (completed_tasks (fold (\<lambda>u g. fst (check_and_move_to_ready (clk u) u g)) us g)) \<and>
     t \<in> set (pending_tasks (fold (\<lambda>u g. fst (check_and_move_to_ready (clk u) u g)) us g))"
  by (induction us arbitrary: g) (simp_all add: stuck_check_and_move check_and_move_inv)

lemma stuck_fold_demote:
  "\<lbrakk>t \<in> set (completed_tasks g); t \<in> set (pending_tasks g)\<rbrakk> \<Longrightarrow>
     t \<in> set (completed_tasks (fold demote us g)) \<and> t \<in> set (pending_tasks (fold demote us g))"
  by (induction us arbitrary: g) (simp_all add: demote_def)

lemma stuck_exec:
  assumes inv: "graph_inv g" and "t \<in> set (completed_tasks g)" and "t \<in> set (pending_tasks g)"
    and "op \<noteq> RemoveTask t" and ex: "graph_exec op g = Some g'"
  shows "t \<in> set (completed_tasks g') \<and> t \<in> set (pending_tasks g')"
proof (cases op)
  case (AddTask clk u inputs reqs)
  then show ?thesis using assms by (auto simp: add_task_def Let_def split: if_splits)
next
  case (MarkDataReady clk d)
  then show ?thesis
    using assms(2,3) ex stuck_fold_check_and_move [OF graph_inv_set_ready [OF inv, of d]]
    by (auto simp: mark_data_ready_def Let_def split: option.splits)
next
  case (MarkDataRemoved d)
  then show ?thesis
    using assms(2,3) ex stuck_fold_demote [of t "forget_data d g"]
    by (auto simp: mark_data_removed_eq [OF inv])
qed (use assms in \<open>auto simp: graph_remove_task_def\<close>)

lemma stuck_run:
  "\<lbrakk>graph_inv g; t \<in> set (completed_tasks g); t \<in> set (pending_tasks g); RemoveTask t \<notin> set ops;
    run_ops graph_exec any_op ops g = Some g'\<rbrakk> \<Longrightarrow> graph_inv g' \<and> t \<in> set (pending_tasks g')"
proof (induction ops arbitrary: g)
  case (Cons op ops)
  obtain g1 where g1: "graph_exec op g = Some g1" "run_ops graph_exec any_op ops g1 = Some g'"
    using Cons.prems(5) by (auto split: option.splits)
  have "op \<noteq> RemoveTask t" using Cons.prems(4) by auto
  then have "t \<in> set (completed_tasks g1) \<and> t \<in> set (pending_tasks g1)"
    using stuck_exec [OF Cons.prems(1-3) _ g1(1)] by blast
  then show ?case
    using Cons.IH [OF graph_exec_inv [OF Cons.prems(1) g1(1)]] g1(2) Cons.prems(4) by simp
qed simp

text \<open>
  C3: A task id that was removed once and is added again while one of its inputs is missing is
  never reported ready afterwards, whatever data becomes ready, until it is removed again:
  \<open>remove_task\<close> records the id in \<open>completed_tasks_\<close>, \<open>add_task\<close> does not take it out, and
  \<open>check_and_move_to_ready\<close> ignores completed ids.
\<close>

theorem readded_task_never_ready:
  assumes "reachable_by graph_exec any_op empty_graph g"
    and "graph_exec (AddTask clk t inputs reqs) (graph_remove_task t g) = Some g1"
    and "d \<in> set inputs" and "\<not> is_data_ready g d"
    and "RemoveTask t \<notin> set ops" and "run_ops graph_exec any_op ops g1 = Some g2"
  shows "\<not> is_task_ready g2 t"
proof -
  have inv: "graph_inv g" using graph_all.reachable_inv assms(1) by simp
  have inv1: "graph_inv g1" using graph_exec_inv [OF remove_task_inv [OF inv] assms(2)] .
  have "data_unmet (data_ready_status (graph_remove_task t g)) d"
    using assms(4) by (auto simp: is_data_ready_def data_unmet_def graph_remove_task_def split: option.splits)
  then have "t \<in> set (pending_tasks g1) \<and> t \<in> set (completed_tasks g1)"
    using assms(2,3)
    by (auto simp: add_task_def Let_def filter_empty_conv graph_remove_task_def split: if_splits)
  then have "graph_inv g2 \<and> t \<in> set (pending_tasks g2)"
    using stuck_run [OF inv1 _ _ assms(5,6)] by blast
  then show ?thesis
    using is_task_ready_iff [of g2 t] graph_inv_disjoint [of "{}" g2] by blast
qed

theorem readded_task_never_ready_witness:
  "\<exists>g1 g2. graph_exec (AddTask (0, 0) 7 [''a''] default_requirements) (graph_remove_task 7 empty_graph)
       = Some g1 \<and>
     run_ops graph_exec any_op [MarkDataReady (\<lambda>_. (1, 1)) ''a''] g1 = Some g2 \<and>
     is_data_ready g2 ''a'' \<and> \<not> is_task_ready g2 7"
proof -
  let ?ops = "[MarkDataReady (\<lambda>_. (1, 1)) ''a'']"
  have "(case graph_exec (AddTask (0, 0) 7 [''a''] default_requirements)
        (graph_remove_task 7 empty_graph) of None \<Rightarrow> None
      | Some g1 \<Rightarrow> map_option (\<lambda>g2. is_data_ready g2 ''a'') (run_ops graph_exec any_op ?ops g1))
      = Some True"
    by code_simp
  then obtain g1 g2 where *: "graph_exec (AddTask (0, 0) 7 [''a''] default_requirements)
        (graph_remove_task 7 empty_graph) = Some g1"
      "run_ops graph_exec any_op ?ops g1 = Some g2" and "is_data_ready g2 ''a''"
    by (auto split: option.splits)
  moreover have "\<not> is_data_ready empty_graph ''a''" by code_simp
  ultimately show ?thesis
    using readded_task_never_ready [OF reachable_by.reach_init *(1) _ _ _ *(2)] by auto
qed

definition lost_wakeup_ops :: "graph_op list" where
  "lost_wakeup_ops =
     [MarkDataReady (\<lambda>_. (0, 0)) ''a'', AddTask (0, 0) 7 [''a'', ''b''] default_requirements,
      MarkDataRemoved ''a'', MarkDataReady (\<lambda>_. (1, 1)) ''b'', MarkDataReady (\<lambda>_. (2, 2)) ''a'']"

text \<open>
  The wake-up that is lost when data is withdrawn.  A task reading \<open>a\<close> and \<open>b\<close> waits for
  \<open>b\<close>; \<open>a\<close> is withdrawn, then \<open>b\<close> and \<open>a\<close> become ready.  All inputs are ready and the task
  is still pending, because \<open>mark_data_removed\<close> does not put waiting tasks back into the
  reverse index under the withdrawn path.
\<close>

theorem lost_wakeup:
  "map_option (\<lambda>g. (is_data_ready g ''a'', is_data_ready g ''b'', get_task_dependencies g 7,
      get_ready_tasks g, get_pending_tasks g))
     (run_ops graph_exec any_op lost_wakeup_ops empty_graph)
   = Some (True, True, [''a'', ''b''], [], [7])"
  by code_simp

end
