(* ===== verification/Worker_Manager.thy ===== *)
theory Worker_Manager
  imports Fly_Prelude "HOL-Library.Word"
begin

text \<open>
  The worker table, src/task/cpp/worker_manager.h and .cpp, with the role enumeration of
  src/common/runtime/cpp/worker_role.h, and the heartbeat check over it,
  src/task/cpp/heartbeat_monitor.h and .cpp.  Heartbeats are kept as 64-bit words because the
  monitor subtracts them as unsigned numbers.  Readings of the clock are arguments.
\<close>

section \<open>State\<close>

datatype worker_status = IDLE | BUSY | DEAD | EXITED

datatype worker_role = HYBRID | STORAGE_ONLY

definition worker_status_alive :: "worker_status \<Rightarrow> bool" where
  "worker_status_alive s \<longleftrightarrow> s = IDLE \<or> s = BUSY"

record worker_info =
  wi_worker_id :: worker_id
  wi_address :: string
  wi_port :: nat
  wi_status :: worker_status
  wi_capabilities :: "string list"
  wi_last_heartbeat :: "64 word"
  wi_current_task_id :: task_id
  wi_hostname :: string
  wi_ip_address :: string
  wi_role :: worker_role
  wi_in_grace :: bool

type_synonym worker_manager = "(worker_id \<times> worker_info) list"

section \<open>Operations\<close>

definition fresh_worker ::
  "64 word \<Rightarrow> worker_id \<Rightarrow> string \<Rightarrow> nat \<Rightarrow> string list \<Rightarrow> string \<Rightarrow> string \<Rightarrow> worker_role \<Rightarrow> worker_info"
where
  "fresh_worker now w address port caps hostname ip role =
     \<lparr>wi_worker_id = w, wi_address = address, wi_port = port, wi_status = IDLE,
      wi_capabilities = caps, wi_last_heartbeat = now, wi_current_task_id = 0,
      wi_hostname = hostname, wi_ip_address = ip, wi_role = role, wi_in_grace = False\<rparr>"

definition register_worker ::
  "64 word \<Rightarrow> worker_id \<Rightarrow> string \<Rightarrow> nat \<Rightarrow> string list \<Rightarrow> string \<Rightarrow> string \<Rightarrow> worker_role \<Rightarrow>
   worker_manager \<Rightarrow> worker_manager" where
  "register_worker now w address port caps hostname ip role wm =
     AList.update w (fresh_worker now w address port caps hostname ip role) wm"

definition register_worker_reconnect ::
  "64 word \<Rightarrow> worker_id \<Rightarrow> string \<Rightarrow> nat \<Rightarrow> string list \<Rightarrow> string \<Rightarrow> string \<Rightarrow> worker_role \<Rightarrow>
   worker_manager \<Rightarrow> worker_manager" where
  "register_worker_reconnect now w address port caps hostname ip role wm =
     (case map_of wm w of
        None \<Rightarrow> AList.update w (fresh_worker now w address port caps hostname ip role) wm
      | Some info \<Rightarrow> AList.map_entry w
          (\<lambda>i. i\<lparr>wi_address := address, wi_port := port, wi_in_grace := False,
                 wi_status := (if wi_status i \<noteq> BUSY then IDLE else wi_status i),
                 wi_capabilities := caps, wi_last_heartbeat := now,
                 wi_hostname := hostname, wi_ip_address := ip, wi_role := role\<rparr>) wm)"

definition unregister_worker :: "worker_id \<Rightarrow> worker_manager \<Rightarrow> worker_manager" where
  "unregister_worker w wm = AList.delete w wm"

text \<open>Each of the following finds the entry and writes through it; an unknown id is ignored.\<close>

definition update_worker_status :: "worker_id \<Rightarrow> worker_status \<Rightarrow> worker_manager \<Rightarrow> worker_manager"
where
  "update_worker_status w s wm = AList.map_entry w (\<lambda>i. i\<lparr>wi_status := s\<rparr>) wm"

definition set_worker_grace :: "worker_id \<Rightarrow> bool \<Rightarrow> worker_manager \<Rightarrow> worker_manager" where
  "set_worker_grace w b wm = AList.map_entry w (\<lambda>i. i\<lparr>wi_in_grace := b\<rparr>) wm"

definition record_heartbeat :: "64 word \<Rightarrow> worker_id \<Rightarrow> worker_manager \<Rightarrow> worker_manager" where
  "record_heartbeat now w wm = AList.map_entry w (\<lambda>i. i\<lparr>wi_last_heartbeat := now\<rparr>) wm"

definition set_heartbeat :: "worker_id \<Rightarrow> 64 word \<Rightarrow> worker_manager \<Rightarrow> worker_manager" where
  "set_heartbeat w ts wm = AList.map_entry w (\<lambda>i. i\<lparr>wi_last_heartbeat := ts\<rparr>) wm"

definition wm_assign_task :: "worker_id \<Rightarrow> task_id \<Rightarrow> worker_manager \<Rightarrow> worker_manager" where
  "wm_assign_task w t wm =
     AList.map_entry w (\<lambda>i. i\<lparr>wi_status := BUSY, wi_current_task_id := t\<rparr>) wm"

definition complete_task :: "worker_id \<Rightarrow> worker_manager \<Rightarrow> worker_manager" where
  "complete_task w wm =
     AList.map_entry w (\<lambda>i. i\<lparr>wi_status := IDLE, wi_current_task_id := 0\<rparr>) wm"

definition cancel_task_if_assigned :: "worker_id \<Rightarrow> task_id \<Rightarrow> worker_manager \<Rightarrow> worker_manager"
where
  "cancel_task_if_assigned w t wm =
     AList.map_entry w
       (\<lambda>i. if wi_current_task_id i = t \<and> wi_status i = BUSY
            then i\<lparr>wi_status := IDLE, wi_current_task_id := 0\<rparr> else i) wm"

fun add_capabilities :: "string list \<Rightarrow> string list \<Rightarrow> string list" where
  "add_capabilities [] caps = caps"
| "add_capabilities (p # ps) caps =
     add_capabilities ps (if p \<in> set caps then caps else caps @ [p])"

text \<open>\<open>std::find\<close> and \<open>erase\<close> take out the first occurrence.\<close>

fun drop_capabilities :: "string list \<Rightarrow> string list \<Rightarrow> string list" where
  "drop_capabilities [] caps = caps"
| "drop_capabilities (p # ps) caps = drop_capabilities ps (remove1 p caps)"

definition update_capabilities ::
  "worker_id \<Rightarrow> string list \<Rightarrow> string list \<Rightarrow> worker_manager \<Rightarrow> worker_manager" where
  "update_capabilities w added removed wm =
     AList.map_entry w
       (\<lambda>i. i\<lparr>wi_capabilities := drop_capabilities removed (add_capabilities added (wi_capabilities i))\<rparr>)
       wm"

definition set_hostname :: "worker_id \<Rightarrow> string \<Rightarrow> string \<Rightarrow> worker_manager \<Rightarrow> worker_manager" where
  "set_hostname w hostname ip wm =
     AList.map_entry w
       (\<lambda>i. i\<lparr>wi_hostname := hostname, wi_ip_address := (if ip \<noteq> [] then ip else wi_ip_address i)\<rparr>) wm"

definition get_hostname :: "worker_manager \<Rightarrow> worker_id \<Rightarrow> string" where
  "get_hostname wm w = (case map_of wm w of None \<Rightarrow> '''' | Some i \<Rightarrow> wi_hostname i)"

definition get_ip_address :: "worker_manager \<Rightarrow> worker_id \<Rightarrow> string" where
  "get_ip_address wm w = (case map_of wm w of None \<Rightarrow> '''' | Some i \<Rightarrow> wi_ip_address i)"

definition get_worker :: "worker_manager \<Rightarrow> worker_id \<Rightarrow> worker_info option" where
  "get_worker wm w = map_of wm w"

definition worker_status_snapshot :: "worker_manager \<Rightarrow> worker_id \<Rightarrow> worker_status option" where
  "worker_status_snapshot wm w = map_option wi_status (map_of wm w)"

definition get_idle_workers :: "worker_manager \<Rightarrow> worker_id list" where
  "get_idle_workers wm =
     sort (map fst (filter (\<lambda>(w, i). wi_status i = IDLE \<and> \<not> wi_in_grace i \<and> wi_role i \<noteq> STORAGE_ONLY) wm))"

definition get_workers_with_capability :: "worker_manager \<Rightarrow> string \<Rightarrow> worker_id list" where
  "get_workers_with_capability wm cap =
     map fst (filter (\<lambda>(w, i). cap \<in> set (wi_capabilities i)) wm)"

definition get_all_workers :: "worker_manager \<Rightarrow> worker_info list" where
  "get_all_workers wm = map snd wm"

definition has_all_capabilities :: "string list \<Rightarrow> worker_info \<Rightarrow> bool" where
  "has_all_capabilities caps i \<longleftrightarrow> list_all (\<lambda>r. r \<in> set (wi_capabilities i)) caps"

definition has_worker_with_all_capabilities :: "worker_manager \<Rightarrow> string list \<Rightarrow> bool" where
  "has_worker_with_all_capabilities wm caps \<longleftrightarrow>
     (if caps = [] then True else list_ex (\<lambda>(w, i). has_all_capabilities caps i) wm)"

definition count_workers_with_all_capabilities :: "worker_manager \<Rightarrow> string list \<Rightarrow> nat" where
  "count_workers_with_all_capabilities wm caps =
     length (filter (\<lambda>(w, i). \<not> (wi_role i = STORAGE_ONLY \<or> wi_in_grace i) \<and>
                              has_all_capabilities caps i) wm)"

definition get_busy_workers :: "worker_manager \<Rightarrow> worker_id list" where
  "get_busy_workers wm =
     sort (map fst (filter (\<lambda>(w, i). wi_status i = BUSY \<and> \<not> wi_in_grace i \<and> wi_role i \<noteq> STORAGE_ONLY) wm))"

definition get_worker_capabilities :: "worker_manager \<Rightarrow> worker_id \<Rightarrow> string list" where
  "get_worker_capabilities wm w = (case map_of wm w of None \<Rightarrow> [] | Some i \<Rightarrow> wi_capabilities i)"

definition get_worker_count :: "worker_manager \<Rightarrow> nat" where
  "get_worker_count wm = length wm"

definition get_idle_worker_count :: "worker_manager \<Rightarrow> nat" where
  "get_idle_worker_count wm =
     length (filter (\<lambda>(w, i). wi_status i = IDLE \<and> wi_role i \<noteq> STORAGE_ONLY) wm)"

section \<open>Heartbeat monitor\<close>

record heartbeat_monitor =
  timeout_secs :: "64 word"
  dead_workers :: "worker_id list"

text \<open>One round of the loop over the snapshot of the table.\<close>

definition check_worker ::
  "64 word \<Rightarrow> 64 word \<Rightarrow> worker_id list \<Rightarrow> worker_info \<Rightarrow> worker_manager \<times> worker_id list \<Rightarrow>
   worker_manager \<times> worker_id list" where
  "check_worker timeout now exempt i = (\<lambda>(wm, dead).
     if wi_status i = EXITED then (wm, dead)
     else if wi_status i = DEAD then (wm, dead @ [wi_worker_id i])
     else if wi_worker_id i \<in> set exempt then (wm, dead)
     else if now - wi_last_heartbeat i > timeout
       then (update_worker_status (wi_worker_id i) DEAD wm, dead @ [wi_worker_id i])
     else (wm, dead))"

definition check_all_workers ::
  "64 word \<Rightarrow> worker_id list \<Rightarrow> heartbeat_monitor \<Rightarrow> worker_manager \<Rightarrow> heartbeat_monitor \<times> worker_manager"
where
  "check_all_workers now exempt hm wm =
     (let (wm', dead) = fold (check_worker (timeout_secs hm) now exempt) (get_all_workers wm) (wm, [])
      in (hm\<lparr>dead_workers := dead\<rparr>, wm'))"

definition get_timeout :: "heartbeat_monitor \<Rightarrow> 64 word" where
  "get_timeout hm = timeout_secs hm"

definition set_timeout :: "64 word \<Rightarrow> heartbeat_monitor \<Rightarrow> heartbeat_monitor" where
  "set_timeout secs hm = hm\<lparr>timeout_secs := secs\<rparr>"

definition get_dead_workers :: "heartbeat_monitor \<Rightarrow> worker_id list" where
  "get_dead_workers hm = dead_workers hm"

section \<open>The table as a component\<close>

lemmas worker_entry_ops =
  update_worker_status_def set_worker_grace_def record_heartbeat_def set_heartbeat_def
  wm_assign_task_def complete_task_def cancel_task_if_assigned_def update_capabilities_def
  set_hostname_def

datatype wm_op =
    RegisterWorker "64 word" worker_id string nat "string list" string string worker_role
  | RegisterWorkerReconnect "64 word" worker_id string nat "string list" string string worker_role
  | UnregisterWorker worker_id
  | UpdateWorkerStatus worker_id worker_status
  | SetWorkerGrace worker_id bool
  | RecordHeartbeat "64 word" worker_id
  | SetHeartbeat worker_id "64 word"
  | WmAssignTask worker_id task_id
  | CompleteTask worker_id
  | CancelTaskIfAssigned worker_id task_id
  | UpdateCapabilities worker_id "string list" "string list"
  | SetHostname worker_id string string

fun wm_exec :: "wm_op \<Rightarrow> worker_manager \<Rightarrow> worker_manager option" where
  "wm_exec (RegisterWorker now w a p caps h ip r) wm = Some (register_worker now w a p caps h ip r wm)"
| "wm_exec (RegisterWorkerReconnect now w a p caps h ip r) wm =
     Some (register_worker_reconnect now w a p caps h ip r wm)"
| "wm_exec (UnregisterWorker w) wm = Some (unregister_worker w wm)"
| "wm_exec (UpdateWorkerStatus w s) wm = Some (update_worker_status w s wm)"
| "wm_exec (SetWorkerGrace w b) wm = Some (set_worker_grace w b wm)"
| "wm_exec (RecordHeartbeat now w) wm = Some (record_heartbeat now w wm)"
| "wm_exec (SetHeartbeat w ts) wm = Some (set_heartbeat w ts wm)"
| "wm_exec (WmAssignTask w t) wm = Some (wm_assign_task w t wm)"
| "wm_exec (CompleteTask w) wm = Some (complete_task w wm)"
| "wm_exec (CancelTaskIfAssigned w t) wm = Some (cancel_task_if_assigned w t wm)"
| "wm_exec (UpdateCapabilities w added removed) wm = Some (update_capabilities w added removed wm)"
| "wm_exec (SetHostname w h ip) wm = Some (set_hostname w h ip wm)"

definition wm_inv :: "worker_manager \<Rightarrow> bool" where
  "wm_inv wm \<longleftrightarrow> umap_ok wm \<and> (\<forall>w i. map_of wm w = Some i \<longrightarrow> wi_worker_id i = w)"

lemma wm_inv_entry:
  "wm_inv wm \<Longrightarrow> (\<And>i. wi_worker_id (f i) = wi_worker_id i) \<Longrightarrow> wm_inv (AList.map_entry w f wm)"
  by (auto simp: wm_inv_def map_of_alist_map_entry split: if_splits)

lemma wm_inv_fresh: "wm_inv wm \<Longrightarrow> wm_inv (AList.update w (fresh_worker now w a p caps h ip r) wm)"
  by (auto simp: wm_inv_def fresh_worker_def split: if_splits)

lemma wm_inv_delete: "wm_inv wm \<Longrightarrow> wm_inv (AList.delete w wm)"
  by (auto simp: wm_inv_def split: if_splits)

lemma wm_exec_inv: "wm_inv wm \<Longrightarrow> wm_exec op wm = Some wm' \<Longrightarrow> wm_inv wm'"
  by (cases op)
     (auto simp: register_worker_def register_worker_reconnect_def unregister_worker_def worker_entry_ops
        intro!: wm_inv_entry wm_inv_fresh wm_inv_delete split: option.splits)

interpretation wm_all: component_invariant wm_exec any_op "[]" wm_inv
  by unfold_locales (simp add: wm_inv_def, use wm_exec_inv in blast)

section \<open>Queries\<close>

lemma set_filter_keys:
  "umap_ok wm \<Longrightarrow> set (map fst (filter (\<lambda>(w, i). P i) wm)) = {w. \<exists>i. map_of wm w = Some i \<and> P i}"
  by (force simp: umap_mem_iff [symmetric])

lemma distinct_filter_keys: "umap_ok wm \<Longrightarrow> distinct (map fst (filter P wm))"
  by (simp add: umap_ok_def distinct_map_filter)

definition schedulable :: "worker_info \<Rightarrow> bool" where
  "schedulable i \<longleftrightarrow> \<not> wi_in_grace i \<and> wi_role i \<noteq> STORAGE_ONLY"

lemma set_idle_workers:
  "umap_ok wm \<Longrightarrow> set (get_idle_workers wm) = {w. \<exists>i. map_of wm w = Some i \<and> wi_status i = IDLE \<and> schedulable i}"
  using set_filter_keys [of wm "\<lambda>i. wi_status i = IDLE \<and> \<not> wi_in_grace i \<and> wi_role i \<noteq> STORAGE_ONLY"]
  by (simp add: get_idle_workers_def schedulable_def)

lemma set_busy_workers:
  "umap_ok wm \<Longrightarrow> set (get_busy_workers wm) = {w. \<exists>i. map_of wm w = Some i \<and> wi_status i = BUSY \<and> schedulable i}"
  using set_filter_keys [of wm "\<lambda>i. wi_status i = BUSY \<and> \<not> wi_in_grace i \<and> wi_role i \<noteq> STORAGE_ONLY"]
  by (simp add: get_busy_workers_def schedulable_def)

lemma idle_workers_sorted: "umap_ok wm \<Longrightarrow> sorted (get_idle_workers wm) \<and> distinct (get_idle_workers wm)"
  by (simp add: get_idle_workers_def distinct_filter_keys)

section \<open>The heartbeat loop\<close>

definition expired :: "64 word \<Rightarrow> 64 word \<Rightarrow> worker_id list \<Rightarrow> worker_info \<Rightarrow> bool" where
  "expired timeout now exempt i \<longleftrightarrow> worker_status_alive (wi_status i) \<and>
     wi_worker_id i \<notin> set exempt \<and> now - wi_last_heartbeat i > timeout"

lemma check_worker_eq:
  "check_worker T now exempt i (wm, dead) =
     (if expired T now exempt i then update_worker_status (wi_worker_id i) DEAD wm else wm,
      dead @ (if wi_status i = DEAD \<or> expired T now exempt i then [wi_worker_id i] else []))"
  by (cases "wi_status i") (auto simp: check_worker_def expired_def worker_status_alive_def)

lemma fold_check_worker:
  "fold (check_worker T now exempt) xs (wm, dead) =
     (fold (\<lambda>i wm. if expired T now exempt i then update_worker_status (wi_worker_id i) DEAD wm else wm) xs wm,
      dead @ map wi_worker_id (filter (\<lambda>i. wi_status i = DEAD \<or> expired T now exempt i) xs))"
  by (induction xs arbitrary: wm dead) (simp_all add: check_worker_eq)

lemma map_of_fold_dead:
  "map_of (fold (\<lambda>i wm. if P i then update_worker_status (wi_worker_id i) DEAD wm else wm) xs wm) w =
     map_option (\<lambda>i. if w \<in> wi_worker_id ` {i \<in> set xs. P i} then i\<lparr>wi_status := DEAD\<rparr> else i) (map_of wm w)"
proof (induction xs arbitrary: wm)
  case (Cons x xs)
  then show ?case
    by (cases "map_of wm w") (auto simp: update_worker_status_def map_of_alist_map_entry)
qed (simp add: option.map_ident)

lemma check_all_workers_table:
  assumes inv: "wm_inv wm" and ch: "check_all_workers now exempt hm wm = (hm', wm')"
  shows "map_of wm' w =
    map_option (\<lambda>i. if expired (timeout_secs hm) now exempt i then i\<lparr>wi_status := DEAD\<rparr> else i) (map_of wm w)"
proof -
  let ?P = "expired (timeout_secs hm) now exempt"
  have key: "w \<in> wi_worker_id ` {i \<in> set (map snd wm). ?P i} \<longleftrightarrow> ?P i" if "map_of wm w = Some i" for i
  proof -
    have one: "wi_worker_id j = w \<and> j \<in> snd ` set wm \<longleftrightarrow> j = i" for j
      using that inv umap_mem_iff [of wm] by (force simp: wm_inv_def)
    have "w \<in> wi_worker_id ` {i \<in> set (map snd wm). ?P i} \<longleftrightarrow>
        (\<exists>j. (wi_worker_id j = w \<and> j \<in> snd ` set wm) \<and> ?P j)" by (auto simp: image_iff)
    then show ?thesis by (simp add: one)
  qed
  have wm': "wm' = fold (\<lambda>i wm. if ?P i then update_worker_status (wi_worker_id i) DEAD wm else wm)
      (map snd wm) wm"
    using ch by (simp add: check_all_workers_def fold_check_worker get_all_workers_def)
  show ?thesis
    unfolding wm' map_of_fold_dead using key by (cases "map_of wm w") simp_all
qed

lemma check_all_workers_dead:
  assumes inv: "wm_inv wm" and ch: "check_all_workers now exempt hm wm = (hm', wm')"
  shows "set (get_dead_workers hm') = {w. worker_status_snapshot wm' w = Some DEAD}"
proof -
  let ?P = "\<lambda>i. wi_status i = DEAD \<or> expired (timeout_secs hm) now exempt i"
  have "get_dead_workers hm' = map wi_worker_id (filter ?P (map snd wm))"
    using ch by (auto simp: check_all_workers_def fold_check_worker get_all_workers_def get_dead_workers_def)
  then have "set (get_dead_workers hm') = wi_worker_id ` {i \<in> snd ` set wm. ?P i}" by simp
  also have "\<dots> = {w. \<exists>i. map_of wm w = Some i \<and> ?P i}"
    using inv umap_mem_iff [of wm] by (force simp: wm_inv_def)
  finally have "set (get_dead_workers hm') = {w. \<exists>i. map_of wm w = Some i \<and> ?P i}" .
  moreover have "worker_status_snapshot wm' w = Some DEAD \<longleftrightarrow> (\<exists>i. map_of wm w = Some i \<and> ?P i)" for w
    by (cases "map_of wm w") (auto simp: worker_status_snapshot_def check_all_workers_table [OF inv ch])
  ultimately show ?thesis by simp
qed

section \<open>Capabilities\<close>

lemma set_add_capabilities [simp]: "set (add_capabilities ps caps) = set ps \<union> set caps"
  by (induction ps arbitrary: caps) auto

lemma distinct_add_capabilities: "distinct caps \<Longrightarrow> distinct (add_capabilities ps caps)"
  by (induction ps arbitrary: caps) auto

lemma set_drop_capabilities: "distinct caps \<Longrightarrow> set (drop_capabilities ps caps) = set caps - set ps"
  by (induction ps arbitrary: caps) (auto simp: set_remove1_eq)

lemma distinct_drop_capabilities: "distinct caps \<Longrightarrow> distinct (drop_capabilities ps caps)"
  by (induction ps arbitrary: caps) auto

section \<open>Properties\<close>

definition demo_wm_ops :: "wm_op list" where
  "demo_wm_ops = [RegisterWorker 100 3 ''h3'' 9000 [''gpu''] ''h3'' ''10.0.0.3'' HYBRID,
     RegisterWorker 100 1 ''h1'' 9000 [] ''h1'' ''10.0.0.1'' HYBRID,
     RegisterWorker 100 2 ''h2'' 9000 [] ''h2'' ''10.0.0.2'' STORAGE_ONLY,
     RegisterWorker 100 4 ''h4'' 9000 [''gpu''] ''h4'' ''10.0.0.4'' HYBRID, WmAssignTask 4 7]"

definition demo_workers :: worker_manager where
  "demo_workers =
     [(3, fresh_worker 100 3 ''h3'' 9000 [''gpu''] ''h3'' ''10.0.0.3'' HYBRID),
      (1, fresh_worker 100 1 ''h1'' 9000 [] ''h1'' ''10.0.0.1'' HYBRID),
      (2, fresh_worker 100 2 ''h2'' 9000 [] ''h2'' ''10.0.0.2'' STORAGE_ONLY),
      (4, (fresh_worker 100 4 ''h4'' 9000 [''gpu''] ''h4'' ''10.0.0.4'' HYBRID)
            \<lparr>wi_status := BUSY, wi_current_task_id := 7\<rparr>)]"

lemma demo_wm_run: "run_ops wm_exec any_op demo_wm_ops [] = Some demo_workers"
  by (simp add: demo_wm_ops_def demo_workers_def register_worker_def wm_assign_task_def)

lemma demo_workers_reachable: "reachable_by wm_exec any_op [] demo_workers"
  by (rule reachable_run_ops [OF reachable_by.reach_init demo_wm_run])

lemma demo_workers_3:
  "get_worker demo_workers 3 = Some (fresh_worker 100 3 ''h3'' 9000 [''gpu''] ''h3'' ''10.0.0.3'' HYBRID)"
  by (simp add: demo_workers_def get_worker_def)

lemma busy_workers_sorted: "umap_ok wm \<Longrightarrow> sorted (get_busy_workers wm) \<and> distinct (get_busy_workers wm)"
  by (simp add: get_busy_workers_def distinct_filter_keys)

lemma strict_lists_eqI:
  assumes "sorted xs \<and> distinct xs" and "sorted ys \<and> distinct ys" and "set xs = set ys"
  shows "xs = (ys :: worker_id list)"
  using assms sorted_distinct_set_unique by blast

text \<open>
  C5: In every reachable worker table, \<open>get_idle_workers\<close> and \<open>get_busy_workers\<close> return, strictly
  increasing, exactly the registered workers with status idle respectively busy that are not in a
  disconnect grace period and not storage-only.  Assigning a task to a worker of the idle list moves
  exactly this worker to the busy list, and completing the task gives back both lists.
\<close>

theorem idle_workers_exact:
  assumes "reachable_by wm_exec any_op [] wm"
  shows "sorted_wrt (<) (get_idle_workers wm) \<and> sorted_wrt (<) (get_busy_workers wm) \<and>
    set (get_idle_workers wm) =
      {w. \<exists>i. get_worker wm w = Some i \<and> wi_status i = IDLE \<and> \<not> wi_in_grace i \<and> wi_role i \<noteq> STORAGE_ONLY} \<and>
    set (get_busy_workers wm) =
      {w. \<exists>i. get_worker wm w = Some i \<and> wi_status i = BUSY \<and> \<not> wi_in_grace i \<and> wi_role i \<noteq> STORAGE_ONLY} \<and>
    (\<forall>w t. w \<in> set (get_idle_workers wm) \<longrightarrow>
       set (get_idle_workers (wm_assign_task w t wm)) = set (get_idle_workers wm) - {w} \<and>
       set (get_busy_workers (wm_assign_task w t wm)) = insert w (set (get_busy_workers wm)) \<and>
       get_idle_workers (complete_task w (wm_assign_task w t wm)) = get_idle_workers wm \<and>
       get_busy_workers (complete_task w (wm_assign_task w t wm)) = get_busy_workers wm)"
proof -
  have ok: "umap_ok wm" using wm_all.reachable_inv [OF assms] by (simp add: wm_inv_def)
  have ok1: "umap_ok (wm_assign_task w t wm)" "umap_ok (complete_task w (wm_assign_task w t wm))" for w t
    using ok by (auto simp: worker_entry_ops)
  note sets = set_idle_workers set_busy_workers
  have moved: "set (get_idle_workers (wm_assign_task w t wm)) = set (get_idle_workers wm) - {w}"
      "set (get_busy_workers (wm_assign_task w t wm)) = insert w (set (get_busy_workers wm))"
      "set (get_idle_workers (complete_task w (wm_assign_task w t wm))) = set (get_idle_workers wm)"
      "set (get_busy_workers (complete_task w (wm_assign_task w t wm))) = set (get_busy_workers wm)"
    if "w \<in> set (get_idle_workers wm)" for w t
    using that unfolding sets [OF ok] sets [OF ok1(1)] sets [OF ok1(2)]
    by (auto simp: worker_entry_ops map_of_alist_map_entry schedulable_def split: if_splits)
  have same: "get_idle_workers (complete_task w (wm_assign_task w t wm)) = get_idle_workers wm"
      "get_busy_workers (complete_task w (wm_assign_task w t wm)) = get_busy_workers wm"
    if "w \<in> set (get_idle_workers wm)" for w t
    by (rule strict_lists_eqI [OF idle_workers_sorted [OF ok1(2)] idle_workers_sorted [OF ok] moved(3) [OF that]],
        rule strict_lists_eqI [OF busy_workers_sorted [OF ok1(2)] busy_workers_sorted [OF ok] moved(4) [OF that]])
  have "sorted_wrt (<) (get_idle_workers wm)" "sorted_wrt (<) (get_busy_workers wm)"
    using idle_workers_sorted [OF ok] busy_workers_sorted [OF ok] by (simp_all add: strict_sorted_iff)
  moreover have "set (get_idle_workers wm) =
      {w. \<exists>i. get_worker wm w = Some i \<and> wi_status i = IDLE \<and> \<not> wi_in_grace i \<and> wi_role i \<noteq> STORAGE_ONLY}"
    "set (get_busy_workers wm) =
      {w. \<exists>i. get_worker wm w = Some i \<and> wi_status i = BUSY \<and> \<not> wi_in_grace i \<and> wi_role i \<noteq> STORAGE_ONLY}"
    by (simp_all add: sets [OF ok] schedulable_def get_worker_def)
  ultimately show ?thesis using moved(1,2) same by (intro conjI allI impI) assumption+
qed

theorem idle_workers_exact_witness:
  "get_idle_workers demo_workers = [1, 3] \<and> get_busy_workers demo_workers = [4] \<and>
   set (get_busy_workers (wm_assign_task 3 9 demo_workers)) = {3, 4} \<and>
   get_idle_workers (complete_task 3 (wm_assign_task 3 9 demo_workers)) = [1, 3]"
proof -
  have "get_idle_workers demo_workers = [1, 3]" "get_busy_workers demo_workers = [4]"
    by (simp_all add: get_idle_workers_def get_busy_workers_def demo_workers_def fresh_worker_def)
  then show ?thesis using idle_workers_exact [OF demo_workers_reachable] by auto
qed

text \<open>
  A worker that reconnects during the grace period keeps the task it is running: a busy
  entry stays busy with the same current task and leaves the grace period, an entry in any other
  status becomes idle, and no other worker changes.
\<close>

theorem reconnect_keeps_task:
  "get_worker (register_worker_reconnect now w a p caps h ip r wm) u =
     (if u \<noteq> w then get_worker wm u
      else case get_worker wm w of
             None \<Rightarrow> Some (fresh_worker now w a p caps h ip r)
           | Some i \<Rightarrow> Some \<lparr>wi_worker_id = wi_worker_id i, wi_address = a, wi_port = p,
               wi_status = (if wi_status i = BUSY then BUSY else IDLE), wi_capabilities = caps,
               wi_last_heartbeat = now, wi_current_task_id = wi_current_task_id i,
               wi_hostname = h, wi_ip_address = ip, wi_role = r, wi_in_grace = False\<rparr>)"
  by (auto simp: get_worker_def register_worker_reconnect_def map_of_alist_map_entry split: option.splits)

text \<open>
  \<open>update_capabilities\<close> on a worker whose capability list has no repetitions leaves exactly
  the old and added capabilities minus the removed ones, again without repetitions.
\<close>

theorem update_capabilities_set:
  assumes "get_worker wm w = Some i" and "distinct (wi_capabilities i)"
  shows "set (get_worker_capabilities (update_capabilities w added removed wm) w) =
      (set (wi_capabilities i) \<union> set added) - set removed \<and>
    distinct (get_worker_capabilities (update_capabilities w added removed wm) w)"
  using assms distinct_add_capabilities [OF assms(2), of added]
  by (auto simp: get_worker_def get_worker_capabilities_def update_capabilities_def
    map_of_alist_map_entry set_drop_capabilities distinct_drop_capabilities)

theorem update_capabilities_set_witness:
  "set (get_worker_capabilities (update_capabilities 3 [''fpga''] [''gpu'']
     [(3, fresh_worker 0 3 ''h'' 1 [''gpu'', ''x''] '''' '''' HYBRID)]) 3) = {''x'', ''fpga''}"
  using update_capabilities_set [of "[(3, fresh_worker 0 3 ''h'' 1 [''gpu'', ''x''] '''' '''' HYBRID)]" 3
      "fresh_worker 0 3 ''h'' 1 [''gpu'', ''x''] '''' '''' HYBRID" "[''fpga'']" "[''gpu'']"]
  by (auto simp: get_worker_def fresh_worker_def)

text \<open>
  C6: A heartbeat check marks exactly the overdue workers dead.  When the clock reading is not
  before the last heartbeat of any worker, a registered worker changes in the check if and only if it
  is alive, not in the exempt list and more than the timeout has passed since its last heartbeat;
  then its status becomes dead and its other fields stay.  Every other worker, exempt, dead or
  exited, is unchanged, and none is added or removed.  The reported dead list is exactly the set of
  workers with status dead after the check.
\<close>

theorem heartbeat_check_exact:
  assumes "reachable_by wm_exec any_op [] wm" and "check_all_workers now exempt hm wm = (hm', wm')"
    and "\<And>w i. get_worker wm w = Some i \<Longrightarrow> wi_last_heartbeat i \<le> now"
  shows "(\<forall>w. get_worker wm' w = map_option (\<lambda>i.
        if worker_status_alive (wi_status i) \<and> w \<notin> set exempt \<and>
           unat (timeout_secs hm) < unat now - unat (wi_last_heartbeat i)
        then i\<lparr>wi_status := DEAD\<rparr> else i) (get_worker wm w)) \<and>
    set (get_dead_workers hm') = {w. worker_status_snapshot wm' w = Some DEAD}"
proof -
  have inv: "wm_inv wm" by (rule wm_all.reachable_inv [OF assms(1)])
  have "expired (timeout_secs hm) now exempt i \<longleftrightarrow> worker_status_alive (wi_status i) \<and> w \<notin> set exempt \<and>
      unat (timeout_secs hm) < unat now - unat (wi_last_heartbeat i)" if "get_worker wm w = Some i" for w i
  proof -
    have "wi_worker_id i = w" using inv that by (simp add: wm_inv_def get_worker_def)
    moreover have "now - wi_last_heartbeat i > timeout_secs hm \<longleftrightarrow>
        unat now - unat (wi_last_heartbeat i) > unat (timeout_secs hm)"
      using assms(3) [OF that] by (simp add: word_less_nat_alt unat_sub)
    ultimately show ?thesis by (simp add: expired_def)
  qed
  then have "get_worker wm' w = map_option (\<lambda>i.
        if worker_status_alive (wi_status i) \<and> w \<notin> set exempt \<and>
           unat (timeout_secs hm) < unat now - unat (wi_last_heartbeat i)
        then i\<lparr>wi_status := DEAD\<rparr> else i) (get_worker wm w)" for w
    using check_all_workers_table [OF inv assms(2), of w] by (cases "map_of wm w") (simp_all add: get_worker_def)
  then show ?thesis using check_all_workers_dead [OF inv assms(2)] by simp
qed

definition demo_monitor :: heartbeat_monitor where
  "demo_monitor = \<lparr>timeout_secs = 30, dead_workers = []\<rparr>"

lemma demo_heartbeats: "get_worker demo_workers w = Some i \<Longrightarrow> wi_last_heartbeat i = 100"
  by (auto simp: demo_workers_def get_worker_def fresh_worker_def split: if_splits)

theorem heartbeat_check_exact_witness:
  "\<exists>hm' wm'. check_all_workers 131 [1] demo_monitor demo_workers = (hm', wm') \<and>
     worker_status_snapshot wm' 3 = Some DEAD \<and> get_worker wm' 1 = get_worker demo_workers 1"
proof -
  obtain hm' wm' where ch: "check_all_workers 131 [1] demo_monitor demo_workers = (hm', wm')" by fastforce
  have "worker_status_snapshot wm' 3 = Some DEAD \<and> get_worker wm' 1 = get_worker demo_workers 1"
    using heartbeat_check_exact [OF demo_workers_reachable ch] demo_heartbeats demo_workers_3
    by (simp add: demo_monitor_def fresh_worker_def worker_status_alive_def get_worker_def
      worker_status_snapshot_def option.map_ident)
  then show ?thesis using ch by auto
qed

text \<open>
  The subtraction in the heartbeat check is unsigned, so a worker whose heartbeat is newer
  than the clock reading the check was started with is marked dead at once, for every timeout
  below the wrapped difference.
\<close>

theorem heartbeat_from_future_kills:
  assumes "reachable_by wm_exec any_op [] wm" and "check_all_workers now exempt hm wm = (hm', wm')"
    and "get_worker wm w = Some i" and "worker_status_alive (wi_status i)" and "w \<notin> set exempt"
    and "wi_last_heartbeat i = now + k" and "0 < k" and "timeout_secs hm < - k"
  shows "worker_status_snapshot wm' w = Some DEAD"
proof -
  have inv: "wm_inv wm" by (rule wm_all.reachable_inv [OF assms(1)])
  have "wi_worker_id i = w" using inv assms(3) by (simp add: wm_inv_def get_worker_def)
  then have "expired (timeout_secs hm) now exempt i" using assms(4-8) by (simp add: expired_def)
  then show ?thesis
    using check_all_workers_table [OF inv assms(2), of w] assms(3)
    by (simp add: get_worker_def worker_status_snapshot_def)
qed

theorem heartbeat_from_future_kills_witness:
  "\<exists>hm' wm'. check_all_workers 99 [] demo_monitor demo_workers = (hm', wm') \<and>
     worker_status_snapshot wm' 3 = Some DEAD"
proof -
  obtain hm' wm' where ch: "check_all_workers 99 [] demo_monitor demo_workers = (hm', wm')" by fastforce
  have "worker_status_snapshot wm' 3 = Some DEAD"
    by (rule heartbeat_from_future_kills [OF demo_workers_reachable ch demo_workers_3, of 1])
       (simp_all add: fresh_worker_def worker_status_alive_def demo_monitor_def)
  then show ?thesis using ch by blast
qed

end
