(* ===== verification/Task_Scheduler.thy ===== *)
theory Task_Scheduler
  imports Dependency_Graph Worker_Manager
begin

text \<open>
  The scheduler, src/task/cpp/task_scheduler.h and .cpp: it takes ready tasks from the dependency
  graph in order and gives each to an idle worker, by capabilities, then by data locality, then by
  the degradation rule.  The scheduler's state is the graph and the worker table it shares and the
  locality switch; \<open>score_buf_\<close> is rebuilt before every use and is a local value here.  Durations
  are exact rationals; readings of the steady clock are arguments.
\<close>

section \<open>Model\<close>

record schedule_result =
  sr_task_id :: task_id
  sr_worker_id :: worker_id
  sr_scheduled :: bool
  sr_degraded :: bool

definition not_scheduled :: schedule_result where
  "not_scheduled = \<lparr>sr_task_id = 0, sr_worker_id = 0, sr_scheduled = False, sr_degraded = False\<rparr>"

record task_scheduler =
  ts_graph :: dep_graph
  ts_manager :: worker_manager
  locality_enabled :: bool

definition set_locality_preference :: "bool \<Rightarrow> task_scheduler \<Rightarrow> task_scheduler" where
  "set_locality_preference b s = s\<lparr>locality_enabled := b\<rparr>"

definition match_count :: "string list \<Rightarrow> string list \<Rightarrow> nat" where
  "match_count have reqs = length (filter (\<lambda>r. r \<in> set have) reqs)"

definition capability_match_count :: "worker_manager \<Rightarrow> worker_id \<Rightarrow> string list \<Rightarrow> nat" where
  "capability_match_count wm w reqs =
     (case get_worker wm w of None \<Rightarrow> 0 | Some i \<Rightarrow> match_count (wi_capabilities i) reqs)"

text \<open>An entry of the score buffer is (worker id, score); the buffer is indexed by worker id.\<close>

type_synonym score_entry = "worker_id \<times> int"

definition compute_scores :: "worker_manager \<Rightarrow> (worker_id \<times> int) list \<Rightarrow> score_entry list" where
  "compute_scores wm hint =
     (let ws = get_all_workers wm;
          max_id = fold (\<lambda>w m. if wi_worker_id w > m then wi_worker_id w else m) ws 0;
          buf0 = replicate (max_id + 1) (0, 0);
          buf1 = fold (\<lambda>w b. b[wi_worker_id w := (wi_worker_id w, 0)]) ws buf0
      in fold (\<lambda>(w, s) b. if w < length b then b[w := (fst (b ! w), s)] else b) hint buf1)"

text \<open>\<open>std::sort\<close> with \<open>score_desc_compare\<close>: score descending, worker id ascending.\<close>

definition sort_scores :: "score_entry list \<Rightarrow> score_entry list" where
  "sort_scores = sort_key (\<lambda>(w, s). (- s, w))"

text \<open>Phase A: a full match is returned at once; otherwise the best partial match is recorded.\<close>

fun scan_capabilities ::
  "worker_manager \<Rightarrow> string list \<Rightarrow> worker_id list \<Rightarrow> worker_id \<Rightarrow> nat \<Rightarrow> worker_id + worker_id \<times> nat"
where
  "scan_capabilities wm caps [] best_w best_c = Inr (best_w, best_c)"
| "scan_capabilities wm caps (w # ws) best_w best_c =
     (let c = capability_match_count wm w caps
      in if c = length caps then Inl w
         else if c > best_c then scan_capabilities wm caps ws w c
         else scan_capabilities wm caps ws best_w best_c)"

definition select_best_worker ::
  "task_scheduler \<Rightarrow> task_id \<Rightarrow> bool \<Rightarrow> worker_id list \<Rightarrow> worker_id" where
  "select_best_worker s t allow_degrade idle =
     (if idle = [] then 0
      else
        let reqs = get_task_requirements (ts_graph s) t;
            caps = task_requirements.capabilities reqs;
            use_locality = locality_enabled s;
            buf = (if use_locality then compute_scores (ts_manager s) (locality_hint reqs) else [])
        in if caps = [] then
             (if use_locality \<and> buf \<noteq> [] then
                case find (\<lambda>(w, sc). w \<in> set idle) (sort_scores buf) of
                  Some (w, sc) \<Rightarrow> w
                | None \<Rightarrow> hd idle
              else hd idle)
           else
             case scan_capabilities (ts_manager s) caps idle 0 0 of
               Inl w \<Rightarrow> w
             | Inr (best_w, best_c) \<Rightarrow>
                 (case (if use_locality \<and> buf \<noteq> [] \<and> best_c > 0
                        then find (\<lambda>(w, sc). w \<in> set idle \<and>
                               capability_match_count (ts_manager s) w caps \<ge> best_c) (sort_scores buf)
                        else None) of
                    Some (w, sc) \<Rightarrow> w
                  | None \<Rightarrow>
                      if allow_degrade then (if best_w \<noteq> 0 then best_w else hd idle) else 0))"

definition degrade_allowed :: "rat \<Rightarrow> task_requirements \<Rightarrow> rat option \<Rightarrow> bool" where
  "degrade_allowed now reqs ready_time \<longleftrightarrow>
     (if timeout_seconds reqs \<ge> 0
      then if timeout_seconds reqs = 0 then True
           else case ready_time of None \<Rightarrow> False | Some r \<Rightarrow> now - r \<ge> timeout_seconds reqs
      else False)"

definition is_degraded :: "worker_manager \<Rightarrow> bool \<Rightarrow> string list \<Rightarrow> worker_id \<Rightarrow> bool" where
  "is_degraded wm allow_degrade caps w \<longleftrightarrow>
     (if allow_degrade \<and> caps \<noteq> []
      then case get_worker wm w of
             None \<Rightarrow> False
           | Some i \<Rightarrow> match_count (wi_capabilities i) caps < length caps
      else False)"

text \<open>The loop of \<open>schedule_next\<close> over the ready tasks.\<close>

fun schedule_loop ::
  "rat \<Rightarrow> worker_id list \<Rightarrow> task_scheduler \<Rightarrow> task_id list \<Rightarrow> schedule_result \<times> task_scheduler"
where
  "schedule_loop now idle s [] = (not_scheduled, s)"
| "schedule_loop now idle s (t # ts) =
     (let reqs = get_task_requirements (ts_graph s) t;
          allow_degrade = degrade_allowed now reqs (get_task_ready_timestamp (ts_graph s) t);
          w = select_best_worker s t allow_degrade idle
      in if w = 0 then schedule_loop now idle s ts
         else
           let degraded = is_degraded (ts_manager s) allow_degrade (task_requirements.capabilities reqs) w
           in (\<lparr>sr_task_id = t, sr_worker_id = w, sr_scheduled = True, sr_degraded = degraded\<rparr>,
               s\<lparr>ts_manager := wm_assign_task w t (ts_manager s),
                 ts_graph := graph_remove_task t (ts_graph s)\<rparr>))"

definition schedule_next :: "rat \<Rightarrow> task_scheduler \<Rightarrow> schedule_result \<times> task_scheduler" where
  "schedule_next now s =
     (let ready = get_ready_tasks (ts_graph s)
      in if ready = [] then (not_scheduled, s)
         else
           let idle = get_idle_workers (ts_manager s)
           in if idle = [] then (not_scheduled, s) else schedule_loop now idle s ready)"

text \<open>
  The endless loop of \<open>schedule_all_available\<close>: \<open>None\<close> would be a run that never leaves it.
  \<open>clk n\<close> is the clock reading of round \<open>n\<close>.
\<close>

partial_function (option) schedule_rounds ::
  "(nat \<Rightarrow> rat) \<Rightarrow> nat \<Rightarrow> task_scheduler \<Rightarrow> schedule_result list \<Rightarrow>
   (schedule_result list \<times> task_scheduler) option" where
  "schedule_rounds clk n s results =
     (let (r, s') = schedule_next (clk n) s
      in if sr_scheduled r then schedule_rounds clk (Suc n) s' (results @ [r])
         else Some (results, s'))"

declare schedule_rounds.simps [code]

definition schedule_all_available ::
  "(nat \<Rightarrow> rat) \<Rightarrow> task_scheduler \<Rightarrow> (schedule_result list \<times> task_scheduler) option" where
  "schedule_all_available clk s = schedule_rounds clk 0 s []"

section \<open>Choosing a worker\<close>

lemma match_count_le: "match_count have reqs \<le> length reqs"
  by (simp add: match_count_def)

lemma capability_match_count_le: "capability_match_count wm w reqs \<le> length reqs"
  by (simp add: capability_match_count_def match_count_le split: option.splits)

lemma match_count_full: "match_count have reqs = length reqs \<longleftrightarrow> set reqs \<subseteq> set have"
proof (induction reqs)
  case (Cons r reqs)
  have "length (filter (\<lambda>r. r \<in> set have) reqs) \<noteq> Suc (length reqs)"
    using length_filter_le [of "\<lambda>r. r \<in> set have" reqs] by linarith
  then show ?case using Cons by (auto simp: match_count_def)
qed (simp add: match_count_def)

lemma capability_match_count_Nil [simp]: "capability_match_count wm w [] = 0"
  using capability_match_count_le [of wm w "[]"] by simp

lemma find_SomeD: "find P xs = Some x \<Longrightarrow> x \<in> set xs \<and> P x"
  by (induction xs) (auto split: if_splits)

lemma find_sorted_least:
  "\<lbrakk>sorted (map f xs); find P xs = Some x; y \<in> set xs; P y\<rbrakk> \<Longrightarrow> f x \<le> f y"
  by (induction xs) (auto split: if_splits)

lemma scan_Inl:
  "scan_capabilities wm caps ws bw bc = Inl w \<Longrightarrow>
     w \<in> set ws \<and> capability_match_count wm w caps = length caps"
  by (induction ws arbitrary: bw bc) (auto simp: Let_def split: if_splits)

lemma scan_Inr:
  "scan_capabilities wm caps ws bw bc = Inr (bw', bc') \<Longrightarrow>
     (\<forall>w \<in> set ws. capability_match_count wm w caps < length caps \<and> capability_match_count wm w caps \<le> bc') \<and>
     bc \<le> bc' \<and>
     (bw' = bw \<and> bc' = bc \<or> bw' \<in> set ws \<and> capability_match_count wm bw' caps = bc' \<and> bc < bc')"
proof (induction ws arbitrary: bw bc)
  case (Cons w ws)
  let ?c = "capability_match_count wm w caps"
  have ne: "?c \<noteq> length caps" using Cons.prems by (auto simp: Let_def)
  then have lt: "?c < length caps" using capability_match_count_le [of wm w caps] by simp
  show ?case
  proof (cases "?c > bc")
    case True
    then have "scan_capabilities wm caps ws w ?c = Inr (bw', bc')" using Cons.prems ne by (simp add: Let_def)
    from Cons.IH [OF this] show ?thesis using lt True by auto
  next
    case False
    then have "scan_capabilities wm caps ws bw bc = Inr (bw', bc')" using Cons.prems ne by (simp add: Let_def)
    from Cons.IH [OF this] show ?thesis using lt False by auto
  qed
qed simp

abbreviation caps_of :: "task_scheduler \<Rightarrow> task_id \<Rightarrow> string list" where
  "caps_of s t \<equiv> task_requirements.capabilities (get_task_requirements (ts_graph s) t)"

abbreviation matches :: "task_scheduler \<Rightarrow> task_id \<Rightarrow> worker_id \<Rightarrow> nat" where
  "matches s t w \<equiv> capability_match_count (ts_manager s) w (caps_of s t)"

abbreviation scores :: "task_scheduler \<Rightarrow> task_id \<Rightarrow> score_entry list" where
  "scores s t \<equiv> compute_scores (ts_manager s) (locality_hint (get_task_requirements (ts_graph s) t))"

text \<open>The ways in which \<open>select_best_worker\<close> reaches its answer.\<close>

lemma select_cases:
  assumes "idle \<noteq> []"
  obtains
    (free_local) sc where "caps_of s t = []" "locality_enabled s"
      "find (\<lambda>(w, sc). w \<in> set idle) (sort_scores (scores s t)) = Some (select_best_worker s t ad idle, sc)"
  | (free) "caps_of s t = []" "select_best_worker s t ad idle = hd idle"
      "\<not> locality_enabled s \<or> find (\<lambda>(w, sc). w \<in> set idle) (sort_scores (scores s t)) = None
       \<or> scores s t = []"
  | (full) "caps_of s t \<noteq> []" "select_best_worker s t ad idle \<in> set idle"
      "matches s t (select_best_worker s t ad idle) = length (caps_of s t)"
  | (partial) bw bc sc where "caps_of s t \<noteq> []" "locality_enabled s" "bc > 0"
      "scan_capabilities (ts_manager s) (caps_of s t) idle 0 0 = Inr (bw, bc)"
      "find (\<lambda>(w, sc). w \<in> set idle \<and> matches s t w \<ge> bc) (sort_scores (scores s t))
         = Some (select_best_worker s t ad idle, sc)"
  | (degraded) bw bc where "caps_of s t \<noteq> []" "ad"
      "scan_capabilities (ts_manager s) (caps_of s t) idle 0 0 = Inr (bw, bc)"
      "select_best_worker s t ad idle = (if bw \<noteq> 0 then bw else hd idle)"
  | (waiting) bw bc where "caps_of s t \<noteq> []" "\<not> ad" "select_best_worker s t ad idle = 0"
      "scan_capabilities (ts_manager s) (caps_of s t) idle 0 0 = Inr (bw, bc)"
      "\<not> locality_enabled s \<or> bc = 0 \<or> scores s t = [] \<or>
       find (\<lambda>(w, sc). w \<in> set idle \<and> matches s t w \<ge> bc) (sort_scores (scores s t)) = None"
proof (cases "caps_of s t = []")
  case True
  let ?f = "find (\<lambda>(w, sc). w \<in> set idle) (sort_scores (scores s t))"
  have sel: "select_best_worker s t ad idle =
      (if locality_enabled s \<and> scores s t \<noteq> [] then case ?f of Some (w, sc) \<Rightarrow> w | None \<Rightarrow> hd idle else hd idle)"
    using True assms by (simp add: select_best_worker_def Let_def)
  show ?thesis
  proof (cases "locality_enabled s \<and> scores s t \<noteq> [] \<and> ?f \<noteq> None")
    case f: True
    then obtain w sc where "?f = Some (w, sc)" by auto
    then show ?thesis using f True sel by (intro free_local [of sc]) simp_all
  next
    case f: False
    then have "select_best_worker s t ad idle = hd idle" unfolding sel by (auto simp del: not_None_eq)
    moreover have "\<not> locality_enabled s \<or> ?f = None \<or> scores s t = []" using f by blast
    ultimately show ?thesis using True by (intro free)
  qed
next
  case False
  show ?thesis
  proof (cases "scan_capabilities (ts_manager s) (caps_of s t) idle 0 0")
    case (Inl w)
    then show ?thesis
      using scan_Inl [OF Inl] False assms by (intro full) (auto simp: select_best_worker_def Let_def)
  next
    case (Inr p)
    obtain bw bc where p: "p = (bw, bc)" by (cases p)
    let ?f = "find (\<lambda>(w, sc). w \<in> set idle \<and> matches s t w \<ge> bc) (sort_scores (scores s t))"
    let ?use = "locality_enabled s \<and> scores s t \<noteq> [] \<and> bc > 0"
    have sel: "select_best_worker s t ad idle =
        (case (if ?use then ?f else None) of Some (w, sc) \<Rightarrow> w
         | None \<Rightarrow> if ad then (if bw \<noteq> 0 then bw else hd idle) else 0)"
      using False assms Inr p by (simp add: select_best_worker_def Let_def)
    show ?thesis
    proof (cases "if ?use then ?f else None")
      case None
      have sel': "select_best_worker s t ad idle = (if ad then (if bw \<noteq> 0 then bw else hd idle) else 0)"
        unfolding sel None by simp
      have un: "\<not> locality_enabled s \<or> bc = 0 \<or> scores s t = [] \<or> ?f = None"
        using None by (auto split: if_splits)
      show ?thesis
        using False Inr p sel' un by (cases ad) (simp_all add: degraded waiting)
    next
      case (Some q)
      have f: "?f = Some q" and use: "locality_enabled s" "bc > 0" using Some by (simp_all split: if_splits)
      have "select_best_worker s t ad idle = fst q" unfolding sel Some by (simp split: prod.splits)
      then show ?thesis
        using False Inr p f use by (intro partial [of bc bw "snd q"]) simp_all
    qed
  qed
qed

lemma select_in_idle:
  assumes "idle \<noteq> []" and "select_best_worker s t ad idle \<noteq> 0"
  shows "select_best_worker s t ad idle \<in> set idle"
  using assms(1)
proof (cases rule: select_cases [where s = s and t = t and ad = ad])
  case (degraded bw bc)
  then show ?thesis using scan_Inr [OF degraded(3)] assms(1) by (auto split: if_splits)
qed (use assms in \<open>auto dest!: find_SomeD\<close>)

lemma select_best_match:
  assumes ne: "idle \<noteq> []" and sel: "select_best_worker s t ad idle \<noteq> 0" and u: "u \<in> set idle"
    and "0 \<notin> set idle"
  shows "matches s t u \<le> matches s t (select_best_worker s t ad idle)"
  using ne
proof (cases rule: select_cases [where s = s and t = t and ad = ad])
  case full
  then show ?thesis using capability_match_count_le by simp
next
  case (partial bw bc sc)
  then show ?thesis using scan_Inr [OF partial(4)] u find_SomeD [OF partial(5)] by fastforce
next
  case (degraded bw bc)
  show ?thesis
  proof (cases "bw = 0")
    case True
    then have "bc = 0" using scan_Inr [OF degraded(3)] assms(4) by auto
    then show ?thesis using scan_Inr [OF degraded(3)] u by fastforce
  next
    case False
    then show ?thesis using scan_Inr [OF degraded(3)] u degraded(4) by auto
  qed
qed (use sel in auto)

lemma select_zero:
  assumes "idle \<noteq> []" and "select_best_worker s t ad idle = 0" and "0 \<notin> set idle"
  shows "caps_of s t \<noteq> [] \<and> \<not> ad \<and> (\<forall>w \<in> set idle. matches s t w < length (caps_of s t))"
  using assms(1)
proof (cases rule: select_cases [where s = s and t = t and ad = ad])
  case (degraded bw bc)
  then have "hd idle = 0" using assms(2) by (simp split: if_splits)
  then show ?thesis using assms(3) hd_in_set [OF assms(1)] by simp
next
  case (waiting bw bc)
  then show ?thesis using scan_Inr [OF waiting(4)] by auto
qed (use assms hd_in_set [OF assms(1)] in \<open>auto dest!: find_SomeD\<close>)

lemma select_full_or_degraded:
  assumes "idle \<noteq> []" and "select_best_worker s t ad idle \<noteq> 0" and "\<not> locality_enabled s" and "\<not> ad"
  shows "matches s t (select_best_worker s t ad idle) = length (caps_of s t)"
  using assms(1)
proof (cases rule: select_cases [where s = s and t = t and ad = ad])
  case free
  then show ?thesis by simp
qed (use assms in auto)

section \<open>Scores\<close>

definition hint_score :: "(worker_id \<times> int) list \<Rightarrow> worker_id \<Rightarrow> int" where
  "hint_score hint w = (case map_of (rev hint) w of None \<Rightarrow> 0 | Some sc \<Rightarrow> sc)"

lemma fold_hint_length:
  "length (fold (\<lambda>(w, s) b. if w < length b then b[w := (fst (b ! w), s)] else b) hint b) = length b"
  by (induction hint arbitrary: b) (auto split: prod.splits)

lemma fold_hint_nth:
  "u < length b \<Longrightarrow>
     fold (\<lambda>(w, s) b. if w < length b then b[w := (fst (b ! w), s)] else b) hint b ! u =
       (fst (b ! u), case map_of (rev hint) u of None \<Rightarrow> snd (b ! u) | Some sc \<Rightarrow> sc)"
proof (induction hint arbitrary: b rule: rev_induct)
  case (snoc p hint)
  let ?f = "\<lambda>(w, s) b. if w < length b then b[w := (fst (b ! w), s)] else b"
  obtain w sc where p: "p = (w, sc)" by (cases p)
  have "length (fold ?f hint b) = length b" by (rule fold_hint_length)
  then show ?case using snoc p by (auto simp: nth_list_update)
qed simp

lemma fold_max_id:
  "fold (\<lambda>w m. if wi_worker_id w > m then wi_worker_id w else m) ws m \<ge> m \<and>
   (\<forall>i \<in> set ws. wi_worker_id i \<le> fold (\<lambda>w m. if wi_worker_id w > m then wi_worker_id w else m) ws m)"
proof (induction ws arbitrary: m)
  case (Cons x ws)
  show ?case using Cons.IH [of "if wi_worker_id x > m then wi_worker_id x else m"]
    by (auto split: if_splits)
qed simp

lemma fold_fill_length [simp]:
  "length (fold (\<lambda>w b. b[wi_worker_id w := (wi_worker_id w, 0 :: int)]) ws b) = length b"
  by (induction ws arbitrary: b) auto

lemma fold_fill_nth:
  "u < length b \<Longrightarrow>
     fold (\<lambda>w b. b[wi_worker_id w := (wi_worker_id w, 0 :: int)]) ws b ! u =
       (if u \<in> wi_worker_id ` set ws then (u, 0) else b ! u)"
  by (induction ws arbitrary: b) (auto simp: nth_list_update)

lemma fold_fill_replicate:
  "k < n \<Longrightarrow> fold (\<lambda>w b. b[wi_worker_id w := (wi_worker_id w, 0 :: int)]) ws (replicate n (0, 0)) ! k =
     (if k \<in> wi_worker_id ` set ws then k else 0, 0)"
  by (subst fold_fill_nth) auto

text \<open>Slot \<open>k\<close> of the buffer holds the hinted score of \<open>k\<close>, or 0, under the id \<open>k\<close> if it is registered.\<close>

lemma compute_scores_nth:
  assumes "k < length (compute_scores wm hint)"
  shows "compute_scores wm hint ! k =
    (if k \<in> wi_worker_id ` set (get_all_workers wm) then k else 0, hint_score hint k)"
proof -
  let ?ws = "get_all_workers wm"
  let ?m = "fold (\<lambda>w m. if wi_worker_id w > m then wi_worker_id w else m) ?ws 0"
  let ?b = "fold (\<lambda>w b. b[wi_worker_id w := (wi_worker_id w, 0 :: int)]) ?ws (replicate (?m + 1) (0, 0))"
  have lt: "k < length ?b" using assms unfolding compute_scores_def Let_def fold_hint_length .
  then have bk: "?b ! k = (if k \<in> wi_worker_id ` set ?ws then k else 0, 0)"
    by (intro fold_fill_replicate) simp
  show ?thesis
    unfolding compute_scores_def Let_def fold_hint_nth [OF lt] bk by (simp add: hint_score_def split: option.split)
qed

lemma compute_scores_registered:
  assumes inv: "wm_inv wm" and w: "map_of wm w = Some i"
  shows "(w, hint_score hint w) \<in> set (compute_scores wm hint)"
proof -
  let ?ws = "get_all_workers wm"
  have i: "wi_worker_id i = w" "i \<in> set ?ws"
    using inv w umap_mem_iff [of wm w i] by (force simp: wm_inv_def get_all_workers_def)+
  then have "w \<le> fold (\<lambda>w m. if wi_worker_id w > m then wi_worker_id w else m) ?ws 0"
    using fold_max_id [of 0 ?ws] by auto
  then have "w < length (compute_scores wm hint)"
    unfolding compute_scores_def Let_def fold_hint_length by simp
  moreover have "w \<in> wi_worker_id ` set ?ws" using i by blast
  ultimately show ?thesis using compute_scores_nth [of w wm hint] nth_mem by metis
qed

lemma compute_scores_entry:
  assumes "(w, sc) \<in> set (compute_scores wm hint)" and "w \<noteq> 0"
  shows "sc = hint_score hint w"
proof -
  obtain k where "k < length (compute_scores wm hint)" "compute_scores wm hint ! k = (w, sc)"
    using assms(1) by (auto simp: in_set_conv_nth)
  then show ?thesis using compute_scores_nth [of k wm hint] assms(2) by (auto split: if_splits)
qed

lemma set_sort_scores [simp]: "set (sort_scores b) = set b"
  by (simp add: sort_scores_def)

lemma sorted_sort_scores: "sorted (map (\<lambda>(w, s). (- s, w)) (sort_scores b))"
  by (simp add: sort_scores_def)

section \<open>Interfaces\<close>

text \<open>What the scheduler relies on of the graph: scheduling a task takes it, and only it, off the ready list.\<close>

locale ready_source =
  fixes ready :: "'g \<Rightarrow> task_id list"
    and remove :: "task_id \<Rightarrow> 'g \<Rightarrow> 'g"
    and ginv :: "'g \<Rightarrow> bool"
  assumes ready_distinct: "ginv g \<Longrightarrow> distinct (ready g)"
    and ready_remove: "ginv g \<Longrightarrow> ready (remove t g) = removeAll t (ready g)"
    and ginv_remove: "ginv g \<Longrightarrow> ginv (remove t g)"

text \<open>What it relies on of the worker table: assigning a task to an idle worker ends its idleness.\<close>

locale worker_pool =
  fixes idle :: "'p \<Rightarrow> worker_id list"
    and assign :: "worker_id \<Rightarrow> task_id \<Rightarrow> 'p \<Rightarrow> 'p"
    and pinv :: "'p \<Rightarrow> bool"
  assumes idle_distinct: "pinv p \<Longrightarrow> distinct (idle p)"
    and idle_assign: "pinv p \<Longrightarrow> idle (assign w t p) = removeAll w (idle p)"
    and pinv_assign: "pinv p \<Longrightarrow> pinv (assign w t p)"

text \<open>A sequence of dispatches: each takes a ready task and an idle worker.\<close>

fun dispatch_run ::
  "('g \<Rightarrow> task_id list) \<Rightarrow> (task_id \<Rightarrow> 'g \<Rightarrow> 'g) \<Rightarrow> ('p \<Rightarrow> worker_id list) \<Rightarrow>
   (worker_id \<Rightarrow> task_id \<Rightarrow> 'p \<Rightarrow> 'p) \<Rightarrow> 'g \<times> 'p \<Rightarrow> (task_id \<times> worker_id) list \<Rightarrow> 'g \<times> 'p \<Rightarrow> bool"
where
  "dispatch_run ready remove idle assign (g, p) [] (g', p') \<longleftrightarrow> g' = g \<and> p' = p"
| "dispatch_run ready remove idle assign (g, p) ((t, w) # ds) q \<longleftrightarrow>
     t \<in> set (ready g) \<and> w \<in> set (idle p) \<and>
     dispatch_run ready remove idle assign (remove t g, assign w t p) ds q"

locale dispatcher = ready_source ready remove ginv + worker_pool idle assign pinv
  for ready :: "'g \<Rightarrow> task_id list" and remove :: "task_id \<Rightarrow> 'g \<Rightarrow> 'g" and ginv :: "'g \<Rightarrow> bool"
    and idle :: "'p \<Rightarrow> worker_id list" and assign :: "worker_id \<Rightarrow> task_id \<Rightarrow> 'p \<Rightarrow> 'p"
    and pinv :: "'p \<Rightarrow> bool"
begin

lemma run_exclusive:
  "\<lbrakk>ginv g; pinv p; dispatch_run ready remove idle assign (g, p) ds (g', p')\<rbrakk> \<Longrightarrow>
     distinct (map fst ds) \<and> distinct (map snd ds) \<and>
     set (map fst ds) \<subseteq> set (ready g) \<and> set (map snd ds) \<subseteq> set (idle p) \<and>
     ready g' = filter (\<lambda>t. t \<notin> set (map fst ds)) (ready g) \<and>
     idle p' = filter (\<lambda>w. w \<notin> set (map snd ds)) (idle p)"
proof (induction ds arbitrary: g p)
  case (Cons d ds)
  obtain t w where d: "d = (t, w)" by (cases d)
  have t: "t \<in> set (ready g)" and w: "w \<in> set (idle p)"
    and run: "dispatch_run ready remove idle assign (remove t g, assign w t p) ds (g', p')"
    using Cons.prems(3) d by auto
  note IH = Cons.IH [OF ginv_remove [OF Cons.prems(1)] pinv_assign [OF Cons.prems(2)] run]
  have "filter (\<lambda>u. u \<notin> set (map fst ds)) (removeAll t (ready g)) =
      filter (\<lambda>u. u \<notin> set (map fst (d # ds))) (ready g)"
    "filter (\<lambda>u. u \<notin> set (map snd ds)) (removeAll w (idle p)) =
      filter (\<lambda>u. u \<notin> set (map snd (d # ds))) (idle p)"
    by (auto simp: d removeAll_filter_not_eq intro: filter_cong)
  then show ?case
    using IH t w by (auto simp: d ready_remove [OF Cons.prems(1)] idle_assign [OF Cons.prems(2)])
qed simp

lemma run_invs:
  "\<lbrakk>ginv g; pinv p; dispatch_run ready remove idle assign (g, p) ds (g', p')\<rbrakk> \<Longrightarrow> ginv g' \<and> pinv p'"
proof (induction ds arbitrary: g p)
  case (Cons d ds)
  show ?case
    using Cons.IH [OF ginv_remove [OF Cons.prems(1), of "fst d"] pinv_assign [OF Cons.prems(2), of "snd d" "fst d"]]
      Cons.prems(3) by (cases d) simp
qed simp

lemma run_length:
  assumes "ginv g" and "pinv p" and "dispatch_run ready remove idle assign (g, p) ds (g', p')"
  shows "length ds \<le> min (length (ready g)) (length (idle p))"
proof -
  note ex = run_exclusive [OF assms]
  have "card (set (map fst ds)) \<le> card (set (ready g))" "card (set (map snd ds)) \<le> card (set (idle p))"
    using ex by (auto intro!: card_mono)
  then show ?thesis
    using ex ready_distinct [OF assms(1)] idle_distinct [OF assms(2)] distinct_card by (metis length_map min.bounded_iff)
qed

end

lemma idle_after_assign:
  assumes inv: "wm_inv wm"
  shows "get_idle_workers (wm_assign_task w t wm) = removeAll w (get_idle_workers wm)"
proof -
  let ?P = "\<lambda>i. wi_status i = IDLE \<and> \<not> wi_in_grace i \<and> wi_role i \<noteq> STORAGE_ONLY"
  have "umap_ok wm" using inv by (simp add: wm_inv_def)
  then have "map fst (filter (\<lambda>(u, i). ?P i) (AList.map_entry w (\<lambda>i. i\<lparr>wi_status := BUSY, wi_current_task_id := t\<rparr>) wm))
      = removeAll w (map fst (filter (\<lambda>(u, i). ?P i) wm))"
  proof (induction wm)
    case (Cons p wm)
    have "w \<notin> fst ` set wm \<Longrightarrow> removeAll w (map fst (filter (\<lambda>(u, i). ?P i) wm)) = map fst (filter (\<lambda>(u, i). ?P i) wm)"
      by (rule removeAll_id) auto
    then show ?case using Cons by (auto simp: umap_ok_def split: prod.splits)
  qed simp
  then show ?thesis by (simp add: get_idle_workers_def wm_assign_task_def sort_removeAll)
qed

interpretation gsrc: ready_source get_ready_tasks graph_remove_task graph_inv
proof unfold_locales
  fix g :: dep_graph and t
  assume inv: "graph_inv g"
  show "distinct (get_ready_tasks g)" using ready_ids_distinct [OF inv] by (simp add: get_ready_tasks_def)
  show "get_ready_tasks (graph_remove_task t g) = removeAll t (get_ready_tasks g)"
    using ready_ids_remove [OF inv] by (simp add: get_ready_tasks_def graph_remove_task_def)
  show "graph_inv (graph_remove_task t g)" by (rule remove_task_inv [OF inv])
qed

interpretation wpool: worker_pool get_idle_workers wm_assign_task wm_inv
proof unfold_locales
  fix wm :: worker_manager and w t
  assume inv: "wm_inv wm"
  then show "distinct (get_idle_workers wm)" using idle_workers_sorted by (simp add: wm_inv_def)
  show "get_idle_workers (wm_assign_task w t wm) = removeAll w (get_idle_workers wm)"
    by (rule idle_after_assign [OF inv])
  show "wm_inv (wm_assign_task w t wm)" using inv by (simp add: wm_assign_task_def wm_inv_entry)
qed

interpretation disp: dispatcher get_ready_tasks graph_remove_task graph_inv get_idle_workers wm_assign_task wm_inv
  by unfold_locales

section \<open>One round\<close>

lemma schedule_loop_cases:
  assumes "schedule_loop now idle s ts = (r, s')"
  obtains (none) "r = not_scheduled" "s' = s"
      "\<forall>t \<in> set ts. select_best_worker s t (degrade_allowed now (get_task_requirements (ts_graph s) t)
         (get_task_ready_timestamp (ts_graph s) t)) idle = 0"
  | (some) us t vs w ad where "ts = us @ t # vs"
      "ad = degrade_allowed now (get_task_requirements (ts_graph s) t) (get_task_ready_timestamp (ts_graph s) t)"
      "w = select_best_worker s t ad idle" "w \<noteq> 0"
      "r = \<lparr>sr_task_id = t, sr_worker_id = w, sr_scheduled = True,
            sr_degraded = is_degraded (ts_manager s) ad (caps_of s t) w\<rparr>"
      "s' = s\<lparr>ts_manager := wm_assign_task w t (ts_manager s), ts_graph := graph_remove_task t (ts_graph s)\<rparr>"
      "\<forall>u \<in> set us. select_best_worker s u (degrade_allowed now (get_task_requirements (ts_graph s) u)
         (get_task_ready_timestamp (ts_graph s) u)) idle = 0"
  using assms
proof (induction ts arbitrary: thesis)
  case Nil
  then show ?case by simp
next
  case (Cons t ts)
  let ?ad = "degrade_allowed now (get_task_requirements (ts_graph s) t) (get_task_ready_timestamp (ts_graph s) t)"
  show ?case
  proof (cases "select_best_worker s t ?ad idle = 0")
    case True
    then have "schedule_loop now idle s ts = (r, s')" using Cons.prems(3) by (simp add: Let_def)
    from this show ?thesis
    proof (rule Cons.IH [rotated 2])
      assume "r = not_scheduled" "s' = s" "\<forall>t \<in> set ts. select_best_worker s t (degrade_allowed now
        (get_task_requirements (ts_graph s) t) (get_task_ready_timestamp (ts_graph s) t)) idle = 0"
      then show ?thesis using True by (intro Cons.prems(1)) simp_all
    next
      fix us u vs w ad
      assume "ts = us @ u # vs"
      "ad = degrade_allowed now (get_task_requirements (ts_graph s) u) (get_task_ready_timestamp (ts_graph s) u)"
      "w = select_best_worker s u ad idle" "w \<noteq> 0"
      "r = \<lparr>sr_task_id = u, sr_worker_id = w, sr_scheduled = True,
            sr_degraded = is_degraded (ts_manager s) ad (caps_of s u) w\<rparr>"
      "s' = s\<lparr>ts_manager := wm_assign_task w u (ts_manager s), ts_graph := graph_remove_task u (ts_graph s)\<rparr>"
      "\<forall>u \<in> set us. select_best_worker s u (degrade_allowed now (get_task_requirements (ts_graph s) u)
         (get_task_ready_timestamp (ts_graph s) u)) idle = 0"
      then show ?thesis using True by (intro Cons.prems(2) [of "t # us" u vs ad w]) simp_all
    qed
  next
    case False
    then show ?thesis
      using Cons.prems(3) by (intro Cons.prems(2) [of "[]" t ts ?ad "select_best_worker s t ?ad idle"])
        (auto simp: Let_def)
  qed
qed

text \<open>
  The states the scheduler runs in: any history of the graph, any history of the worker table, and
  no worker registered under id 0, which the code reserves for "no worker".
\<close>

definition sched_reachable :: "task_scheduler \<Rightarrow> bool" where
  "sched_reachable s \<longleftrightarrow> reachable_by graph_exec any_op empty_graph (ts_graph s) \<and>
     reachable_by wm_exec any_op [] (ts_manager s) \<and> get_worker (ts_manager s) 0 = None"

lemma sched_reachableD:
  assumes "sched_reachable s"
  shows "graph_inv (ts_graph s)" and "wm_inv (ts_manager s)" and "0 \<notin> set (get_idle_workers (ts_manager s))"
proof -
  show "graph_inv (ts_graph s)" using assms graph_all.reachable_inv by (simp add: sched_reachable_def)
  show wm: "wm_inv (ts_manager s)" using assms wm_all.reachable_inv by (simp add: sched_reachable_def)
  show "0 \<notin> set (get_idle_workers (ts_manager s))"
    using wm assms by (auto simp: wm_inv_def set_idle_workers sched_reachable_def get_worker_def)
qed

lemma sched_reachable_dispatch:
  assumes "sched_reachable s"
  shows "sched_reachable
    (s\<lparr>ts_manager := wm_assign_task w t (ts_manager s), ts_graph := graph_remove_task t (ts_graph s)\<rparr>)"
proof -
  have "reachable_by graph_exec any_op empty_graph (graph_remove_task t (ts_graph s))"
    using assms reachable_by.reach_step [where op = "RemoveTask t" and exec = graph_exec]
    by (auto simp: sched_reachable_def)
  moreover have "reachable_by wm_exec any_op [] (wm_assign_task w t (ts_manager s))"
    using assms reachable_by.reach_step [where op = "WmAssignTask w t" and exec = wm_exec]
    by (auto simp: sched_reachable_def)
  ultimately show ?thesis
    using assms by (simp add: sched_reachable_def get_worker_def wm_assign_task_def map_of_alist_map_entry)
qed

definition may_degrade :: "rat \<Rightarrow> task_scheduler \<Rightarrow> task_id \<Rightarrow> bool" where
  "may_degrade now s t = degrade_allowed now (get_task_requirements (ts_graph s) t)
     (get_task_ready_timestamp (ts_graph s) t)"

lemma schedule_next_cases:
  assumes "schedule_next now s = (r, s')"
  obtains (none) "\<not> sr_scheduled r" "s' = s"
      "get_ready_tasks (ts_graph s) = [] \<or> get_idle_workers (ts_manager s) = [] \<or>
       (\<forall>t \<in> set (get_ready_tasks (ts_graph s)).
          select_best_worker s t (may_degrade now s t) (get_idle_workers (ts_manager s)) = 0)"
  | (some) us vs where "get_ready_tasks (ts_graph s) = us @ sr_task_id r # vs"
      "get_idle_workers (ts_manager s) \<noteq> []"
      "sr_worker_id r = select_best_worker s (sr_task_id r) (may_degrade now s (sr_task_id r))
         (get_idle_workers (ts_manager s))" "sr_worker_id r \<noteq> 0" "sr_scheduled r"
      "sr_degraded r = is_degraded (ts_manager s) (may_degrade now s (sr_task_id r))
         (caps_of s (sr_task_id r)) (sr_worker_id r)"
      "s' = s\<lparr>ts_manager := wm_assign_task (sr_worker_id r) (sr_task_id r) (ts_manager s),
             ts_graph := graph_remove_task (sr_task_id r) (ts_graph s)\<rparr>"
      "\<forall>u \<in> set us. select_best_worker s u (may_degrade now s u) (get_idle_workers (ts_manager s)) = 0"
proof (cases "get_ready_tasks (ts_graph s) = [] \<or> get_idle_workers (ts_manager s) = []")
  case True
  then have "r = not_scheduled" "s' = s" using assms by (auto simp: schedule_next_def Let_def split: if_splits)
  then show ?thesis using True by (intro none) (auto simp: not_scheduled_def)
next
  case False
  then have "schedule_loop now (get_idle_workers (ts_manager s)) s (get_ready_tasks (ts_graph s)) = (r, s')"
    using assms by (simp add: schedule_next_def Let_def)
  then show ?thesis
  proof (cases rule: schedule_loop_cases)
    case none
    then show ?thesis by (intro that(1)) (auto simp: may_degrade_def not_scheduled_def)
  next
    case (some us t vs w ad)
    then show ?thesis using False by (intro that(2) [of us vs]) (simp_all add: may_degrade_def)
  qed
qed

lemma schedule_next_dispatch:
  assumes "schedule_next now s = (r, s')" and "sr_scheduled r"
  shows "sr_task_id r \<in> set (get_ready_tasks (ts_graph s))"
    and "sr_worker_id r \<in> set (get_idle_workers (ts_manager s))"
    and "s' = s\<lparr>ts_manager := wm_assign_task (sr_worker_id r) (sr_task_id r) (ts_manager s),
      ts_graph := graph_remove_task (sr_task_id r) (ts_graph s)\<rparr>"
  using assms(1)
proof (atomize(full), cases rule: schedule_next_cases)
  case none
  then show "sr_task_id r \<in> set (get_ready_tasks (ts_graph s)) \<and>
      sr_worker_id r \<in> set (get_idle_workers (ts_manager s)) \<and>
      s' = s\<lparr>ts_manager := wm_assign_task (sr_worker_id r) (sr_task_id r) (ts_manager s),
        ts_graph := graph_remove_task (sr_task_id r) (ts_graph s)\<rparr>"
    using assms(2) by simp
next
  case (some us vs)
  then show "sr_task_id r \<in> set (get_ready_tasks (ts_graph s)) \<and>
      sr_worker_id r \<in> set (get_idle_workers (ts_manager s)) \<and>
      s' = s\<lparr>ts_manager := wm_assign_task (sr_worker_id r) (sr_task_id r) (ts_manager s),
        ts_graph := graph_remove_task (sr_task_id r) (ts_graph s)\<rparr>"
    using select_in_idle by (metis in_set_conv_decomp)
qed

section \<open>The loop\<close>

abbreviation sched_run :: "task_scheduler \<Rightarrow> schedule_result list \<Rightarrow> task_scheduler \<Rightarrow> bool" where
  "sched_run s rs s' \<equiv>
     dispatch_run get_ready_tasks graph_remove_task get_idle_workers wm_assign_task
       (ts_graph s, ts_manager s) (map (\<lambda>r. (sr_task_id r, sr_worker_id r)) rs) (ts_graph s', ts_manager s')"

text \<open>The loop ends, and it keeps every predicate that gives the invariant of the table and survives a dispatch.\<close>

lemma schedule_rounds_keeps:
  assumes inv: "\<And>s. I s \<Longrightarrow> wm_inv (ts_manager s)"
    and step: "\<And>s w t. \<lbrakk>I s; t \<in> set (get_ready_tasks (ts_graph s)); w \<in> set (get_idle_workers (ts_manager s))\<rbrakk> \<Longrightarrow>
      I (s\<lparr>ts_manager := wm_assign_task w t (ts_manager s), ts_graph := graph_remove_task t (ts_graph s)\<rparr>)"
    and "I s" and "length (get_idle_workers (ts_manager s)) = k"
  shows "\<exists>rs s'. schedule_rounds clk n s acc = Some (acc @ rs, s') \<and> sched_run s rs s' \<and>
    I s' \<and> \<not> sr_scheduled (fst (schedule_next (clk (n + length rs)) s')) \<and>
    locality_enabled s' = locality_enabled s \<and> (\<forall>r \<in> set rs. sr_scheduled r)"
  using assms(3,4)
proof (induction k arbitrary: s n acc rule: less_induct)
  case (less k)
  obtain r s1 where nx: "schedule_next (clk n) s = (r, s1)" by (cases "schedule_next (clk n) s")
  show ?case
  proof (cases "sr_scheduled r")
    case False
    then have "s1 = s" using nx by (cases rule: schedule_next_cases [OF nx]) auto
    then have "schedule_rounds clk n s acc = Some (acc @ [], s)"
      using nx False by (subst schedule_rounds.simps) simp
    then show ?thesis using less.prems(1) nx False by (intro exI [of _ "[]"] exI [of _ s]) auto
  next
    case True
    note d = schedule_next_dispatch [OF nx True]
    have wm: "wm_inv (ts_manager s)" by (rule inv [OF less.prems(1)])
    have re: "I s1" unfolding d(3) by (rule step [OF less.prems(1) d(1,2)])
    have "length (get_idle_workers (ts_manager s1)) < k"
      using wpool.idle_assign [OF wm] length_removeAll_less [OF d(2)] less.prems(2) unfolding d(3)
      by simp
    from less.IH [OF this re refl, of "Suc n" "acc @ [r]"]
    obtain rs s' where IH: "schedule_rounds clk (Suc n) s1 (acc @ [r]) = Some ((acc @ [r]) @ rs, s')"
      "sched_run s1 rs s'" "I s'" "\<not> sr_scheduled (fst (schedule_next (clk (Suc n + length rs)) s'))"
      "locality_enabled s' = locality_enabled s1" "\<forall>r \<in> set rs. sr_scheduled r" by blast
    have "schedule_rounds clk n s acc = Some (acc @ r # rs, s')"
      using nx True IH(1) by (subst schedule_rounds.simps) simp
    moreover have "sched_run s (r # rs) s'" using IH(2) d by simp
    moreover have "locality_enabled s' = locality_enabled s" using IH(5) d(3) by simp
    ultimately show ?thesis using IH(3,4,6) True by (intro exI [of _ "r # rs"] exI [of _ s']) simp
  qed
qed

lemma schedule_rounds_result:
  assumes "sched_reachable s"
  shows "\<exists>rs s'. schedule_rounds clk n s acc = Some (acc @ rs, s') \<and> sched_run s rs s' \<and>
    sched_reachable s' \<and> \<not> sr_scheduled (fst (schedule_next (clk (n + length rs)) s')) \<and>
    locality_enabled s' = locality_enabled s \<and> (\<forall>r \<in> set rs. sr_scheduled r)"
  by (rule schedule_rounds_keeps [where I = sched_reachable]) (auto intro: sched_reachableD(2) sched_reachable_dispatch assms)

section \<open>Properties\<close>

lemma is_degraded_iff:
  assumes "get_worker wm w = Some i"
  shows "is_degraded wm ad caps w \<longleftrightarrow> ad \<and> capability_match_count wm w caps < length caps"
  using assms capability_match_count_Nil [of wm w]
  by (auto simp: is_degraded_def capability_match_count_def)

lemma idle_registered:
  "wm_inv wm \<Longrightarrow> w \<in> set (get_idle_workers wm) \<Longrightarrow> \<exists>i. get_worker wm w = Some i"
  by (auto simp: wm_inv_def set_idle_workers get_worker_def)

lemma matches_full:
  "get_worker wm w = Some i \<Longrightarrow>
     capability_match_count wm w caps = length caps \<longleftrightarrow> set caps \<subseteq> set (get_worker_capabilities wm w)"
  by (simp add: capability_match_count_def match_count_full get_worker_capabilities_def get_worker_def)

text \<open>A scheduler over a graph with two ready tasks and the four-worker table.\<close>

definition demo_graph :: "string list \<Rightarrow> rat \<Rightarrow> (worker_id \<times> int) list \<Rightarrow> dep_graph" where
  "demo_graph caps timeout hint = empty_graph
     \<lparr>task_dependencies := [7 \<mapsto> [], 8 \<mapsto> []],
      requirements_of := [7 \<mapsto> \<lparr>capabilities = caps, timeout_seconds = timeout, locality_hint = hint, priority = 10\<rparr>,
        8 \<mapsto> default_requirements\<lparr>priority := 3\<rparr>],
      ready_tasks := [(-10, 7), (-3, 8)], task_ready_timestamps := [7 \<mapsto> 0, 8 \<mapsto> 0],
      task_ready_epoch_ms := [7 \<mapsto> 0, 8 \<mapsto> 0]\<rparr>"

lemma demo_graph_run:
  "run_ops graph_exec any_op
     [AddTask (0, 0) 7 [] \<lparr>capabilities = caps, timeout_seconds = timeout, locality_hint = hint, priority = 10\<rparr>,
      AddTask (0, 0) 8 [] (default_requirements\<lparr>priority := 3\<rparr>)] empty_graph
   = Some (demo_graph caps timeout hint)"
  by (simp add: add_task_def empty_graph_def Let_def demo_graph_def insort_insert_key_def default_requirements_def)

definition demo_sched :: "bool \<Rightarrow> string list \<Rightarrow> rat \<Rightarrow> (worker_id \<times> int) list \<Rightarrow> task_scheduler" where
  "demo_sched loc caps timeout hint =
     \<lparr>ts_graph = demo_graph caps timeout hint, ts_manager = demo_workers, locality_enabled = loc\<rparr>"

lemma demo_sched_reachable: "sched_reachable (demo_sched loc caps timeout hint)"
  using reachable_run_ops [OF reachable_by.reach_init demo_graph_run] demo_workers_reachable
  by (simp add: sched_reachable_def demo_sched_def demo_workers_def get_worker_def)

lemma demo_idle: "get_idle_workers demo_workers = [1, 3]"
  by (simp add: get_idle_workers_def demo_workers_def fresh_worker_def)

lemma demo_match [simp]:
  "capability_match_count demo_workers (Suc 0) caps = 0"
  "capability_match_count demo_workers 3 caps = match_count [''gpu''] caps"
  by (simp_all add: capability_match_count_def get_worker_def demo_workers_def fresh_worker_def match_count_def)

lemma demo_graph_simps [simp]:
  "get_ready_tasks (demo_graph caps timeout hint) = [7, 8]"
  "get_task_requirements (demo_graph caps timeout hint) 7 =
     \<lparr>capabilities = caps, timeout_seconds = timeout, locality_hint = hint, priority = 10\<rparr>"
  "get_task_ready_timestamp (demo_graph caps timeout hint) 7 = Some 0"
  by (simp_all add: demo_graph_def get_ready_tasks_def get_task_requirements_def get_task_ready_timestamp_def)

lemma demo_gpu_next:
  "schedule_next 5 (demo_sched False [''gpu''] (-1) []) =
     (\<lparr>sr_task_id = 7, sr_worker_id = 3, sr_scheduled = True, sr_degraded = False\<rparr>,
      \<lparr>ts_graph = graph_remove_task 7 (demo_graph [''gpu''] (-1) []),
       ts_manager = wm_assign_task 3 7 demo_workers, locality_enabled = False\<rparr>)"
  by (simp add: schedule_next_def demo_sched_def demo_idle select_best_worker_def match_count_def
    is_degraded_def degrade_allowed_def Let_def)

text \<open>
  C7: A scheduling round takes a ready task and an idle worker, marks the worker busy with the
  task and removes the task from the graph.  The chosen worker covers at least as many of the
  task's required capabilities as any other idle worker, the degraded flag is set exactly when
  degradation was allowed and a capability is missing, and every task passed over (higher
  priority) has a required capability that each idle worker lacks in part.
\<close>

theorem schedule_next_sound:
  assumes "sched_reachable s" and "schedule_next now s = (r, s')" and "sr_scheduled r"
  shows "\<exists>us vs. get_ready_tasks (ts_graph s) = us @ sr_task_id r # vs \<and>
      sr_worker_id r \<in> set (get_idle_workers (ts_manager s)) \<and>
      ts_graph s' = graph_remove_task (sr_task_id r) (ts_graph s) \<and>
      ts_manager s' = wm_assign_task (sr_worker_id r) (sr_task_id r) (ts_manager s) \<and>
      (\<forall>w \<in> set (get_idle_workers (ts_manager s)).
         matches s (sr_task_id r) w \<le> matches s (sr_task_id r) (sr_worker_id r)) \<and>
      (sr_degraded r \<longleftrightarrow> may_degrade now s (sr_task_id r) \<and>
         matches s (sr_task_id r) (sr_worker_id r) < length (caps_of s (sr_task_id r))) \<and>
      (\<forall>u \<in> set us. \<forall>w \<in> set (get_idle_workers (ts_manager s)). matches s u w < length (caps_of s u))"
  using assms(2)
proof (cases rule: schedule_next_cases)
  case (some us vs)
  note inv = sched_reachableD [OF assms(1)]
  have w: "sr_worker_id r \<in> set (get_idle_workers (ts_manager s))"
    using schedule_next_dispatch [OF assms(2,3)] by simp
  have best: "matches s (sr_task_id r) u \<le> matches s (sr_task_id r) (sr_worker_id r)"
    if "u \<in> set (get_idle_workers (ts_manager s))" for u
    using select_best_match [OF some(2) _ that inv(3)] some(3,4) by simp
  have passed: "matches s u v < length (caps_of s u)"
    if "u \<in> set us" "v \<in> set (get_idle_workers (ts_manager s))" for u v
    using select_zero [OF some(2) _ inv(3)] some(8) that by blast
  obtain i where "get_worker (ts_manager s) (sr_worker_id r) = Some i"
    using idle_registered [OF inv(2) w] by blast
  then show ?thesis
    using some(1,6,7) w best passed by (intro exI [of _ us] exI [of _ vs]) (simp add: is_degraded_iff)
qed (use assms(3) in simp)

theorem schedule_next_sound_witness:
  "sr_scheduled (fst (schedule_next 5 (demo_sched False [''gpu''] (-1) []))) \<and>
   3 \<in> set (get_idle_workers demo_workers)"
  using schedule_next_sound [OF demo_sched_reachable demo_gpu_next] unfolding demo_gpu_next
  by (auto simp: demo_sched_def)

text \<open>
  C9: Without the locality preference a task is only given to a worker that has every required
  capability, unless its waiting time allows degradation; in particular a task with a negative
  timeout always gets a full match.
\<close>

theorem capability_guarantee:
  assumes "sched_reachable s" and "schedule_next now s = (r, s')" and "sr_scheduled r"
    and "\<not> locality_enabled s" and "\<not> may_degrade now s (sr_task_id r)"
  shows "set (caps_of s (sr_task_id r)) \<subseteq> set (get_worker_capabilities (ts_manager s) (sr_worker_id r))"
  using assms(2)
proof (cases rule: schedule_next_cases)
  case (some us vs)
  have w: "sr_worker_id r \<in> set (get_idle_workers (ts_manager s))"
    using schedule_next_dispatch [OF assms(2,3)] by simp
  obtain i where "get_worker (ts_manager s) (sr_worker_id r) = Some i"
    using idle_registered [OF sched_reachableD(2) [OF assms(1)] w] by blast
  moreover have "matches s (sr_task_id r) (sr_worker_id r) = length (caps_of s (sr_task_id r))"
    using select_full_or_degraded [OF some(2) _ assms(4)] some(3,4) assms(5) by simp
  ultimately show ?thesis using matches_full by blast
qed (use assms(3) in simp)

theorem capability_guarantee_witness:
  "fst (schedule_next 5 (demo_sched False [''gpu''] (-1) [])) =
     \<lparr>sr_task_id = 7, sr_worker_id = 3, sr_scheduled = True, sr_degraded = False\<rparr> \<and>
   {''gpu''} \<subseteq> set (get_worker_capabilities demo_workers 3)"
  using capability_guarantee [OF demo_sched_reachable demo_gpu_next] unfolding demo_gpu_next
  by (simp add: demo_sched_def may_degrade_def degrade_allowed_def)

text \<open>
  C10: The scheduler does not leave work undone that it could place.  When a round schedules
  nothing although tasks are ready and workers are idle, every ready task requires capabilities
  that no idle worker fully covers and is not yet allowed to degrade.
\<close>

theorem schedule_next_work_conserving:
  assumes "sched_reachable s" and "schedule_next now s = (r, s')" and "\<not> sr_scheduled r"
    and "t \<in> set (get_ready_tasks (ts_graph s))" and "w \<in> set (get_idle_workers (ts_manager s))"
  shows "s' = s \<and> \<not> may_degrade now s t \<and>
    \<not> set (caps_of s t) \<subseteq> set (get_worker_capabilities (ts_manager s) w)"
  using assms(2)
proof (cases rule: schedule_next_cases)
  case none
  have ne: "get_idle_workers (ts_manager s) \<noteq> []" using assms(5) by auto
  note inv = sched_reachableD [OF assms(1)]
  have "select_best_worker s t (may_degrade now s t) (get_idle_workers (ts_manager s)) = 0"
    using none(3) assms(4) ne by auto
  from select_zero [OF ne this inv(3)] have z: "\<not> may_degrade now s t" "matches s t w < length (caps_of s t)"
    using assms(5) by auto
  obtain i where "get_worker (ts_manager s) w = Some i" using idle_registered [OF inv(2) assms(5)] by blast
  from matches_full [OF this, of "caps_of s t"] show ?thesis using z none(2) by simp
qed (use assms(3) in simp)

lemma demo_wait_next:
  "schedule_next 5 (demo_sched False [''fpga''] (-1) []\<lparr>ts_graph := graph_remove_task 8 (demo_graph [''fpga''] (-1) [])\<rparr>) =
     (not_scheduled, demo_sched False [''fpga''] (-1) []\<lparr>ts_graph := graph_remove_task 8 (demo_graph [''fpga''] (-1) [])\<rparr>)"
  by (simp add: schedule_next_def demo_sched_def demo_idle select_best_worker_def match_count_def
    is_degraded_def degrade_allowed_def Let_def graph_remove_task_def demo_graph_def get_ready_tasks_def
    get_task_requirements_def priority_of_def default_requirements_def)

theorem schedule_next_work_conserving_witness:
  "fst (schedule_next 5 (demo_sched False [''fpga''] (-1) []
       \<lparr>ts_graph := graph_remove_task 8 (demo_graph [''fpga''] (-1) [])\<rparr>)) = not_scheduled \<and>
   ''fpga'' \<notin> set (get_worker_capabilities demo_workers 3)"
proof -
  let ?s = "demo_sched False [''fpga''] (-1) []\<lparr>ts_graph := graph_remove_task 8 (demo_graph [''fpga''] (-1) [])\<rparr>"
  have "reachable_by graph_exec any_op empty_graph (graph_remove_task 8 (demo_graph [''fpga''] (-1) []))"
    by (rule reachable_by.reach_step [where op = "RemoveTask 8"])
       (use demo_sched_reachable [of False "[''fpga'']" "-1" "[]"] in \<open>simp_all add: sched_reachable_def demo_sched_def\<close>)
  then have "sched_reachable ?s"
    using demo_sched_reachable [of False "[''fpga'']" "-1" "[]"] by (simp add: sched_reachable_def)
  moreover have "7 \<in> set (get_ready_tasks (ts_graph ?s))" "3 \<in> set (get_idle_workers (ts_manager ?s))"
    "caps_of ?s 7 = [''fpga'']"
    by (simp_all add: demo_sched_def demo_idle graph_remove_task_def demo_graph_def get_ready_tasks_def
      get_task_requirements_def priority_of_def default_requirements_def)
  ultimately show ?thesis
    using schedule_next_work_conserving [OF _ demo_wait_next, of 7 3] demo_wait_next
    by (simp add: not_scheduled_def demo_sched_def)
qed

text \<open>
  C8: \<open>schedule_all_available\<close> always returns.  Its results name pairwise different tasks, all of
  them ready before, and pairwise different workers, all of them idle before; afterwards exactly
  the other ready tasks and the other idle workers remain, and a further round would schedule
  nothing.
\<close>

theorem schedule_all_available_returns:
  assumes "sched_reachable s"
  shows "\<exists>rs s'. schedule_all_available clk s = Some (rs, s') \<and> sched_reachable s' \<and>
    distinct (map sr_task_id rs) \<and> distinct (map sr_worker_id rs) \<and>
    set (map sr_task_id rs) \<subseteq> set (get_ready_tasks (ts_graph s)) \<and>
    set (map sr_worker_id rs) \<subseteq> set (get_idle_workers (ts_manager s)) \<and>
    get_ready_tasks (ts_graph s') =
      filter (\<lambda>t. t \<notin> set (map sr_task_id rs)) (get_ready_tasks (ts_graph s)) \<and>
    get_idle_workers (ts_manager s') =
      filter (\<lambda>w. w \<notin> set (map sr_worker_id rs)) (get_idle_workers (ts_manager s)) \<and>
    \<not> sr_scheduled (fst (schedule_next (clk (length rs)) s'))"
proof -
  obtain rs s' where "schedule_rounds clk 0 s [] = Some (rs, s')"
    and run: "sched_run s rs s'" and re: "sched_reachable s'"
    and stop: "\<not> sr_scheduled (fst (schedule_next (clk (length rs)) s'))"
    using schedule_rounds_result [OF assms, of clk 0 "[]"] by auto
  then have "schedule_all_available clk s = Some (rs, s')" by (simp add: schedule_all_available_def)
  then show ?thesis
    using disp.run_exclusive [OF sched_reachableD(1,2) [OF assms] run] re stop
    by (intro exI [of _ rs] exI [of _ s']) (simp add: comp_def)
qed

theorem schedule_all_available_returns_witness:
  "\<exists>rs s'. schedule_all_available (\<lambda>_. 5) (demo_sched False [''gpu''] (-1) []) = Some (rs, s') \<and>
     set (map sr_task_id rs) \<subseteq> {7, 8} \<and> set (map sr_worker_id rs) \<subseteq> {1, 3}"
  using schedule_all_available_returns [OF demo_sched_reachable [of False "[''gpu'']" "-1" "[]"], of "\<lambda>_. 5"]
  by (fastforce simp: demo_sched_def demo_idle)

text \<open>
  With the locality preference on, a task without capability requirements goes to an idle
  worker that holds the most input bytes according to the hint, and to the lowest worker id among
  those that hold equally many.
\<close>

theorem locality_picks_best:
  assumes "sched_reachable s" and "schedule_next now s = (r, s')" and "sr_scheduled r"
    and "locality_enabled s" and "caps_of s (sr_task_id r) = []"
    and "w \<in> set (get_idle_workers (ts_manager s))"
  shows "hint_score (locality_hint (get_task_requirements (ts_graph s) (sr_task_id r))) w
       \<le> hint_score (locality_hint (get_task_requirements (ts_graph s) (sr_task_id r))) (sr_worker_id r) \<and>
    (hint_score (locality_hint (get_task_requirements (ts_graph s) (sr_task_id r))) w
       = hint_score (locality_hint (get_task_requirements (ts_graph s) (sr_task_id r))) (sr_worker_id r)
     \<longrightarrow> sr_worker_id r \<le> w)"
proof -
  let ?t = "sr_task_id r" and ?h = "hint_score (locality_hint (get_task_requirements (ts_graph s) (sr_task_id r)))"
  let ?idle = "get_idle_workers (ts_manager s)" and ?buf = "scores s (sr_task_id r)"
  note inv = sched_reachableD [OF assms(1)]
  have entry: "(u, ?h u) \<in> set ?buf" if "u \<in> set ?idle" for u
    using compute_scores_registered [OF inv(2)] idle_registered [OF inv(2) that] by (auto simp: get_worker_def)
  obtain us vs where sel: "?idle \<noteq> []"
      "sr_worker_id r = select_best_worker s ?t (may_degrade now s ?t) ?idle"
    using assms(2,3) by (cases rule: schedule_next_cases [OF assms(2)]) auto
  obtain sc where f: "find (\<lambda>(w, sc). w \<in> set ?idle) (sort_scores ?buf) = Some (sr_worker_id r, sc)"
    using sel(1)
  proof (cases rule: select_cases [where s = s and t = ?t and ad = "may_degrade now s ?t"])
    case free
    have "find (\<lambda>(w, sc). w \<in> set ?idle) (sort_scores ?buf) \<noteq> None"
      using entry [OF assms(6)] assms(6) by (auto simp: find_None_iff simp del: not_None_eq)
    then show ?thesis using free(3) assms(4) entry [OF assms(6)] by auto
  qed (use assms(5) sel(2) that in auto)
  have "sr_worker_id r \<noteq> 0" using find_SomeD [OF f] inv(3) by (metis case_prod_conv)
  then have own: "sc = ?h (sr_worker_id r)"
    using find_SomeD [OF f] by (intro compute_scores_entry [of _ _ "ts_manager s"]) auto
  have "(- sc, sr_worker_id r) \<le> (- ?h w, w)"
    using find_sorted_least [OF sorted_sort_scores f, of "(w, ?h w)"] entry [OF assms(6)] assms(6) by simp
  then show ?thesis unfolding own by auto
qed

lemma demo_scores: "compute_scores demo_workers [(3, 500)] = [(0, 0), (1, 0), (2, 0), (3, 500), (4, 0)]"
proof -
  obtain a b c d where "get_all_workers demo_workers = [a, b, c, d]"
    "wi_worker_id a = 3" "wi_worker_id b = 1" "wi_worker_id c = 2" "wi_worker_id d = 4"
    by (simp add: get_all_workers_def demo_workers_def fresh_worker_def)
  then show ?thesis by (simp add: compute_scores_def Let_def numeral_eq_Suc)
qed

lemma demo_sorted:
  "sort_scores (compute_scores demo_workers [(3, 500)]) = [(3, 500), (0, 0), (1, 0), (2, 0), (4, 0)]"
  "compute_scores demo_workers [(3, 500)] \<noteq> []"
  by (simp_all add: demo_scores sort_scores_def)

lemma demo_local_next:
  "schedule_next 5 (demo_sched True [] (-1) [(3, 500)]) =
     (\<lparr>sr_task_id = 7, sr_worker_id = 3, sr_scheduled = True, sr_degraded = False\<rparr>,
      \<lparr>ts_graph = graph_remove_task 7 (demo_graph [] (-1) [(3, 500)]),
       ts_manager = wm_assign_task 3 7 demo_workers, locality_enabled = True\<rparr>)"
  by (simp add: schedule_next_def demo_sched_def demo_idle select_best_worker_def demo_sorted
    is_degraded_def degrade_allowed_def Let_def)

theorem locality_picks_best_witness:
  "fst (schedule_next 5 (demo_sched True [] (-1) [(3, 500)])) =
     \<lparr>sr_task_id = 7, sr_worker_id = 3, sr_scheduled = True, sr_degraded = False\<rparr> \<and>
   hint_score [(3, 500)] 1 \<le> hint_score [(3, 500)] 3"
  using locality_picks_best [OF demo_sched_reachable demo_local_next, of 1] unfolding demo_local_next
  by (simp add: demo_sched_def demo_idle)

text \<open>
  With the locality preference on, the capability guarantee of a task that must not be
  degraded is lost: a task with a negative timeout ("wait for all capabilities") that requires
  \<open>gpu\<close> and \<open>fpga\<close> is given to a worker that only has \<open>gpu\<close>, and the result is not marked as
  degraded.
\<close>

theorem locality_breaks_dead_wait:
  "fst (schedule_next 5 (demo_sched True [''gpu'', ''fpga''] (-1) [(3, 500)])) =
     \<lparr>sr_task_id = 7, sr_worker_id = 3, sr_scheduled = True, sr_degraded = False\<rparr> \<and>
   get_worker_capabilities demo_workers 3 = [''gpu'']"
  by (simp add: schedule_next_def demo_sched_def demo_idle select_best_worker_def demo_sorted
    is_degraded_def degrade_allowed_def Let_def match_count_def)
     (simp add: get_worker_capabilities_def demo_workers_def fresh_worker_def)

end
