(* ===== verification/Task_Manager.thy ===== *)
theory Task_Manager
  imports Fly_Prelude Complex_Main "HOL-Library.Multiset"
begin

text \<open>
  The task table of the master, src/task/cpp/task_manager.h and .cpp: one bucket of metadata per
  status, a status index over the ids, and the eviction of the oldest finished tasks.  A
  \<open>TaskMetadataPtr\<close> is modelled by the metadata it points to, as the table is the only writer.
  Readings of the wall clock (\<open>now_ms\<close>) are arguments of the operations that take them.
\<close>

section \<open>State\<close>

datatype task_status = PENDING | RUNNING | COMPLETED | FAILED | CANCELLED

fun si :: "task_status \<Rightarrow> nat" where
  "si PENDING = 0"
| "si RUNNING = 1"
| "si COMPLETED = 2"
| "si FAILED = 3"
| "si CANCELLED = 4"

definition kMaxCompletedTasks :: nat where
  "kMaxCompletedTasks = 100"

record task_submission_spec =
  ts_name :: string
  ts_module :: string
  ts_args :: "string list"
  ts_inputs :: "data_path list"
  ts_outputs :: "data_path list"
  ts_required_capabilities :: "string list"
  ts_attribute_timeout :: rat
  ts_priority :: int
  ts_write_context_hash :: string
  ts_vars :: "string list"
  ts_owner_db_path :: string

record task_metadata =
  tm_task_id :: task_id
  tm_submission :: task_submission_spec
  tm_status :: task_status
  tm_config :: string
  tm_created_at :: nat
  tm_started_at :: nat
  tm_completed_at :: nat
  tm_error_message :: string
  tm_assigned_worker_id :: worker_id

record task_manager =
  buckets :: "task_status \<Rightarrow> (task_id \<times> task_metadata) list"
  task_status_of :: "task_id \<rightharpoonup> task_status"

definition empty_task_manager :: task_manager where
  "empty_task_manager = \<lparr>buckets = (\<lambda>_. []), task_status_of = Map.empty\<rparr>"

section \<open>Operations\<close>

text \<open>\<open>emplace\<close> and \<open>insert\<close> of an unordered map leave an existing entry alone.\<close>

definition umap_insert :: "'k \<Rightarrow> 'v \<Rightarrow> ('k \<times> 'v) list \<Rightarrow> ('k \<times> 'v) list" where
  "umap_insert k v m = (if k \<in> fst ` set m then m else (k, v) # m)"

text \<open>Writing through the pointer found under an id in one bucket.\<close>

definition modify_meta ::
  "task_status \<Rightarrow> task_id \<Rightarrow> (task_metadata \<Rightarrow> task_metadata) \<Rightarrow> task_manager \<Rightarrow> task_manager"
where
  "modify_meta s t f tm =
     tm\<lparr>buckets := (buckets tm)(s := AList.map_entry t f (buckets tm s))\<rparr>"

definition move_task :: "task_id \<Rightarrow> task_status \<Rightarrow> task_status \<Rightarrow> task_manager \<Rightarrow> task_manager"
where
  "move_task t src dst tm =
     (if src = dst then tm
      else case map_of (buckets tm src) t of
             None \<Rightarrow> tm
           | Some m \<Rightarrow>
               let b = (buckets tm)(src := AList.delete t (buckets tm src))
               in tm\<lparr>buckets := b(dst := umap_insert t (m\<lparr>tm_status := dst\<rparr>) (b dst)),
                     task_status_of := (task_status_of tm)(t \<mapsto> dst)\<rparr>)"

text \<open>One round of the eviction loop.\<close>

definition erase_task :: "task_id \<Rightarrow> task_manager \<Rightarrow> task_manager" where
  "erase_task t tm =
     (case task_status_of tm t of
        None \<Rightarrow> tm
      | Some s \<Rightarrow> tm\<lparr>buckets := (buckets tm)(s := AList.delete t (buckets tm s)),
                     task_status_of := (task_status_of tm)(t := None)\<rparr>)"

definition terminal_count :: "task_manager \<Rightarrow> nat" where
  "terminal_count tm = length (buckets tm COMPLETED) + length (buckets tm FAILED)"

definition eviction_order :: "task_manager \<Rightarrow> (task_id \<times> nat) list" where
  "eviction_order tm =
     sort_key snd (map (\<lambda>(t, m). (t, tm_completed_at m)) (buckets tm COMPLETED)
                 @ map (\<lambda>(t, m). (t, tm_completed_at m)) (buckets tm FAILED))"

definition maybe_cleanup_completed :: "task_manager \<Rightarrow> task_manager" where
  "maybe_cleanup_completed tm =
     (if terminal_count tm \<le> kMaxCompletedTasks then tm
      else fold erase_task
             (map fst (take (terminal_count tm - kMaxCompletedTasks) (eviction_order tm))) tm)"

text \<open>\<open>None\<close> is the failed assertion on a duplicate task id.\<close>

definition create_task ::
  "nat \<Rightarrow> task_id \<Rightarrow> task_submission_spec \<Rightarrow> string \<Rightarrow> task_manager \<Rightarrow> task_manager option"
where
  "create_task now t spec config tm =
     (if task_status_of tm t \<noteq> None then None
      else
        let m = \<lparr>tm_task_id = t, tm_submission = spec, tm_status = PENDING, tm_config = config,
                 tm_created_at = now, tm_started_at = 0, tm_completed_at = 0,
                 tm_error_message = '''', tm_assigned_worker_id = 0\<rparr>
        in Some (tm\<lparr>buckets := (buckets tm)(PENDING := umap_insert t m (buckets tm PENDING)),
                    task_status_of := (task_status_of tm)(t \<mapsto> PENDING)\<rparr>))"

definition is_final :: "task_status \<Rightarrow> bool" where
  "is_final s \<longleftrightarrow> s = COMPLETED \<or> s = FAILED"

definition update_task_status :: "nat \<Rightarrow> task_id \<Rightarrow> task_status \<Rightarrow> task_manager \<Rightarrow> task_manager"
where
  "update_task_status now t status tm =
     (case task_status_of tm t of
        None \<Rightarrow> tm
      | Some old \<Rightarrow>
          if old = status then tm
          else case map_of (buckets tm old) t of
                 None \<Rightarrow> tm
               | Some m \<Rightarrow>
                   let stamp = (\<lambda>m. if status = RUNNING \<and> tm_started_at m = 0
                                    then m\<lparr>tm_started_at := now\<rparr> else m);
                       finish = (\<lambda>m. if is_final status then m\<lparr>tm_completed_at := now\<rparr> else m);
                       tm1 = move_task t old status (modify_meta old t (finish \<circ> stamp) tm)
                   in if is_final status then maybe_cleanup_completed tm1 else tm1)"

definition set_error :: "task_id \<Rightarrow> string \<Rightarrow> task_manager \<Rightarrow> task_manager" where
  "set_error t e tm =
     (case task_status_of tm t of
        None \<Rightarrow> tm
      | Some s \<Rightarrow> modify_meta s t (\<lambda>m. m\<lparr>tm_error_message := e\<rparr>) tm)"

definition set_assigned_worker :: "task_id \<Rightarrow> worker_id \<Rightarrow> task_manager \<Rightarrow> task_manager" where
  "set_assigned_worker t w tm =
     (case task_status_of tm t of
        None \<Rightarrow> tm
      | Some s \<Rightarrow> modify_meta s t (\<lambda>m. m\<lparr>tm_assigned_worker_id := w\<rparr>) tm)"

definition set_timestamps ::
  "task_id \<Rightarrow> nat \<Rightarrow> nat \<Rightarrow> nat \<Rightarrow> task_manager \<Rightarrow> task_manager" where
  "set_timestamps t created started completed tm =
     (case task_status_of tm t of
        None \<Rightarrow> tm
      | Some s \<Rightarrow> modify_meta s t
          (\<lambda>m. m\<lparr>tm_created_at := (if created \<noteq> 0 then created else tm_created_at m),
                 tm_started_at := (if started \<noteq> 0 then started else tm_started_at m),
                 tm_completed_at := (if completed \<noteq> 0 then completed else tm_completed_at m)\<rparr>) tm)"

definition set_write_context_hash :: "task_id \<Rightarrow> string \<Rightarrow> task_manager \<Rightarrow> task_manager" where
  "set_write_context_hash t h tm =
     (case task_status_of tm t of
        None \<Rightarrow> tm
      | Some s \<Rightarrow> modify_meta s t
          (\<lambda>m. m\<lparr>tm_submission := (tm_submission m)\<lparr>ts_write_context_hash := h\<rparr>\<rparr>) tm)"

definition fail_task :: "nat \<Rightarrow> task_id \<Rightarrow> string \<Rightarrow> task_manager \<Rightarrow> task_manager" where
  "fail_task now t e tm =
     (case task_status_of tm t of
        None \<Rightarrow> tm
      | Some old \<Rightarrow>
          if old = FAILED then modify_meta old t (\<lambda>m. m\<lparr>tm_error_message := e\<rparr>) tm
          else case map_of (buckets tm old) t of
                 None \<Rightarrow> tm
               | Some m \<Rightarrow> maybe_cleanup_completed
                   (move_task t old FAILED
                     (modify_meta old t (\<lambda>m. m\<lparr>tm_error_message := e, tm_completed_at := now\<rparr>) tm)))"

definition tm_assign_task :: "nat \<Rightarrow> task_id \<Rightarrow> worker_id \<Rightarrow> task_manager \<Rightarrow> task_manager" where
  "tm_assign_task now t w tm =
     (case task_status_of tm t of
        None \<Rightarrow> tm
      | Some old \<Rightarrow>
          (case map_of (buckets tm old) t of
             None \<Rightarrow> tm
           | Some m \<Rightarrow> move_task t old RUNNING
               (modify_meta old t
                 (\<lambda>m. m\<lparr>tm_assigned_worker_id := w,
                        tm_started_at := (if tm_started_at m = 0 then now else tm_started_at m)\<rparr>) tm)))"

definition unassign_task :: "task_id \<Rightarrow> task_manager \<Rightarrow> task_manager" where
  "unassign_task t tm =
     (case task_status_of tm t of
        None \<Rightarrow> tm
      | Some old \<Rightarrow>
          (case map_of (buckets tm old) t of
             None \<Rightarrow> tm
           | Some m \<Rightarrow> move_task t old PENDING
               (modify_meta old t (\<lambda>m. m\<lparr>tm_assigned_worker_id := 0\<rparr>) tm)))"

definition get_task :: "task_manager \<Rightarrow> task_id \<Rightarrow> task_metadata option" where
  "get_task tm t =
     (case task_status_of tm t of None \<Rightarrow> None | Some s \<Rightarrow> map_of (buckets tm s) t)"

definition get_tasks_by_status :: "task_manager \<Rightarrow> task_status \<Rightarrow> task_metadata list" where
  "get_tasks_by_status tm s = map snd (buckets tm s)"

definition get_all_tasks :: "task_manager \<Rightarrow> task_metadata list" where
  "get_all_tasks tm =
     concat (map (\<lambda>s. map snd (buckets tm s)) [PENDING, RUNNING, COMPLETED, FAILED, CANCELLED])"

definition has_tasks_with_status :: "task_manager \<Rightarrow> task_status \<Rightarrow> bool" where
  "has_tasks_with_status tm s \<longleftrightarrow> buckets tm s \<noteq> []"

definition count_tasks_by_status :: "task_manager \<Rightarrow> task_status \<Rightarrow> nat" where
  "count_tasks_by_status tm s = length (buckets tm s)"

definition get_task_ids_by_status :: "task_manager \<Rightarrow> task_status \<Rightarrow> task_id list" where
  "get_task_ids_by_status tm s = map fst (buckets tm s)"

definition get_task_ids_by_worker :: "task_manager \<Rightarrow> worker_id \<Rightarrow> task_id list" where
  "get_task_ids_by_worker tm w =
     map fst (filter (\<lambda>(t, m). tm_assigned_worker_id m = w) (buckets tm RUNNING))"

definition has_task :: "task_manager \<Rightarrow> task_id \<Rightarrow> bool" where
  "has_task tm t \<longleftrightarrow> task_status_of tm t \<noteq> None"

definition tm_remove_task :: "task_id \<Rightarrow> task_manager \<Rightarrow> task_manager" where
  "tm_remove_task t tm =
     (case task_status_of tm t of
        None \<Rightarrow> tm
      | Some s \<Rightarrow> tm\<lparr>buckets := (buckets tm)(s := AList.delete t (buckets tm s)),
                     task_status_of := (task_status_of tm)(t := None)\<rparr>)"

section \<open>The table as a map\<close>

lemma map_of_umap_insert:
  "k \<notin> fst ` set m \<Longrightarrow> map_of (umap_insert k v m) = (map_of m)(k \<mapsto> v)"
  by (simp add: umap_insert_def)

lemma umap_ok_insert [intro]: "umap_ok m \<Longrightarrow> umap_ok (umap_insert k v m)"
  by (simp add: umap_ok_def umap_insert_def)

text \<open>
  The buckets and the index agree: a task is in the bucket of its indexed status and nowhere
  else, and its metadata records that status and its id.
\<close>

definition tm_agree :: "task_manager \<Rightarrow> bool" where
  "tm_agree tm \<longleftrightarrow>
     (\<forall>s. umap_ok (buckets tm s)) \<and>
     (\<forall>s t. map_of (buckets tm s) t \<noteq> None \<longleftrightarrow> task_status_of tm t = Some s) \<and>
     (\<forall>s t m. map_of (buckets tm s) t = Some m \<longrightarrow> tm_status m = s \<and> tm_task_id m = t)"

lemma tm_agreeI:
  assumes "\<And>s. umap_ok (buckets tm s)"
    and "\<And>s t. map_of (buckets tm s) t \<noteq> None \<longleftrightarrow> task_status_of tm t = Some s"
    and "\<And>s t m. map_of (buckets tm s) t = Some m \<Longrightarrow> tm_status m = s \<and> tm_task_id m = t"
  shows "tm_agree tm"
  unfolding tm_agree_def using assms by blast

lemma tm_agreeD:
  assumes "tm_agree tm"
  shows "umap_ok (buckets tm s)"
    and "map_of (buckets tm s) t \<noteq> None \<longleftrightarrow> task_status_of tm t = Some s"
    and "map_of (buckets tm s) t = Some m \<Longrightarrow> tm_status m = s"
    and "map_of (buckets tm s) t = Some m \<Longrightarrow> tm_task_id m = t"
  using assms unfolding tm_agree_def by blast+

lemma bucket_get_task:
  assumes "tm_agree tm"
  shows "map_of (buckets tm s) t = Some m \<longleftrightarrow> get_task tm t = Some m \<and> tm_status m = s"
proof
  assume *: "map_of (buckets tm s) t = Some m"
  then have "task_status_of tm t = Some s" using tm_agreeD(2) [OF assms, of s t] by simp
  then show "get_task tm t = Some m \<and> tm_status m = s"
    using * tm_agreeD(3) [OF assms *] by (simp add: get_task_def)
next
  assume *: "get_task tm t = Some m \<and> tm_status m = s"
  then obtain s' where "task_status_of tm t = Some s'" "map_of (buckets tm s') t = Some m"
    by (auto simp: get_task_def split: option.splits)
  then show "map_of (buckets tm s) t = Some m" using * tm_agreeD(3) [OF assms] by blast
qed

lemma status_get_task:
  assumes "tm_agree tm"
  shows "task_status_of tm t = map_option tm_status (get_task tm t)"
proof (cases "task_status_of tm t")
  case (Some s)
  then obtain m where "map_of (buckets tm s) t = Some m"
    using tm_agreeD(2) [OF assms, of s t] by auto
  then show ?thesis using Some bucket_get_task [OF assms] by simp
qed (simp add: get_task_def)

lemma set_bucket:
  assumes "tm_agree tm"
  shows "(t, m) \<in> set (buckets tm s) \<longleftrightarrow> get_task tm t = Some m \<and> tm_status m = s"
  using umap_mem_iff [OF tm_agreeD(1) [OF assms]] bucket_get_task [OF assms] by simp

lemma bucket_of_status:
  assumes "tm_agree tm" and "task_status_of tm t = Some s"
  shows "map_of (buckets tm s) t = get_task tm t"
  using assms(2) by (simp add: get_task_def)

section \<open>The operations on the map\<close>

lemma modify_meta_agree:
  assumes "tm_agree tm" and "\<And>m. tm_status (f m) = tm_status m" and "\<And>m. tm_task_id (f m) = tm_task_id m"
  shows "tm_agree (modify_meta s t f tm)"
proof (rule tm_agreeI)
  show "umap_ok (buckets (modify_meta s t f tm) s')" for s'
    using tm_agreeD(1) [OF assms(1)] by (auto simp: modify_meta_def)
  show "map_of (buckets (modify_meta s t f tm) s') u \<noteq> None \<longleftrightarrow>
      task_status_of (modify_meta s t f tm) u = Some s'" for s' u
    using tm_agreeD(2) [OF assms(1), of s' u]
    by (auto simp: modify_meta_def map_of_map_entry split: option.splits)
  show "tm_status m = s' \<and> tm_task_id m = u"
    if "map_of (buckets (modify_meta s t f tm) s') u = Some m" for s' u m
    using that tm_agreeD(3,4) [OF assms(1)] assms(2,3)
    by (auto simp: modify_meta_def map_of_map_entry split: if_splits option.splits)
qed

lemma modify_meta_get:
  assumes "task_status_of tm t = Some s"
  shows "get_task (modify_meta s t f tm) = (get_task tm)(t := map_option f (get_task tm t))"
proof
  fix u show "get_task (modify_meta s t f tm) u = ((get_task tm)(t := map_option f (get_task tm t))) u"
    using assms
    by (auto simp: get_task_def modify_meta_def map_of_map_entry split: option.splits)
qed

lemma modify_meta_status [simp]: "task_status_of (modify_meta s t f tm) = task_status_of tm"
  by (simp add: modify_meta_def)

lemma move_task_agree:
  assumes ok: "tm_agree tm"
  shows "tm_agree (move_task t src dst tm)"
proof (cases "src = dst \<or> map_of (buckets tm src) t = None")
  case False
  then obtain m where m: "map_of (buckets tm src) t = Some m" and ne: "src \<noteq> dst" by auto
  have st: "task_status_of tm t = Some src" using tm_agreeD(2) [OF ok, of src t] m by simp
  have "map_of (buckets tm dst) t = None" using tm_agreeD(2) [OF ok, of dst t] st ne by auto
  then have new: "t \<notin> fst ` set (buckets tm dst)" by (simp add: map_of_eq_None_iff)
  show ?thesis
  proof (rule tm_agreeI)
    show "umap_ok (buckets (move_task t src dst tm) s)" for s
      using tm_agreeD(1) [OF ok] m ne by (auto simp: move_task_def Let_def)
    show "map_of (buckets (move_task t src dst tm) s) u \<noteq> None \<longleftrightarrow>
        task_status_of (move_task t src dst tm) u = Some s" for s u
      using tm_agreeD(2) [OF ok, of s u] m ne st new
      by (auto simp: move_task_def Let_def map_of_umap_insert)
    show "tm_status m' = s \<and> tm_task_id m' = u"
      if "map_of (buckets (move_task t src dst tm) s) u = Some m'" for s u m'
      using that tm_agreeD(3,4) [OF ok] m ne new
      by (auto simp: move_task_def Let_def map_of_umap_insert split: if_splits)
  qed
qed (use ok in \<open>auto simp: move_task_def\<close>)

lemma move_task_get:
  assumes ok: "tm_agree tm" and st: "task_status_of tm t = Some src"
  shows "get_task (move_task t src dst tm) =
    (get_task tm)(t := map_option (\<lambda>m. m\<lparr>tm_status := dst\<rparr>) (get_task tm t))"
proof -
  obtain m where m: "map_of (buckets tm src) t = Some m"
    using tm_agreeD(2) [OF ok, of src t] st by auto
  have g: "get_task tm t = Some m" and ms: "tm_status m = src" using bucket_get_task [OF ok] m by auto
  show ?thesis
  proof (cases "src = dst")
    case True
    then show ?thesis using g ms by (auto simp: move_task_def fun_eq_iff)
  next
    case False
    have "map_of (buckets tm dst) t = None" using tm_agreeD(2) [OF ok, of dst t] st False by auto
    then have new: "t \<notin> fst ` set (buckets tm dst)" by (simp add: map_of_eq_None_iff)
    show ?thesis
    proof
      fix u
      show "get_task (move_task t src dst tm) u =
        ((get_task tm)(t := map_option (\<lambda>m. m\<lparr>tm_status := dst\<rparr>) (get_task tm t))) u"
        using m g new False
        by (auto simp: get_task_def move_task_def Let_def map_of_umap_insert split: option.splits)
    qed
  qed
qed

lemma erase_task_agree: "tm_agree tm \<Longrightarrow> tm_agree (erase_task t tm)"
proof (cases "task_status_of tm t")
  case (Some s)
  assume ok: "tm_agree tm"
  show ?thesis
  proof (rule tm_agreeI)
    show "umap_ok (buckets (erase_task t tm) s')" for s'
      using tm_agreeD(1) [OF ok] Some by (auto simp: erase_task_def)
    show "map_of (buckets (erase_task t tm) s') u \<noteq> None \<longleftrightarrow>
        task_status_of (erase_task t tm) u = Some s'" for s' u
      using tm_agreeD(2) [OF ok, of s' u] Some by (auto simp: erase_task_def)
    show "tm_status m = s' \<and> tm_task_id m = u"
      if "map_of (buckets (erase_task t tm) s') u = Some m" for s' u m
      using that tm_agreeD(3,4) [OF ok] Some by (auto simp: erase_task_def split: if_splits)
  qed
qed (simp add: erase_task_def)

lemma erase_task_get: "get_task (erase_task t tm) = (get_task tm)(t := None)"
proof
  fix u show "get_task (erase_task t tm) u = ((get_task tm)(t := None)) u"
    by (auto simp: get_task_def erase_task_def split: option.splits)
qed

lemma remove_is_erase: "tm_remove_task = erase_task"
  by (simp add: fun_eq_iff tm_remove_task_def erase_task_def)

lemma fold_erase_agree: "tm_agree tm \<Longrightarrow> tm_agree (fold erase_task ts tm)"
  by (induction ts arbitrary: tm) (simp_all add: erase_task_agree)

lemma fold_erase_get: "get_task (fold erase_task ts tm) = get_task tm |` (- set ts)"
  by (induction ts arbitrary: tm) (auto simp: erase_task_get restrict_map_def fun_eq_iff)

section \<open>Eviction\<close>

definition final_ids :: "(task_id \<rightharpoonup> task_metadata) \<Rightarrow> task_id set" where
  "final_ids M = {t. \<exists>m. M t = Some m \<and> is_final (tm_status m)}"

definition completion_time :: "(task_id \<rightharpoonup> task_metadata) \<Rightarrow> task_id \<Rightarrow> nat" where
  "completion_time M t = (case M t of None \<Rightarrow> 0 | Some m \<Rightarrow> tm_completed_at m)"

lemma final_ids_buckets:
  assumes "tm_agree tm"
  shows "final_ids (get_task tm) = fst ` set (buckets tm COMPLETED) \<union> fst ` set (buckets tm FAILED)"
proof -
  have "fst ` b = {t. \<exists>m. (t, m) \<in> b}" for b :: "(task_id \<times> task_metadata) set" by force
  then show ?thesis by (auto simp: final_ids_def is_final_def set_bucket [OF assms])
qed

lemma eviction_keys:
  "set (map fst (eviction_order tm)) = fst ` set (buckets tm COMPLETED) \<union> fst ` set (buckets tm FAILED)"
  by (force simp: eviction_order_def)

lemma eviction_distinct:
  assumes ok: "tm_agree tm"
  shows "distinct (map fst (eviction_order tm))"
proof -
  let ?c = "\<lambda>(t, m). (t, tm_completed_at m)"
  have fc: "map fst (map ?c xs) = map fst xs" for xs :: "(task_id \<times> task_metadata) list"
    by (induction xs) auto
  have "fst ` set (buckets tm COMPLETED) \<inter> fst ` set (buckets tm FAILED) = {}"
    by (force simp: set_bucket [OF ok])
  then have "distinct (map fst (map ?c (buckets tm COMPLETED) @ map ?c (buckets tm FAILED)))"
    using tm_agreeD(1) [OF ok] unfolding map_append fc by (simp add: umap_ok_def)
  moreover have "mset (map fst (eviction_order tm)) =
      mset (map fst (map ?c (buckets tm COMPLETED) @ map ?c (buckets tm FAILED)))"
    unfolding eviction_order_def mset_map mset_sort ..
  ultimately show ?thesis by (metis mset_eq_imp_distinct_iff)
qed

lemma terminal_count_card:
  assumes ok: "tm_agree tm"
  shows "terminal_count tm = card (final_ids (get_task tm))"
proof -
  have "length (map fst (eviction_order tm)) = terminal_count tm"
    by (simp add: eviction_order_def terminal_count_def)
  then show ?thesis
    using distinct_card [OF eviction_distinct [OF ok]] eviction_keys final_ids_buckets [OF ok] by simp
qed

lemma finite_final_ids: "tm_agree tm \<Longrightarrow> finite (final_ids (get_task tm))"
  by (simp add: final_ids_buckets)

lemma eviction_pairs:
  assumes ok: "tm_agree tm" and "(t, c) \<in> set (eviction_order tm)"
  shows "c = completion_time (get_task tm) t"
  using assms(2) by (auto simp: eviction_order_def set_bucket [OF ok] completion_time_def)

text \<open>The ids taken by one clean-up are the oldest finished ones.\<close>

definition evicted :: "task_manager \<Rightarrow> task_id list" where
  "evicted tm = map fst (take (terminal_count tm - kMaxCompletedTasks) (eviction_order tm))"

lemma cleanup_eq: "maybe_cleanup_completed tm = fold erase_task (evicted tm) tm"
  by (simp add: maybe_cleanup_completed_def evicted_def)

lemma cleanup_agree: "tm_agree tm \<Longrightarrow> tm_agree (maybe_cleanup_completed tm)"
  by (simp add: cleanup_eq fold_erase_agree)

lemma cleanup_get: "get_task (maybe_cleanup_completed tm) = get_task tm |` (- set (evicted tm))"
  by (simp add: cleanup_eq fold_erase_get)

lemma evicted_final: "tm_agree tm \<Longrightarrow> set (evicted tm) \<subseteq> final_ids (get_task tm)"
  using eviction_keys [of tm] final_ids_buckets [of tm]
  by (auto simp: evicted_def dest!: in_set_takeD)

lemma evicted_card:
  assumes ok: "tm_agree tm"
  shows "card (set (evicted tm)) = terminal_count tm - kMaxCompletedTasks"
proof -
  have "distinct (evicted tm)"
    unfolding evicted_def take_map [symmetric] by (rule distinct_take) (rule eviction_distinct [OF ok])
  then have "card (set (evicted tm)) = length (evicted tm)" by (rule distinct_card)
  then show ?thesis
    by (simp add: evicted_def eviction_order_def terminal_count_def)
qed

lemma evicted_oldest:
  assumes ok: "tm_agree tm" and t: "t \<in> set (evicted tm)"
    and u: "u \<in> final_ids (get_task tm)" "u \<notin> set (evicted tm)"
  shows "completion_time (get_task tm) t \<le> completion_time (get_task tm) u"
proof -
  let ?n = "terminal_count tm - kMaxCompletedTasks" and ?xs = "eviction_order tm"
  obtain c where c: "(t, c) \<in> set (take ?n ?xs)" using t by (auto simp: evicted_def)
  have "u \<in> set (map fst ?xs)" using u(1) eviction_keys final_ids_buckets [OF ok] by simp
  then obtain d where d: "(u, d) \<in> set ?xs" by auto
  have "(u, d) \<notin> set (take ?n ?xs)" using u(2) by (force simp: evicted_def)
  then have d': "(u, d) \<in> set (drop ?n ?xs)" using d by (metis Un_iff append_take_drop_id set_append)
  have "sorted (map snd (take ?n ?xs @ drop ?n ?xs))" by (simp add: eviction_order_def)
  then have "\<forall>x \<in> set (take ?n ?xs). \<forall>y \<in> set (drop ?n ?xs). snd x \<le> snd y"
    unfolding map_append sorted_append by simp
  then have "c \<le> d" using c d' by fastforce
  then show ?thesis
    using eviction_pairs [OF ok] c d in_set_takeD by metis
qed

lemma final_ids_restrict: "final_ids (M |` (- E)) = final_ids M - E"
  by (auto simp: final_ids_def restrict_map_def)

lemma cleanup_bound:
  assumes ok: "tm_agree tm"
  shows "terminal_count (maybe_cleanup_completed tm) = min (terminal_count tm) kMaxCompletedTasks"
proof -
  have "card (final_ids (get_task tm) - set (evicted tm)) =
      terminal_count tm - (terminal_count tm - kMaxCompletedTasks)"
    using evicted_card [OF ok] evicted_final [OF ok] terminal_count_card [OF ok]
    by (simp add: card_Diff_subset)
  then show ?thesis
    using terminal_count_card [OF cleanup_agree [OF ok]]
    by (simp add: cleanup_get final_ids_restrict)
qed

section \<open>The table as a component\<close>

datatype tm_op =
    CreateTask nat task_id task_submission_spec string
  | UpdateTaskStatus nat task_id task_status
  | SetError task_id string
  | SetAssignedWorker task_id worker_id
  | SetTimestamps task_id nat nat nat
  | SetWriteContextHash task_id string
  | FailTask nat task_id string
  | AssignTask nat task_id worker_id
  | UnassignTask task_id
  | TmRemoveTask task_id

fun tm_exec :: "tm_op \<Rightarrow> task_manager \<Rightarrow> task_manager option" where
  "tm_exec (CreateTask now t spec config) tm = create_task now t spec config tm"
| "tm_exec (UpdateTaskStatus now t s) tm = Some (update_task_status now t s tm)"
| "tm_exec (SetError t e) tm = Some (set_error t e tm)"
| "tm_exec (SetAssignedWorker t w) tm = Some (set_assigned_worker t w tm)"
| "tm_exec (SetTimestamps t a b c) tm = Some (set_timestamps t a b c tm)"
| "tm_exec (SetWriteContextHash t h) tm = Some (set_write_context_hash t h tm)"
| "tm_exec (FailTask now t e) tm = Some (fail_task now t e tm)"
| "tm_exec (AssignTask now t w) tm = Some (tm_assign_task now t w tm)"
| "tm_exec (UnassignTask t) tm = Some (unassign_task t tm)"
| "tm_exec (TmRemoveTask t) tm = Some (tm_remove_task t tm)"

text \<open>
  The abstract table: a map from ids to metadata with one update per operation, and no buckets,
  index or eviction.
\<close>

definition on_task ::
  "task_id \<Rightarrow> (task_metadata \<Rightarrow> task_metadata) \<Rightarrow> (task_id \<rightharpoonup> task_metadata) \<Rightarrow> (task_id \<rightharpoonup> task_metadata)"
where
  "on_task t f M = M(t := map_option f (M t))"

fun tm_spec :: "tm_op \<Rightarrow> (task_id \<rightharpoonup> task_metadata) \<Rightarrow> (task_id \<rightharpoonup> task_metadata)" where
  "tm_spec (CreateTask now t spec config) M =
     M(t \<mapsto> \<lparr>tm_task_id = t, tm_submission = spec, tm_status = PENDING, tm_config = config,
              tm_created_at = now, tm_started_at = 0, tm_completed_at = 0,
              tm_error_message = '''', tm_assigned_worker_id = 0\<rparr>)"
| "tm_spec (UpdateTaskStatus now t s) M = on_task t
     (\<lambda>m. if tm_status m = s then m
          else m\<lparr>tm_status := s,
                 tm_started_at :=
                   (if s = RUNNING \<and> tm_started_at m = 0 then now else tm_started_at m),
                 tm_completed_at := (if is_final s then now else tm_completed_at m)\<rparr>) M"
| "tm_spec (SetError t e) M = on_task t (\<lambda>m. m\<lparr>tm_error_message := e\<rparr>) M"
| "tm_spec (SetAssignedWorker t w) M = on_task t (\<lambda>m. m\<lparr>tm_assigned_worker_id := w\<rparr>) M"
| "tm_spec (SetTimestamps t a b c) M = on_task t
     (\<lambda>m. m\<lparr>tm_created_at := (if a \<noteq> 0 then a else tm_created_at m),
            tm_started_at := (if b \<noteq> 0 then b else tm_started_at m),
            tm_completed_at := (if c \<noteq> 0 then c else tm_completed_at m)\<rparr>) M"
| "tm_spec (SetWriteContextHash t h) M = on_task t
     (\<lambda>m. m\<lparr>tm_submission := (tm_submission m)\<lparr>ts_write_context_hash := h\<rparr>\<rparr>) M"
| "tm_spec (FailTask now t e) M = on_task t
     (\<lambda>m. if tm_status m = FAILED then m\<lparr>tm_error_message := e\<rparr>
          else m\<lparr>tm_error_message := e, tm_completed_at := now, tm_status := FAILED\<rparr>) M"
| "tm_spec (AssignTask now t w) M = on_task t
     (\<lambda>m. m\<lparr>tm_assigned_worker_id := w, tm_status := RUNNING,
            tm_started_at := (if tm_started_at m = 0 then now else tm_started_at m)\<rparr>) M"
| "tm_spec (UnassignTask t) M = on_task t
     (\<lambda>m. m\<lparr>tm_assigned_worker_id := 0, tm_status := PENDING\<rparr>) M"
| "tm_spec (TmRemoveTask t) M = M(t := None)"

lemma on_task_None: "M t = None \<Longrightarrow> on_task t f M = M"
  by (simp add: on_task_def fun_upd_idem)

lemma get_modify:
  "tm_agree tm \<Longrightarrow> task_status_of tm t = Some s \<Longrightarrow>
     get_task (modify_meta s t f tm) = on_task t f (get_task tm)"
  by (simp add: modify_meta_get on_task_def)

lemma get_move:
  "tm_agree tm \<Longrightarrow> task_status_of tm t = Some s \<Longrightarrow>
     get_task (move_task t s dst tm) = on_task t (\<lambda>m. m\<lparr>tm_status := dst\<rparr>) (get_task tm)"
  by (simp add: move_task_get on_task_def)

lemma on_task_on_task: "on_task t f (on_task t g M) = on_task t (f \<circ> g) M"
  by (simp add: on_task_def option.map_comp)

lemma on_task_cong: "(\<And>m. M t = Some m \<Longrightarrow> f m = g m) \<Longrightarrow> on_task t f M = on_task t g M"
  unfolding on_task_def by (cases "M t") auto

text \<open>
  Eviction on the map: when more than \<open>kMaxCompletedTasks\<close> tasks are finished, exactly the
  excess goes, and what goes finished no later than what stays.
\<close>

definition evicts_to ::
  "(task_id \<rightharpoonup> task_metadata) \<Rightarrow> (task_id \<rightharpoonup> task_metadata) \<Rightarrow> bool" where
  "evicts_to M M' \<longleftrightarrow> (\<exists>E. M' = M |` (- E) \<and> E \<subseteq> final_ids M \<and>
     card E = card (final_ids M) - kMaxCompletedTasks \<and>
     (\<forall>t \<in> E. \<forall>u \<in> final_ids M - E. completion_time M t \<le> completion_time M u))"

lemma cleanup_evicts_to:
  assumes "tm_agree tm"
  shows "evicts_to (get_task tm) (get_task (maybe_cleanup_completed tm))"
  unfolding evicts_to_def
  using cleanup_get [of tm] evicted_final [OF assms] evicted_card [OF assms]
    terminal_count_card [OF assms] evicted_oldest [OF assms]
  by (intro exI [of _ "set (evicted tm)"]) auto

definition tm_inv :: "task_manager \<Rightarrow> bool" where
  "tm_inv tm \<longleftrightarrow> tm_agree tm \<and> terminal_count tm \<le> kMaxCompletedTasks"

lemma evicts_to_refl: "card (final_ids M) \<le> kMaxCompletedTasks \<Longrightarrow> evicts_to M M"
  unfolding evicts_to_def by (intro exI [of _ "{}"]) auto

lemma move_modify:
  assumes ok: "tm_agree tm" and st: "task_status_of tm t = Some s"
    and f: "\<And>m. tm_status (f m) = tm_status m" "\<And>m. tm_task_id (f m) = tm_task_id m"
  shows "tm_agree (move_task t s dst (modify_meta s t f tm))"
    and "get_task (move_task t s dst (modify_meta s t f tm)) =
      on_task t (\<lambda>m. (f m)\<lparr>tm_status := dst\<rparr>) (get_task tm)"
  using modify_meta_agree [OF ok f] st
  by (simp_all add: move_task_agree get_move get_modify [OF ok st] on_task_on_task comp_def)

lemma settle:
  assumes "tm_inv tm" and "tm_agree tm'" and "get_task tm' = M" and "final_ids M \<subseteq> final_ids (get_task tm)"
  shows "tm_inv tm' \<and> evicts_to M (get_task tm')"
proof -
  have ok: "tm_agree tm" using assms(1) by (simp add: tm_inv_def)
  have "card (final_ids M) \<le> card (final_ids (get_task tm))"
    by (rule card_mono [OF finite_final_ids [OF ok] assms(4)])
  then have "card (final_ids M) \<le> kMaxCompletedTasks"
    using assms(1) terminal_count_card [OF ok] by (simp add: tm_inv_def)
  then show ?thesis
    using assms(2,3) terminal_count_card [OF assms(2)] by (simp add: tm_inv_def evicts_to_refl)
qed

lemma settle_cleanup:
  assumes "tm_agree tm1" and "get_task tm1 = M"
  shows "tm_inv (maybe_cleanup_completed tm1) \<and> evicts_to M (get_task (maybe_cleanup_completed tm1))"
  using cleanup_agree [OF assms(1)] cleanup_bound [OF assms(1)] cleanup_evicts_to [OF assms(1)] assms(2)
  by (simp add: tm_inv_def)

lemma final_ids_on_task:
  "(\<And>m. is_final (tm_status (f m)) \<Longrightarrow> is_final (tm_status m)) \<Longrightarrow>
     final_ids (on_task t f M) \<subseteq> final_ids M"
  by (auto simp: final_ids_def on_task_def split: if_splits)

lemma settle_None:
  assumes "tm_inv tm" and "task_status_of tm t = None"
  shows "tm_inv tm \<and> evicts_to (on_task t f (get_task tm)) (get_task tm)"
proof -
  have "get_task tm t = None" using assms(2) by (simp add: get_task_def)
  then show ?thesis using settle [OF assms(1), of tm] assms(1) by (simp add: on_task_None tm_inv_def)
qed

lemma settle_modify:
  assumes inv: "tm_inv tm" and st: "task_status_of tm t = Some s"
    and f: "\<And>m. tm_status (f m) = tm_status m" "\<And>m. tm_task_id (f m) = tm_task_id m"
  shows "tm_inv (modify_meta s t f tm) \<and>
    evicts_to (on_task t f (get_task tm)) (get_task (modify_meta s t f tm))"
proof (rule settle [OF inv])
  have ok: "tm_agree tm" using inv by (simp add: tm_inv_def)
  show "tm_agree (modify_meta s t f tm)" by (rule modify_meta_agree [OF ok f])
  show "get_task (modify_meta s t f tm) = on_task t f (get_task tm)" by (rule get_modify [OF ok st])
  show "final_ids (on_task t f (get_task tm)) \<subseteq> final_ids (get_task tm)"
    by (rule final_ids_on_task) (simp add: f)
qed

lemma settle_create:
  assumes inv: "tm_inv tm" and cr: "create_task now t spec config tm = Some tm'"
  shows "tm_inv tm' \<and> evicts_to (tm_spec (CreateTask now t spec config) (get_task tm)) (get_task tm')"
proof (rule settle [OF inv])
  have ok: "tm_agree tm" using inv by (simp add: tm_inv_def)
  have st: "task_status_of tm t = None" using cr by (simp add: create_task_def split: if_splits)
  have none: "map_of (buckets tm s) t = None" for s using tm_agreeD(2) [OF ok, of s t] st by simp
  then have new: "t \<notin> fst ` set (buckets tm PENDING)" by (simp add: map_of_eq_None_iff [symmetric])
  have bk: "map_of (buckets tm' s) = (if s = PENDING then (map_of (buckets tm s))(t \<mapsto>
      \<lparr>tm_task_id = t, tm_submission = spec, tm_status = PENDING, tm_config = config,
       tm_created_at = now, tm_started_at = 0, tm_completed_at = 0,
       tm_error_message = '''', tm_assigned_worker_id = 0\<rparr>) else map_of (buckets tm s))" for s
    using cr st new by (auto simp: create_task_def Let_def map_of_umap_insert)
  have st': "task_status_of tm' = (task_status_of tm)(t \<mapsto> PENDING)"
    using cr st by (auto simp: create_task_def Let_def)
  show "tm_agree tm'"
  proof (rule tm_agreeI)
    show "umap_ok (buckets tm' s)" for s
      using cr st tm_agreeD(1) [OF ok] umap_ok_insert [OF tm_agreeD(1) [OF ok, of PENDING]]
      by (auto simp: create_task_def Let_def)
    show "map_of (buckets tm' s) u \<noteq> None \<longleftrightarrow> task_status_of tm' u = Some s" for s u
      using tm_agreeD(2) [OF ok, of s u] none by (auto simp: bk st')
    show "tm_status m = s \<and> tm_task_id m = u" if "map_of (buckets tm' s) u = Some m" for s u m
      using that tm_agreeD(3,4) [OF ok] by (auto simp: bk split: if_splits)
  qed
  show "get_task tm' = tm_spec (CreateTask now t spec config) (get_task tm)"
    by (auto simp: fun_eq_iff get_task_def st' bk split: option.splits)
  show "final_ids (tm_spec (CreateTask now t spec config) (get_task tm)) \<subseteq> final_ids (get_task tm)"
    by (auto simp: final_ids_def is_final_def)
qed

lemma found_in_bucket:
  assumes "tm_inv tm" and "task_status_of tm t = Some s"
  obtains m where "map_of (buckets tm s) t = Some m" "get_task tm t = Some m" "tm_status m = s"
proof -
  have ok: "tm_agree tm" using assms(1) by (simp add: tm_inv_def)
  obtain m where "map_of (buckets tm s) t = Some m" using tm_agreeD(2) [OF ok, of s t] assms(2) by auto
  then show ?thesis using that bucket_get_task [OF ok] by blast
qed

lemma settle_move:
  assumes inv: "tm_inv tm" and st: "task_status_of tm t = Some s" and nf: "\<not> is_final dst"
    and f: "\<And>m. tm_status (f m) = tm_status m" "\<And>m. tm_task_id (f m) = tm_task_id m"
    and g: "\<And>m. get_task tm t = Some m \<Longrightarrow> g m = (f m)\<lparr>tm_status := dst\<rparr>"
  shows "tm_inv (move_task t s dst (modify_meta s t f tm)) \<and>
    evicts_to (on_task t g (get_task tm)) (get_task (move_task t s dst (modify_meta s t f tm)))"
proof (rule settle [OF inv])
  have ok: "tm_agree tm" using inv by (simp add: tm_inv_def)
  have eq: "on_task t g (get_task tm) = on_task t (\<lambda>m. (f m)\<lparr>tm_status := dst\<rparr>) (get_task tm)"
    by (rule on_task_cong) (rule g)
  show "tm_agree (move_task t s dst (modify_meta s t f tm))" by (rule move_modify(1) [OF ok st f])
  show "get_task (move_task t s dst (modify_meta s t f tm)) = on_task t g (get_task tm)"
    unfolding eq by (rule move_modify(2) [OF ok st f])
  show "final_ids (on_task t g (get_task tm)) \<subseteq> final_ids (get_task tm)"
    unfolding eq by (rule final_ids_on_task) (simp add: nf)
qed

lemma settle_finish:
  assumes inv: "tm_inv tm" and st: "task_status_of tm t = Some s"
    and f: "\<And>m. tm_status (f m) = tm_status m" "\<And>m. tm_task_id (f m) = tm_task_id m"
    and g: "\<And>m. get_task tm t = Some m \<Longrightarrow> g m = (f m)\<lparr>tm_status := dst\<rparr>"
  shows "tm_inv (maybe_cleanup_completed (move_task t s dst (modify_meta s t f tm))) \<and>
    evicts_to (on_task t g (get_task tm))
      (get_task (maybe_cleanup_completed (move_task t s dst (modify_meta s t f tm))))"
proof (rule settle_cleanup)
  have ok: "tm_agree tm" using inv by (simp add: tm_inv_def)
  show "tm_agree (move_task t s dst (modify_meta s t f tm))" by (rule move_modify(1) [OF ok st f])
  have "on_task t g (get_task tm) = on_task t (\<lambda>m. (f m)\<lparr>tm_status := dst\<rparr>) (get_task tm)"
    by (rule on_task_cong) (rule g)
  then show "get_task (move_task t s dst (modify_meta s t f tm)) = on_task t g (get_task tm)"
    using move_modify(2) [OF ok st f] by simp
qed

lemma settle_update:
  assumes inv: "tm_inv tm"
  shows "tm_inv (update_task_status now t s tm) \<and>
    evicts_to (tm_spec (UpdateTaskStatus now t s) (get_task tm)) (get_task (update_task_status now t s tm))"
proof (cases "task_status_of tm t")
  case None
  then show ?thesis using settle_None [OF inv None] by (simp add: update_task_status_def)
next
  case (Some old)
  obtain m where m: "map_of (buckets tm old) t = Some m" "get_task tm t = Some m" "tm_status m = old"
    by (rule found_in_bucket [OF inv Some])
  show ?thesis
  proof (cases "old = s")
    case True
    have "tm_spec (UpdateTaskStatus now t s) (get_task tm) = get_task tm"
      using m True by (simp add: on_task_def fun_upd_idem)
    then show ?thesis
      using settle [OF inv, of tm] inv Some True by (simp add: update_task_status_def tm_inv_def)
  next
    case False
    let ?f = "(\<lambda>m. if is_final s then m\<lparr>tm_completed_at := now\<rparr> else m) \<circ>
      (\<lambda>m. if s = RUNNING \<and> tm_started_at m = 0 then m\<lparr>tm_started_at := now\<rparr> else m)"
    let ?tm = "move_task t old s (modify_meta old t ?f tm)"
    have eq: "update_task_status now t s tm = (if is_final s then maybe_cleanup_completed ?tm else ?tm)"
      using False m Some by (simp add: update_task_status_def Let_def)
    have f: "tm_status (?f m) = tm_status m" "tm_task_id (?f m) = tm_task_id m" for m by simp_all
    have g: "(if tm_status m = s then m else m\<lparr>tm_status := s, tm_started_at :=
          (if s = RUNNING \<and> tm_started_at m = 0 then now else tm_started_at m),
        tm_completed_at := (if is_final s then now else tm_completed_at m)\<rparr>) = (?f m)\<lparr>tm_status := s\<rparr>"
      if "get_task tm t = Some m" for m using that m False by auto
    have move: "\<not> is_final s \<Longrightarrow> tm_inv ?tm \<and>
        evicts_to (tm_spec (UpdateTaskStatus now t s) (get_task tm)) (get_task ?tm)"
      unfolding tm_spec.simps by (rule settle_move [OF inv Some _ f g])
    have "tm_inv (maybe_cleanup_completed ?tm) \<and>
        evicts_to (tm_spec (UpdateTaskStatus now t s) (get_task tm)) (get_task (maybe_cleanup_completed ?tm))"
      unfolding tm_spec.simps by (rule settle_finish [OF inv Some f g])
    then show ?thesis using move unfolding eq by presburger
  qed
qed

lemma settle_fail:
  assumes inv: "tm_inv tm"
  shows "tm_inv (fail_task now t e tm) \<and>
    evicts_to (tm_spec (FailTask now t e) (get_task tm)) (get_task (fail_task now t e tm))"
proof (cases "task_status_of tm t")
  case None
  then show ?thesis using settle_None [OF inv None] by (simp add: fail_task_def)
next
  case (Some old)
  obtain m where m: "map_of (buckets tm old) t = Some m" "get_task tm t = Some m" "tm_status m = old"
    by (rule found_in_bucket [OF inv Some])
  show ?thesis
  proof (cases "old = FAILED")
    case True
    have "tm_spec (FailTask now t e) (get_task tm) =
        on_task t (\<lambda>m. m\<lparr>tm_error_message := e\<rparr>) (get_task tm)"
      using m True by (simp add: on_task_def)
    then show ?thesis
      using settle_modify [OF inv Some, of "\<lambda>m. m\<lparr>tm_error_message := e\<rparr>"] Some True
      by (simp add: fail_task_def)
  next
    case False
    let ?f = "\<lambda>m. m\<lparr>tm_error_message := e, tm_completed_at := now\<rparr>"
    have eq: "fail_task now t e tm =
        maybe_cleanup_completed (move_task t old FAILED (modify_meta old t ?f tm))"
      using False m Some by (simp add: fail_task_def)
    show ?thesis
      unfolding eq tm_spec.simps by (rule settle_finish [OF inv Some]) (use m False in auto)
  qed
qed

lemma settle_assign:
  assumes inv: "tm_inv tm"
  shows "tm_inv (tm_assign_task now t w tm) \<and>
    evicts_to (tm_spec (AssignTask now t w) (get_task tm)) (get_task (tm_assign_task now t w tm))"
proof (cases "task_status_of tm t")
  case (Some old)
  obtain m where "map_of (buckets tm old) t = Some m" by (rule found_in_bucket [OF inv Some])
  then have eq: "tm_assign_task now t w tm = move_task t old RUNNING (modify_meta old t
      (\<lambda>m. m\<lparr>tm_assigned_worker_id := w,
        tm_started_at := (if tm_started_at m = 0 then now else tm_started_at m)\<rparr>) tm)"
    using Some by (simp add: tm_assign_task_def)
  show ?thesis
    unfolding eq tm_spec.simps by (rule settle_move [OF inv Some]) (auto simp: is_final_def)
qed (use settle_None [OF inv] in \<open>simp add: tm_assign_task_def\<close>)

lemma settle_unassign:
  assumes inv: "tm_inv tm"
  shows "tm_inv (unassign_task t tm) \<and>
    evicts_to (tm_spec (UnassignTask t) (get_task tm)) (get_task (unassign_task t tm))"
proof (cases "task_status_of tm t")
  case (Some old)
  obtain m where "map_of (buckets tm old) t = Some m" by (rule found_in_bucket [OF inv Some])
  then have eq: "unassign_task t tm =
      move_task t old PENDING (modify_meta old t (\<lambda>m. m\<lparr>tm_assigned_worker_id := 0\<rparr>) tm)"
    using Some by (simp add: unassign_task_def)
  show ?thesis
    unfolding eq tm_spec.simps by (rule settle_move [OF inv Some]) (auto simp: is_final_def)
qed (use settle_None [OF inv] in \<open>simp add: unassign_task_def\<close>)

lemma settle_remove:
  assumes inv: "tm_inv tm"
  shows "tm_inv (tm_remove_task t tm) \<and>
    evicts_to (tm_spec (TmRemoveTask t) (get_task tm)) (get_task (tm_remove_task t tm))"
proof (rule settle [OF inv])
  show "tm_agree (tm_remove_task t tm)"
    using inv by (simp add: remove_is_erase erase_task_agree tm_inv_def)
  show "get_task (tm_remove_task t tm) = tm_spec (TmRemoveTask t) (get_task tm)"
    by (simp add: remove_is_erase erase_task_get)
  show "final_ids (tm_spec (TmRemoveTask t) (get_task tm)) \<subseteq> final_ids (get_task tm)"
    by (auto simp: final_ids_def split: if_splits)
qed

lemma settle_setter:
  assumes inv: "tm_inv tm"
    and f: "\<And>m. tm_status (f m) = tm_status m" "\<And>m. tm_task_id (f m) = tm_task_id m"
    and tm': "tm' = (case task_status_of tm t of None \<Rightarrow> tm | Some s \<Rightarrow> modify_meta s t f tm)"
  shows "tm_inv tm' \<and> evicts_to (on_task t f (get_task tm)) (get_task tm')"
  using settle_None [OF inv, of t f] settle_modify [OF inv _ f, of t] tm'
  by (auto split: option.splits)

lemma tm_exec_step:
  assumes inv: "tm_inv tm" and ex: "tm_exec op tm = Some tm'"
  shows "tm_inv tm' \<and> evicts_to (tm_spec op (get_task tm)) (get_task tm')"
proof (cases op)
  case (CreateTask now t spec config)
  then show ?thesis using settle_create [OF inv] ex by simp
next
  case (UpdateTaskStatus now t s)
  then show ?thesis using settle_update [OF inv, of now t s] ex by (simp del: tm_spec.simps)
next
  case (SetError t e)
  have "tm' = set_error t e tm" using ex SetError by simp
  then show ?thesis
    unfolding SetError tm_spec.simps set_error_def by (rule settle_setter [OF inv, rotated 2]) simp_all
next
  case (SetAssignedWorker t w)
  have "tm' = set_assigned_worker t w tm" using ex SetAssignedWorker by simp
  then show ?thesis
    unfolding SetAssignedWorker tm_spec.simps set_assigned_worker_def
    by (rule settle_setter [OF inv, rotated 2]) simp_all
next
  case (SetTimestamps t a b c)
  have "tm' = set_timestamps t a b c tm" using ex SetTimestamps by simp
  then show ?thesis
    unfolding SetTimestamps tm_spec.simps set_timestamps_def
    by (rule settle_setter [OF inv, rotated 2]) simp_all
next
  case (SetWriteContextHash t h)
  have "tm' = set_write_context_hash t h tm" using ex SetWriteContextHash by simp
  then show ?thesis
    unfolding SetWriteContextHash tm_spec.simps set_write_context_hash_def
    by (rule settle_setter [OF inv, rotated 2]) simp_all
next
  case (FailTask now t e)
  then show ?thesis using settle_fail [OF inv, of now t e] ex by (simp del: tm_spec.simps)
next
  case (AssignTask now t w)
  then show ?thesis using settle_assign [OF inv, of now t w] ex by (simp del: tm_spec.simps)
next
  case (UnassignTask t)
  then show ?thesis using settle_unassign [OF inv, of t] ex by (simp del: tm_spec.simps)
next
  case (TmRemoveTask t)
  then show ?thesis using settle_remove [OF inv, of t] ex by (simp del: tm_spec.simps)
qed

lemma empty_tm_inv: "tm_inv empty_task_manager"
  by (simp add: tm_inv_def tm_agree_def empty_task_manager_def terminal_count_def)

interpretation tm_all: component_invariant tm_exec any_op empty_task_manager tm_inv
  by unfold_locales (simp add: empty_tm_inv, use tm_exec_step in blast)

section \<open>Properties\<close>

definition demo_spec :: task_submission_spec where
  "demo_spec = \<lparr>ts_name = ''t'', ts_module = ''m'', ts_args = [], ts_inputs = [], ts_outputs = [],
     ts_required_capabilities = [], ts_attribute_timeout = -1, ts_priority = 10,
     ts_write_context_hash = '''', ts_vars = [], ts_owner_db_path = ''/db''\<rparr>"

definition demo_tm_ops :: "tm_op list" where
  "demo_tm_ops = [CreateTask 5 7 demo_spec ''{}'', CreateTask 6 8 demo_spec ''{}'', AssignTask 9 7 3,
     FailTask 11 8 ''boom'', UpdateTaskStatus 12 7 COMPLETED]"

text \<open>
  C4: The task table implements a plain map from ids to metadata.  In every reachable state, an
  operation changes the map that \<open>get_task\<close> observes exactly as the specification of that
  operation says, except that the finished tasks beyond \<open>kMaxCompletedTasks\<close> are evicted: exactly
  the excess goes, and no evicted task finished later than one that stays.
\<close>

theorem tm_refines_map:
  assumes "reachable_by tm_exec any_op empty_task_manager tm" and "tm_exec op tm = Some tm'"
  shows "evicts_to (tm_spec op (get_task tm)) (get_task tm')"
  using tm_exec_step [OF tm_all.reachable_inv [OF assms(1)] assms(2)] by simp

theorem tm_refines_map_witness:
  "\<exists>tm tm'. run_ops tm_exec any_op (take 4 demo_tm_ops) empty_task_manager = Some tm \<and>
     tm_exec (UpdateTaskStatus 12 7 COMPLETED) tm = Some tm' \<and>
     map_option tm_completed_at (get_task tm' 7) = Some 12 \<and>
     evicts_to (tm_spec (UpdateTaskStatus 12 7 COMPLETED) (get_task tm)) (get_task tm')"
proof -
  let ?op = "UpdateTaskStatus 12 7 COMPLETED"
  have "(case run_ops tm_exec any_op (take 4 demo_tm_ops) empty_task_manager of None \<Rightarrow> None
      | Some tm \<Rightarrow> map_option (\<lambda>tm'. map_option tm_completed_at (get_task tm' 7)) (tm_exec ?op tm))
    = Some (Some 12)" by code_simp
  then obtain tm tm' where *: "run_ops tm_exec any_op (take 4 demo_tm_ops) empty_task_manager = Some tm"
      "tm_exec ?op tm = Some tm'" and "map_option tm_completed_at (get_task tm' 7) = Some 12"
    by (auto simp del: tm_exec.simps split: option.splits)
  then show ?thesis
    using tm_refines_map [OF reachable_run_ops [OF reachable_by.reach_init *(1)] *(2)] by blast
qed

text \<open>
  In every reachable state of the task table the per-status queries agree with the metadata:
  each status lists, without repetition, exactly the ids whose metadata carries that status, the
  worker query lists the running tasks of that worker, and at most \<open>kMaxCompletedTasks\<close> finished
  tasks are held.
\<close>

theorem tm_queries_agree:
  assumes "reachable_by tm_exec any_op empty_task_manager tm"
  shows "distinct (get_task_ids_by_status tm s) \<and>
    set (get_task_ids_by_status tm s) = {t. \<exists>m. get_task tm t = Some m \<and> tm_status m = s} \<and>
    set (get_task_ids_by_worker tm w) =
      {t. \<exists>m. get_task tm t = Some m \<and> tm_status m = RUNNING \<and> tm_assigned_worker_id m = w} \<and>
    count_tasks_by_status tm COMPLETED + count_tasks_by_status tm FAILED \<le> kMaxCompletedTasks"
proof -
  have inv: "tm_inv tm" by (rule tm_all.reachable_inv [OF assms])
  then have ok: "tm_agree tm" by (simp add: tm_inv_def)
  have img: "fst ` b = {t. \<exists>m. (t, m) \<in> b}" for b :: "(task_id \<times> task_metadata) set" by force
  show ?thesis
    using inv tm_agreeD(1) [OF ok, of s]
    by (auto simp: get_task_ids_by_status_def get_task_ids_by_worker_def count_tasks_by_status_def
      img set_bucket [OF ok] umap_ok_def tm_inv_def terminal_count_def)
qed

theorem tm_queries_agree_witness:
  "\<exists>tm. run_ops tm_exec any_op demo_tm_ops empty_task_manager = Some tm \<and>
     get_task_ids_by_status tm COMPLETED = [7] \<and> get_task tm 7 \<noteq> None"
proof -
  have "map_option (\<lambda>tm. get_task_ids_by_status tm COMPLETED)
      (run_ops tm_exec any_op demo_tm_ops empty_task_manager) = Some [7]" by code_simp
  then obtain tm where r: "run_ops tm_exec any_op demo_tm_ops empty_task_manager = Some tm"
    and ids: "get_task_ids_by_status tm COMPLETED = [7]" by auto
  have "7 \<in> set (get_task_ids_by_status tm COMPLETED)" by (simp add: ids)
  then have "7 \<in> {t. \<exists>m. get_task tm t = Some m \<and> tm_status m = COMPLETED}"
    using tm_queries_agree [OF reachable_run_ops [OF reachable_by.reach_init r], of COMPLETED 0] by blast
  then show ?thesis using r ids by auto
qed

end
