(* ===== verification/Geometry.thy ===== *)
theory Geometry
  imports Fly_Prelude
begin

text \<open>
  Integer geometry of src/geometry/cpp/geometry_types.h and transform.h, and the placement rule of
  src/emir/design/cpp/ds_transform_util.h.  Coordinates are unbounded integers; the bounds under
  which the 32-bit instantiation computes the same values are a theorem.  \<open>None\<close> is a failed
  debug assertion.
\<close>

section \<open>Points, rectangles, polygons\<close>

record geo_point =
  px :: int
  py :: int

record geo_rect =
  x_low :: int
  y_low :: int
  x_high :: int
  y_high :: int

type_synonym geo_polygon = "geo_point list"

definition mk_point :: "int \<Rightarrow> int \<Rightarrow> geo_point" where
  "mk_point x y = \<lparr>px = x, py = y\<rparr>"

definition mk_rect :: "int \<Rightarrow> int \<Rightarrow> int \<Rightarrow> int \<Rightarrow> geo_rect" where
  "mk_rect xl yl xh yh = \<lparr>x_low = xl, y_low = yl, x_high = xh, y_high = yh\<rparr>"

definition width :: "geo_rect \<Rightarrow> int option" where
  "width r = (if x_high r \<ge> x_low r then Some (x_high r - x_low r) else None)"

definition height :: "geo_rect \<Rightarrow> int option" where
  "height r = (if y_high r \<ge> y_low r then Some (y_high r - y_low r) else None)"

definition area_int :: "geo_rect \<Rightarrow> int option" where
  "area_int r = (case width r of None \<Rightarrow> None | Some w \<Rightarrow> map_option (\<lambda>h. w * h) (height r))"

definition low_left :: "geo_rect \<Rightarrow> geo_point" where
  "low_left r = mk_point (x_low r) (y_low r)"

definition high_right :: "geo_rect \<Rightarrow> geo_point" where
  "high_right r = mk_point (x_high r) (y_high r)"

definition contains :: "geo_rect \<Rightarrow> geo_point \<Rightarrow> bool" where
  "contains r p \<longleftrightarrow> x_low r \<le> px p \<and> px p < x_high r \<and> y_low r \<le> py p \<and> py p < y_high r"

definition overlaps :: "geo_rect \<Rightarrow> geo_rect \<Rightarrow> bool" where
  "overlaps a b \<longleftrightarrow> x_low a < x_high b \<and> x_low b < x_high a \<and> y_low a < y_high b \<and> y_low b < y_high a"

definition bbox_step :: "geo_point \<Rightarrow> geo_rect \<Rightarrow> geo_rect" where
  "bbox_step p r = mk_rect (min (x_low r) (px p)) (min (y_low r) (py p))
     (max (x_high r) (px p)) (max (y_high r) (py p))"

definition bbox :: "geo_polygon \<Rightarrow> geo_rect option" where
  "bbox ps =
     (case ps of [] \<Rightarrow> None
      | p # _ \<Rightarrow> Some (fold bbox_step ps (mk_rect (px p) (py p) (px p) (py p))))"

section \<open>Orientations and transforms\<close>

text \<open>The eight orientations with the codes of the DEF reader.\<close>

datatype orientation = N | W | S | E | FN | FW | FS | FE

fun orient_code :: "orientation \<Rightarrow> nat" where
  "orient_code N = 0"
| "orient_code W = 1"
| "orient_code S = 2"
| "orient_code E = 3"
| "orient_code FN = 4"
| "orient_code FW = 5"
| "orient_code FS = 6"
| "orient_code FE = 7"

fun rotate_point :: "int \<Rightarrow> int \<Rightarrow> orientation \<Rightarrow> geo_point" where
  "rotate_point x y N = mk_point x y"
| "rotate_point x y W = mk_point (- y) x"
| "rotate_point x y S = mk_point (- x) (- y)"
| "rotate_point x y E = mk_point y (- x)"
| "rotate_point x y FN = mk_point (- x) y"
| "rotate_point x y FW = mk_point y x"
| "rotate_point x y FS = mk_point x (- y)"
| "rotate_point x y FE = mk_point (- y) (- x)"

definition k_orient_mul :: "orientation list list" where
  "k_orient_mul =
     [[N, W, S, E, FN, FW, FS, FE],
      [W, S, E, N, FE, FN, FW, FS],
      [S, E, N, W, FS, FE, FN, FW],
      [E, N, W, S, FW, FS, FE, FN],
      [FN, FW, FS, FE, N, W, S, E],
      [FW, FS, FE, FN, E, N, W, S],
      [FS, FE, FN, FW, S, E, N, W],
      [FE, FN, FW, FS, W, S, E, N]]"

record geo_transform =
  offset :: geo_point
  orient :: orientation

definition identity_transform :: geo_transform where
  "identity_transform = \<lparr>offset = mk_point 0 0, orient = N\<rparr>"

definition apply_pt :: "geo_transform \<Rightarrow> geo_point \<Rightarrow> geo_point" where
  "apply_pt t p =
     (let r = rotate_point (px p) (py p) (orient t)
      in mk_point (px r + px (offset t)) (py r + py (offset t)))"

definition apply_box :: "geo_transform \<Rightarrow> geo_rect \<Rightarrow> geo_rect option" where
  "apply_box t r =
     (if x_high r \<ge> x_low r \<and> y_high r \<ge> y_low r then
        let c1 = apply_pt t (mk_point (x_low r) (y_low r));
            c2 = apply_pt t (mk_point (x_high r) (y_low r));
            c3 = apply_pt t (mk_point (x_high r) (y_high r));
            c4 = apply_pt t (mk_point (x_low r) (y_high r))
        in Some (mk_rect
             (min (min (min (px c1) (px c2)) (px c3)) (px c4))
             (min (min (min (py c1) (py c2)) (py c3)) (py c4))
             (max (max (max (px c1) (px c2)) (px c3)) (px c4))
             (max (max (max (py c1) (py c2)) (py c3)) (py c4)))
      else None)"

definition apply_polygon :: "geo_transform \<Rightarrow> geo_polygon \<Rightarrow> geo_polygon" where
  "apply_polygon t ps = map (apply_pt t) ps"

definition compose :: "geo_transform \<Rightarrow> geo_transform \<Rightarrow> geo_transform" where
  "compose t sub =
     \<lparr>offset = apply_pt t (offset sub),
      orient = k_orient_mul ! orient_code (orient t) ! orient_code (orient sub)\<rparr>"

text \<open>
  The placement rule: \<open>loc\<close> is the DEF location of the placed boundary's lower left corner, the
  boundary is the cell box of the size of \<open>bb\<close> moved by minus the origin.
\<close>

definition place_from_def ::
  "geo_point \<Rightarrow> orientation \<Rightarrow> geo_rect \<Rightarrow> int \<Rightarrow> int \<Rightarrow> geo_transform option" where
  "place_from_def loc ori bb origin_x origin_y =
     (case (width bb, height bb) of
        (Some w, Some h) \<Rightarrow>
          let box = mk_rect (- origin_x) (- origin_y) (- origin_x + w) (- origin_y + h)
          in (case apply_box \<lparr>offset = mk_point 0 0, orient = ori\<rparr> box of
                None \<Rightarrow> None
              | Some rotated \<Rightarrow>
                  Some \<lparr>offset = mk_point (px loc - x_low rotated) (py loc - y_low rotated),
                        orient = ori\<rparr>)
      | _ \<Rightarrow> None)"

section \<open>Algebra of orientations\<close>

lemmas geo_simps = mk_point_def mk_rect_def low_left_def

lemma orient_all: "(\<forall>o'. P o') \<longleftrightarrow> P N \<and> P W \<and> P S \<and> P E \<and> P FN \<and> P FW \<and> P FS \<and> P FE"
  by (metis orientation.exhaust)

definition orient_mul :: "orientation \<Rightarrow> orientation \<Rightarrow> orientation" where
  "orient_mul a b = k_orient_mul ! orient_code a ! orient_code b"

fun orient_inv :: "orientation \<Rightarrow> orientation" where
  "orient_inv W = E"
| "orient_inv E = W"
| "orient_inv x = x"

lemma rotate_mul:
  "rotate_point x y (orient_mul a b) = rotate_point (px (rotate_point x y b)) (py (rotate_point x y b)) a"
  by (cases a; cases b) (simp_all add: orient_mul_def k_orient_mul_def mk_point_def)

lemma rotate_inject: "(\<forall>x y. rotate_point x y a = rotate_point x y b) \<Longrightarrow> a = b"
proof -
  assume "\<forall>x y. rotate_point x y a = rotate_point x y b"
  then have "rotate_point 1 2 a = rotate_point 1 2 b" by blast
  then show "a = b" by (cases a; cases b) (simp_all add: mk_point_def)
qed

lemma orient_mul_assoc: "orient_mul (orient_mul a b) c = orient_mul a (orient_mul b c)"
  by (rule rotate_inject) (simp add: rotate_mul)

interpretation orient_group: group orient_mul N orient_inv
proof
  show "orient_mul (orient_mul a b) c = orient_mul a (orient_mul b c)" for a b c
    by (rule orient_mul_assoc)
  show "orient_mul N a = a" for a by (cases a) (simp_all add: orient_mul_def k_orient_mul_def)
  show "orient_mul (orient_inv a) a = N" for a by (cases a) (simp_all add: orient_mul_def k_orient_mul_def)
qed

lemma compose_eq: "compose t sub = \<lparr>offset = apply_pt t (offset sub), orient = orient_mul (orient t) (orient sub)\<rparr>"
  by (simp add: compose_def orient_mul_def)

lemma apply_compose: "apply_pt (compose a b) p = apply_pt a (apply_pt b p)"
  by (cases "orient a"; cases "orient b")
     (simp_all add: compose_def k_orient_mul_def apply_pt_def mk_point_def Let_def)

definition inverse_transform :: "geo_transform \<Rightarrow> geo_transform" where
  "inverse_transform t =
     (let r = rotate_point (px (offset t)) (py (offset t)) (orient_inv (orient t))
      in \<lparr>offset = mk_point (- px r) (- py r), orient = orient_inv (orient t)\<rparr>)"

interpretation transform_group: group compose identity_transform inverse_transform
proof
  show "compose (compose a b) c = compose a (compose b c)" for a b c
    by (simp add: compose_eq orient_mul_assoc apply_compose [unfolded compose_eq])
  show "compose identity_transform a = a" for a
    by (simp add: compose_eq identity_transform_def apply_pt_def Let_def mk_point_def)
  show "compose (inverse_transform a) a = identity_transform" for a
    by (cases "orient a")
       (simp_all add: compose_def k_orient_mul_def identity_transform_def inverse_transform_def apply_pt_def
         Let_def mk_point_def)
qed

section \<open>Boxes\<close>

definition rect_ok :: "geo_rect \<Rightarrow> bool" where
  "rect_ok r \<longleftrightarrow> x_low r \<le> x_high r \<and> y_low r \<le> y_high r"

text \<open>The closed region of a rectangle: all points between its corners.\<close>

definition region :: "geo_rect \<Rightarrow> geo_point set" where
  "region r = {p. x_low r \<le> px p \<and> px p \<le> x_high r \<and> y_low r \<le> py p \<and> py p \<le> y_high r}"

lemma region_inject:
  assumes "rect_ok r" and "rect_ok r'" and "region r = region r'"
  shows "r = r'"
proof -
  have corners: "mk_point (x_low q) (y_low q) \<in> region q" "mk_point (x_high q) (y_high q) \<in> region q"
    if "rect_ok q" for q using that by (simp_all add: region_def rect_ok_def mk_point_def)
  have "mk_point (x_low r) (y_low r) \<in> region r'" "mk_point (x_high r) (y_high r) \<in> region r'"
    "mk_point (x_low r') (y_low r') \<in> region r" "mk_point (x_high r') (y_high r') \<in> region r"
    using corners [OF assms(1)] corners [OF assms(2)] assms(3) by simp_all
  then show ?thesis by (simp add: region_def mk_point_def)
qed

lemma apply_box_ok:
  assumes "apply_box t r = Some r'"
  shows "rect_ok r" and "rect_ok r'"
  using assms by (auto simp: apply_box_def rect_ok_def Let_def mk_rect_def split: if_splits)

lemma apply_box_total: "rect_ok r \<Longrightarrow> \<exists>r'. apply_box t r = Some r'"
  by (simp add: apply_box_def rect_ok_def Let_def)

text \<open>The box of the orientation cases without \<open>min\<close> and \<open>max\<close>.\<close>

lemma apply_box_cases:
  assumes "rect_ok r"
  shows "apply_box t r = Some
    (case orient t of
       N \<Rightarrow> mk_rect (x_low r + px (offset t)) (y_low r + py (offset t)) (x_high r + px (offset t)) (y_high r + py (offset t))
     | W \<Rightarrow> mk_rect (px (offset t) - y_high r) (x_low r + py (offset t)) (px (offset t) - y_low r) (x_high r + py (offset t))
     | S \<Rightarrow> mk_rect (px (offset t) - x_high r) (py (offset t) - y_high r) (px (offset t) - x_low r) (py (offset t) - y_low r)
     | E \<Rightarrow> mk_rect (y_low r + px (offset t)) (py (offset t) - x_high r) (y_high r + px (offset t)) (py (offset t) - x_low r)
     | FN \<Rightarrow> mk_rect (px (offset t) - x_high r) (y_low r + py (offset t)) (px (offset t) - x_low r) (y_high r + py (offset t))
     | FW \<Rightarrow> mk_rect (y_low r + px (offset t)) (x_low r + py (offset t)) (y_high r + px (offset t)) (x_high r + py (offset t))
     | FS \<Rightarrow> mk_rect (x_low r + px (offset t)) (py (offset t) - y_high r) (x_high r + px (offset t)) (py (offset t) - y_low r)
     | FE \<Rightarrow> mk_rect (px (offset t) - y_high r) (py (offset t) - x_high r) (px (offset t) - y_low r) (py (offset t) - x_low r))"
  using assms
  by (cases "orient t") (simp_all add: apply_box_def rect_ok_def Let_def mk_rect_def apply_pt_def mk_point_def)

lemma apply_in_region:
  assumes "apply_box t r = Some r'"
  shows "apply_pt t p \<in> region r' \<longleftrightarrow> p \<in> region r"
  using apply_box_cases [OF apply_box_ok(1) [OF assms], of t] assms
  by (cases "orient t") (auto simp: region_def mk_rect_def apply_pt_def mk_point_def Let_def)

lemma apply_surj: "\<exists>p. apply_pt t p = q"
proof -
  have "apply_pt (compose t (inverse_transform t)) q = q"
    by (simp add: identity_transform_def apply_pt_def Let_def mk_point_def)
  then show ?thesis by (metis apply_compose)
qed

lemma region_image: "apply_box t r = Some r' \<Longrightarrow> apply_pt t ` region r = region r'"
proof (rule set_eqI)
  fix q
  assume ap: "apply_box t r = Some r'"
  obtain p where "apply_pt t p = q" using apply_surj by blast
  then show "q \<in> apply_pt t ` region r \<longleftrightarrow> q \<in> region r'"
    using apply_in_region [OF ap] by blast
qed

section \<open>Bounding boxes\<close>

lemma bbox_step_simps [simp]:
  "x_low (bbox_step p r) = min (x_low r) (px p)" "y_low (bbox_step p r) = min (y_low r) (py p)"
  "x_high (bbox_step p r) = max (x_high r) (px p)" "y_high (bbox_step p r) = max (y_high r) (py p)"
  by (simp_all add: bbox_step_def mk_rect_def)

text \<open>A rectangle is the bounding box when it covers the points and each side is touched.\<close>

definition is_bbox :: "geo_point set \<Rightarrow> geo_rect \<Rightarrow> bool" where
  "is_bbox A r \<longleftrightarrow> A \<subseteq> region r \<and> (\<exists>p \<in> A. px p = x_low r) \<and> (\<exists>p \<in> A. py p = y_low r) \<and>
     (\<exists>p \<in> A. px p = x_high r) \<and> (\<exists>p \<in> A. py p = y_high r)"

lemma is_bbox_single: "is_bbox {p} (mk_rect (px p) (py p) (px p) (py p))"
  by (simp add: is_bbox_def region_def mk_rect_def)

lemma is_bbox_insert: "is_bbox A r \<Longrightarrow> is_bbox (insert p A) (bbox_step p r)"
  unfolding is_bbox_def region_def by (auto simp: min_def max_def)

lemma fold_is_bbox: "is_bbox A r \<Longrightarrow> is_bbox (A \<union> set ps) (fold bbox_step ps r)"
proof (induction ps arbitrary: A r)
  case (Cons p ps)
  show ?case using Cons.IH [OF is_bbox_insert [OF Cons.prems, of p]] by simp
qed simp

lemma bbox_is_bbox: "bbox ps = Some r \<Longrightarrow> is_bbox (set ps) r"
  using fold_is_bbox [OF is_bbox_single, of "hd ps" ps]
  by (cases ps) (auto simp: bbox_def insert_absorb)

lemma is_bbox_covers:
  assumes "is_bbox A r" and "is_bbox A r'"
  shows "x_low r \<le> x_low r' \<and> y_low r \<le> y_low r' \<and> x_high r' \<le> x_high r \<and> y_high r' \<le> y_high r"
proof -
  have sub: "A \<subseteq> region r" using assms(1) by (simp add: is_bbox_def)
  obtain a b c d where "a \<in> A" "px a = x_low r'" "b \<in> A" "py b = y_low r'"
    "c \<in> A" "px c = x_high r'" "d \<in> A" "py d = y_high r'" using assms(2) by (auto simp: is_bbox_def)
  moreover have "a \<in> region r" "b \<in> region r" "c \<in> region r" "d \<in> region r" using sub calculation by auto
  ultimately show ?thesis by (simp add: region_def)
qed

lemma is_bbox_unique: "is_bbox A r \<Longrightarrow> is_bbox A r' \<Longrightarrow> r = r'"
  using is_bbox_covers [of A r r'] is_bbox_covers [of A r' r] by (intro geo_rect.equality) simp_all

lemma is_bbox_ok: "is_bbox A r \<Longrightarrow> rect_ok r"
  using is_bbox_def [of A r] by (auto simp: region_def rect_ok_def)

lemma is_bbox_apply:
  assumes bb: "is_bbox A r" and ap: "apply_box t r = Some r'"
  shows "is_bbox (apply_pt t ` A) r'"
proof -
  have "apply_pt t ` A \<subseteq> region r'"
    using bb region_image [OF ap] by (auto simp: is_bbox_def)
  moreover obtain a b c d where s: "a \<in> A" "px a = x_low r" "b \<in> A" "py b = y_low r"
    "c \<in> A" "px c = x_high r" "d \<in> A" "py d = y_high r" using bb by (auto simp: is_bbox_def)
  have r': "Some r' = apply_box t r" using ap by simp
  have "(\<exists>p \<in> {a, b, c, d}. px (apply_pt t p) = x_low r') \<and> (\<exists>p \<in> {a, b, c, d}. py (apply_pt t p) = y_low r') \<and>
      (\<exists>p \<in> {a, b, c, d}. px (apply_pt t p) = x_high r') \<and> (\<exists>p \<in> {a, b, c, d}. py (apply_pt t p) = y_high r')"
    using r' s unfolding apply_box_cases [OF is_bbox_ok [OF bb]]
    by (cases "orient t") (auto simp: mk_rect_def apply_pt_def mk_point_def Let_def)
  ultimately show ?thesis using s unfolding is_bbox_def by blast
qed

lemma apply_box_compose:
  assumes "apply_box b r = Some r'"
  shows "apply_box (compose a b) r = apply_box a r'"
proof -
  note ok = apply_box_ok [OF assms]
  obtain q where q: "apply_box (compose a b) r = Some q" using apply_box_total [OF ok(1)] by blast
  obtain q' where q': "apply_box a r' = Some q'" using apply_box_total [OF ok(2)] by blast
  have "region q = apply_pt (compose a b) ` region r" using region_image [OF q] by simp
  also have "\<dots> = apply_pt a ` apply_pt b ` region r" by (simp add: image_image apply_compose)
  also have "\<dots> = region q'" using region_image [OF assms] region_image [OF q'] by simp
  finally have "q = q'" using region_inject apply_box_ok(2) [OF q] apply_box_ok(2) [OF q'] by blast
  then show ?thesis using q q' by simp
qed

section \<open>Properties\<close>

text \<open>
  C11: Composing two transforms is composing their effects: a composed transform moves every point
  and every polygon, and boxes every rectangle, exactly as applying the inner transform and then
  the outer one; the 8 by 8 orientation table is correct in all 64 entries.
\<close>

theorem compose_is_composition:
  "apply_pt (compose a b) p = apply_pt a (apply_pt b p) \<and>
   apply_polygon (compose a b) ps = apply_polygon a (apply_polygon b ps) \<and>
   apply_box (compose a b) r = (case apply_box b r of None \<Rightarrow> None | Some r' \<Rightarrow> apply_box a r')"
proof -
  have "apply_box (compose a b) r = None" if "apply_box b r = None"
    using that by (simp add: apply_box_def Let_def split: if_splits)
  then show ?thesis
    using apply_box_compose by (auto simp: apply_compose apply_polygon_def split: option.splits)
qed

text \<open>
  Transforms form a group under \<open>compose\<close> with the default transform as unit, so nested
  placements can be flattened in any grouping and every placement can be undone.
\<close>

theorem transforms_form_group:
  "compose (compose a b) c = compose a (compose b c) \<and>
   compose identity_transform a = a \<and> compose a identity_transform = a \<and>
   (\<exists>b. compose b a = identity_transform \<and> compose a b = identity_transform)"
proof -
  have "\<exists>b. compose b a = identity_transform \<and> compose a b = identity_transform"
    by (intro exI [of _ "inverse_transform a"]) simp
  then show ?thesis by (simp add: transform_group.assoc transform_group.group_left_neutral)
qed

text \<open>
  The transformed box of a rectangle covers exactly the transformed points: its closed region
  is the image of the closed region of the rectangle, it is again well formed, and its area is the
  same.
\<close>

theorem apply_box_exact:
  assumes "apply_box t r = Some r'"
  shows "apply_pt t ` region r = region r' \<and> rect_ok r' \<and> area_int r' = area_int r"
proof -
  note ok = apply_box_ok [OF assms]
  have r': "Some r' = apply_box t r" using assms by simp
  have "area_int r' = area_int r"
    using r' ok(1) unfolding apply_box_cases [OF ok(1)]
    by (cases "orient t") (auto simp: area_int_def width_def height_def rect_ok_def mk_rect_def)
  then show ?thesis using region_image [OF assms] ok(2) by simp
qed

theorem apply_box_exact_witness:
  "apply_box \<lparr>offset = mk_point 10 20, orient = W\<rparr> (mk_rect 0 0 4 2) = Some (mk_rect 8 20 10 24) \<and>
   area_int (mk_rect 8 20 10 24) = Some 8"
proof -
  have ap: "apply_box \<lparr>offset = mk_point 10 20, orient = W\<rparr> (mk_rect 0 0 4 2) = Some (mk_rect 8 20 10 24)"
    by (simp add: apply_box_def mk_rect_def mk_point_def apply_pt_def)
  then show ?thesis
    using apply_box_exact [OF ap] by (simp add: area_int_def width_def height_def mk_rect_def)
qed

text \<open>
  The bounding box commutes with placement: the bounding box of a transformed polygon is the
  transformed box of the polygon's bounding box, and neither exists for an empty polygon.
\<close>

theorem bbox_of_transformed:
  "bbox (apply_polygon t ps) = (case bbox ps of None \<Rightarrow> None | Some r \<Rightarrow> apply_box t r)"
proof (cases ps)
  case (Cons p qs)
  then obtain r r'' where r: "bbox ps = Some r" and r'': "bbox (apply_polygon t ps) = Some r''"
    by (simp add: bbox_def apply_polygon_def)
  obtain r' where r': "apply_box t r = Some r'"
    using apply_box_total is_bbox_ok [OF bbox_is_bbox [OF r]] by blast
  have "is_bbox (set (apply_polygon t ps)) r'"
    using is_bbox_apply [OF bbox_is_bbox [OF r] r'] by (simp add: apply_polygon_def)
  then have "r'' = r'" using is_bbox_unique [OF bbox_is_bbox [OF r'']] by blast
  then show ?thesis using r r' r'' by simp
qed (simp add: bbox_def apply_polygon_def)

text \<open>
  A DEF placement puts the cell where the DEF file says: for every cell box and origin the
  placement succeeds, the placed boundary (the cell box moved by minus the origin) has its lower
  left corner at the DEF location, and it is the only transform with that orientation that does.
\<close>

theorem place_from_def_lower_left:
  assumes "rect_ok bb"
  shows "\<exists>tr. place_from_def loc ori bb ox oy = Some tr \<and> orient tr = ori \<and>
    (\<forall>tr'. orient tr' = ori \<longrightarrow>
       (map_option low_left (apply_box tr' (mk_rect (- ox) (- oy)
          (- ox + (x_high bb - x_low bb)) (- oy + (y_high bb - y_low bb)))) = Some loc \<longleftrightarrow> tr' = tr))"
proof -
  let ?box = "mk_rect (- ox) (- oy) (- ox + (x_high bb - x_low bb)) (- oy + (y_high bb - y_low bb))"
  have ok: "rect_ok ?box" using assms by (simp add: rect_ok_def mk_rect_def)
  have wh: "width bb = Some (x_high bb - x_low bb)" "height bb = Some (y_high bb - y_low bb)"
    using assms by (simp_all add: rect_ok_def width_def height_def)
  obtain q where q: "apply_box \<lparr>offset = mk_point 0 0, orient = ori\<rparr> ?box = Some q"
    using apply_box_total [OF ok] by blast
  define tr where "tr = \<lparr>offset = mk_point (px loc - x_low q) (py loc - y_low q), orient = ori\<rparr>"
  have pl: "place_from_def loc ori bb ox oy = Some tr"
    using q by (simp add: place_from_def_def wh tr_def)
  have shift: "map_option low_left (apply_box tr' ?box) =
      Some (mk_point (x_low q + px (offset tr')) (y_low q + py (offset tr')))" if "orient tr' = ori" for tr'
    using q that unfolding apply_box_cases [OF ok] by (cases ori) (auto simp: low_left_def mk_rect_def mk_point_def)
  have "map_option low_left (apply_box tr' ?box) = Some loc \<longleftrightarrow> tr' = tr" if "orient tr' = ori" for tr'
    unfolding shift [OF that] using that
    by (cases tr'; cases "offset tr'"; cases loc) (auto simp: tr_def mk_point_def)
  then show ?thesis using pl by (intro exI [of _ tr]) (simp add: tr_def)
qed

theorem place_from_def_lower_left_witness:
  "place_from_def (mk_point 100000 200000) W (mk_rect 0 0 800 400) 100 0 =
     Some \<lparr>offset = mk_point 100400 200100, orient = W\<rparr> \<and>
   (\<exists>tr. place_from_def (mk_point 100000 200000) W (mk_rect 0 0 800 400) 100 0 = Some tr \<and>
      map_option low_left (apply_box tr (mk_rect (-100) 0 700 400)) = Some (mk_point 100000 200000))"
proof -
  have "place_from_def (mk_point 100000 200000) W (mk_rect 0 0 800 400) 100 0 =
      Some \<lparr>offset = mk_point 100400 200100, orient = W\<rparr>"
    by (simp add: place_from_def_def width_def height_def mk_rect_def apply_box_def apply_pt_def mk_point_def)
  moreover have "rect_ok (mk_rect 0 0 800 400)" by (simp add: rect_ok_def mk_rect_def)
  ultimately show ?thesis
    using place_from_def_lower_left [of "mk_rect 0 0 800 400" "mk_point 100000 200000" W 100 0]
    by (auto simp: mk_rect_def)
qed

text \<open>
  Two rectangles of positive width and height overlap, in the sense of \<open>overlaps\<close>, exactly
  when some integer point is contained in both; rectangles that share only an edge do not.
\<close>

theorem overlaps_iff_common_point:
  assumes "x_low a < x_high a" "y_low a < y_high a" "x_low b < x_high b" "y_low b < y_high b"
  shows "overlaps a b \<longleftrightarrow> (\<exists>p. contains a p \<and> contains b p)"
proof
  assume "overlaps a b"
  then have "contains a (mk_point (max (x_low a) (x_low b)) (max (y_low a) (y_low b))) \<and>
      contains b (mk_point (max (x_low a) (x_low b)) (max (y_low a) (y_low b)))"
    using assms by (auto simp: overlaps_def contains_def mk_point_def)
  then show "\<exists>p. contains a p \<and> contains b p" by blast
qed (auto simp: overlaps_def contains_def)

theorem overlaps_iff_common_point_witness:
  "overlaps (mk_rect 0 0 4 4) (mk_rect 3 3 8 8) \<and> \<not> overlaps (mk_rect 0 0 4 4) (mk_rect 4 0 8 4) \<and>
   (\<exists>p. contains (mk_rect 0 0 4 4) p \<and> contains (mk_rect 3 3 8 8) p)"
  using overlaps_iff_common_point [of "mk_rect 0 0 4 4" "mk_rect 3 3 8 8"]
  by (simp add: overlaps_def mk_rect_def)

text \<open>
  With coordinates and offsets of absolute value below \<open>2 ^ 30\<close> the 32-bit instantiation
  computes without signed overflow: the rotated coordinates and the transformed point stay in the
  range of \<open>int32_t\<close>, so they equal the unbounded values.
\<close>

theorem apply_pt_int32:
  assumes "\<bar>px p\<bar> < 2 ^ 30" "\<bar>py p\<bar> < 2 ^ 30" "\<bar>px (offset t)\<bar> < 2 ^ 30" "\<bar>py (offset t)\<bar> < 2 ^ 30"
  shows "\<bar>px (rotate_point (px p) (py p) (orient t))\<bar> < 2 ^ 31 \<and>
    \<bar>py (rotate_point (px p) (py p) (orient t))\<bar> < 2 ^ 31 \<and>
    \<bar>px (apply_pt t p)\<bar> < 2 ^ 31 \<and> \<bar>py (apply_pt t p)\<bar> < 2 ^ 31"
  using assms by (cases "orient t") (auto simp: apply_pt_def mk_point_def Let_def)

theorem apply_pt_int32_witness:
  "\<bar>px (apply_pt \<lparr>offset = mk_point 1000 2000, orient = FE\<rparr> (mk_point 7 (-9)))\<bar> < 2 ^ 31"
  using apply_pt_int32 [of "mk_point 7 (-9)" "\<lparr>offset = mk_point 1000 2000, orient = FE\<rparr>"]
  by (simp add: mk_point_def)

end
