(* ===== verification/Wire_Bytes.thy ===== *)
theory Wire_Bytes
  imports Fly_Prelude "HOL-Library.Word"
begin

unbundle bit_operations_syntax

text \<open>
  Bytes on the wire and on disk.  The big-endian readers and writers are those of
  src/network/cpp/message_protocol.h; the little-endian ones stand for \<open>memcpy\<close> of an unsigned
  integer on the x86 targets of the build.  Each width is shown to be a codec in the sense of the
  locale \<open>fixed_codec\<close>, through one recursive pair of functions.
\<close>

type_synonym byte = "8 word"

section \<open>The interface of a fixed-width codec\<close>

locale fixed_codec =
  fixes enc :: "'a \<Rightarrow> byte list"
    and dec :: "byte list \<Rightarrow> 'a"
    and size :: nat
  assumes enc_length: "length (enc v) = size"
    and dec_enc: "dec (enc v) = v"
    and enc_dec: "length bs = size \<Longrightarrow> enc (dec bs) = bs"
begin

lemma dec_prefix: "dec (take size (enc v @ rest)) = v"
  by (simp add: enc_length dec_enc)

lemma enc_inject: "enc v = enc w \<longleftrightarrow> v = w"
  by (metis dec_enc)

lemma dec_inject: "length bs = size \<Longrightarrow> length cs = size \<Longrightarrow> dec bs = dec cs \<longleftrightarrow> bs = cs"
  by (metis enc_dec)

lemma enc_append_inject: "enc v @ xs = enc w @ ys \<longleftrightarrow> v = w \<and> xs = ys"
  using enc_length enc_inject by (auto simp: append_eq_append_conv)

end

section \<open>Little endian\<close>

fun le_bytes :: "nat \<Rightarrow> 'a::len word \<Rightarrow> byte list" where
  "le_bytes 0 v = []"
| "le_bytes (Suc n) v = ucast v # le_bytes n (drop_bit 8 v)"

fun le_value :: "byte list \<Rightarrow> 'a::len word" where
  "le_value [] = 0"
| "le_value (b # bs) = ucast b OR push_bit 8 (le_value bs)"

lemma length_le_bytes [simp]: "length (le_bytes n v) = n"
  by (induction n arbitrary: v) auto

lemma bit_le_value:
  "bit (le_value bs :: 'a::len word) k \<longleftrightarrow> k < LENGTH('a) \<and> k div 8 < length bs \<and> bit (bs ! (k div 8)) (k mod 8)"
proof (induction bs arbitrary: k)
  case (Cons b bs)
  show ?case
  proof (cases "k < 8")
    case True
    then show ?thesis by (auto simp: bit_or_iff bit_push_bit_iff bit_ucast_iff)
  next
    case False
    then have "k div 8 = Suc ((k - 8) div 8)" "k mod 8 = (k - 8) mod 8"
      by (simp_all add: le_div_geq le_mod_geq)
    moreover have "\<not> bit b k" using False bit_imp_le_length [of b k] by auto
    ultimately show ?thesis
      using False by (auto simp: bit_or_iff bit_push_bit_iff bit_ucast_iff Cons.IH)
  qed
qed simp

lemma nth_le_bytes: "i < n \<Longrightarrow> le_bytes n v ! i = ucast (drop_bit (8 * i) v)"
proof (induction n arbitrary: v i)
  case (Suc n)
  then show ?case by (cases i) (simp_all add: drop_bit_drop_bit add.commute)
qed simp

lemma le_value_bytes:
  assumes "LENGTH('a) = 8 * n"
  shows "le_value (le_bytes n v) = (v :: 'a::len word)"
proof (rule bit_word_eqI)
  fix k assume k: "k < LENGTH('a)"
  then have "k div 8 < n" using assms by auto
  then show "bit (le_value (le_bytes n v) :: 'a word) k = bit v k"
    using k by (simp add: bit_le_value nth_le_bytes bit_ucast_iff bit_drop_bit_eq)
qed

lemma le_bytes_value:
  assumes "LENGTH('a) = 8 * n" and "length bs = n"
  shows "le_bytes n (le_value bs :: 'a::len word) = bs"
proof (rule nth_equalityI)
  fix i assume "i < length (le_bytes n (le_value bs :: 'a word))"
  then have i: "i < n" by simp
  show "le_bytes n (le_value bs :: 'a word) ! i = bs ! i"
  proof (rule bit_word_eqI)
    fix k assume "k < LENGTH(8)"
    then have k: "k < 8" by simp
    then have "8 * i + k < 8 * n" using i by linarith
    moreover have "(8 * i + k) div 8 = i" "(8 * i + k) mod 8 = k" using k by auto
    ultimately show "bit (le_bytes n (le_value bs :: 'a word) ! i) k = bit (bs ! i) k"
      using i k assms by (simp add: nth_le_bytes bit_ucast_iff bit_drop_bit_eq bit_le_value)
  qed
qed (use assms in simp)

section \<open>The codecs of the program\<close>

definition le16 :: "16 word \<Rightarrow> byte list" where "le16 = le_bytes 2"
definition le32 :: "32 word \<Rightarrow> byte list" where "le32 = le_bytes 4"
definition le64 :: "64 word \<Rightarrow> byte list" where "le64 = le_bytes 8"

definition rd_le16 :: "byte list \<Rightarrow> 16 word" where "rd_le16 = le_value"
definition rd_le32 :: "byte list \<Rightarrow> 32 word" where "rd_le32 = le_value"
definition rd_le64 :: "byte list \<Rightarrow> 64 word" where "rd_le64 = le_value"

interpretation c16: fixed_codec le16 rd_le16 2
  by unfold_locales (simp_all add: le16_def rd_le16_def le_value_bytes le_bytes_value)

interpretation c32: fixed_codec le32 rd_le32 4
  by unfold_locales (simp_all add: le32_def rd_le32_def le_value_bytes le_bytes_value)

interpretation c64: fixed_codec le64 rd_le64 8
  by unfold_locales (simp_all add: le64_def rd_le64_def le_value_bytes le_bytes_value)

text \<open>The readers and writers of the frame protocol, byte by byte as in the source.\<close>

definition read_be32 :: "byte list \<Rightarrow> 32 word" where
  "read_be32 p = push_bit 24 (ucast (p ! 0)) OR push_bit 16 (ucast (p ! 1)) OR
     push_bit 8 (ucast (p ! 2)) OR ucast (p ! 3)"

definition write_be32 :: "32 word \<Rightarrow> byte list" where
  "write_be32 v = [ucast (drop_bit 24 v AND 0xFF), ucast (drop_bit 16 v AND 0xFF),
     ucast (drop_bit 8 v AND 0xFF), ucast (v AND 0xFF)]"

definition read_be64 :: "byte list \<Rightarrow> 64 word" where
  "read_be64 p = push_bit 56 (ucast (p ! 0)) OR push_bit 48 (ucast (p ! 1)) OR
     push_bit 40 (ucast (p ! 2)) OR push_bit 32 (ucast (p ! 3)) OR push_bit 24 (ucast (p ! 4)) OR
     push_bit 16 (ucast (p ! 5)) OR push_bit 8 (ucast (p ! 6)) OR ucast (p ! 7)"

definition write_be64 :: "64 word \<Rightarrow> byte list" where
  "write_be64 v = [ucast (drop_bit 56 v AND 0xFF), ucast (drop_bit 48 v AND 0xFF),
     ucast (drop_bit 40 v AND 0xFF), ucast (drop_bit 32 v AND 0xFF), ucast (drop_bit 24 v AND 0xFF),
     ucast (drop_bit 16 v AND 0xFF), ucast (drop_bit 8 v AND 0xFF), ucast (v AND 0xFF)]"

lemma ucast_and_FF: "(ucast (v AND 0xFF) :: byte) = ucast (v :: 'a::len word)"
proof (rule bit_word_eqI)
  fix k assume k: "k < LENGTH(8)"
  have m: "0xFF = (mask 8 :: 'a word)" by (simp add: mask_eq_exp_minus_1)
  show "bit (ucast (v AND 0xFF) :: byte) k = bit (ucast v :: byte) k"
    unfolding m using k by (auto simp: bit_ucast_iff bit_and_iff bit_mask_iff dest: bit_imp_le_length)
qed

lemma write_be32_le: "write_be32 v = rev (le_bytes 4 v)"
  by (simp add: write_be32_def ucast_and_FF numeral_eq_Suc drop_bit_drop_bit)

lemma write_be64_le: "write_be64 v = rev (le_bytes 8 v)"
  by (simp add: write_be64_def ucast_and_FF numeral_eq_Suc drop_bit_drop_bit)

lemma read_be32_le: "length p = 4 \<Longrightarrow> read_be32 p = le_value (rev p)"
  by (auto simp: read_be32_def numeral_eq_Suc length_Suc_conv push_bit_or push_bit_push_bit or.assoc or.commute
    or.left_commute)

lemma read_be64_le: "length p = 8 \<Longrightarrow> read_be64 p = le_value (rev p)"
  by (auto simp: read_be64_def numeral_eq_Suc length_Suc_conv push_bit_or push_bit_push_bit or.assoc or.commute
    or.left_commute)

interpretation b32: fixed_codec write_be32 read_be32 4
  by unfold_locales (simp_all add: write_be32_le read_be32_le le_value_bytes le_bytes_value)

interpretation b64: fixed_codec write_be64 read_be64 8
  by unfold_locales (simp_all add: write_be64_le read_be64_le le_value_bytes le_bytes_value)

end
