(* ===== verification/Object_Header.thy ===== *)
theory Object_Header
  imports Wire_Bytes
begin

text \<open>
  The object header of src/common/serialization/cpp/object_header.h and .cpp in its two layouts,
  the in-memory prefix and the on-disk trailer, with src/common/types/cpp/compression_type.h and
  the checksum wrapper src/common/buffer/cpp/data_checksum.h and .cpp.  The CRC-64 routine of the
  ISA-L library is the parameter \<open>crc64\<close> (seed, bytes).  \<open>None\<close> is a parse that returns false.
\<close>

section \<open>Checksum wrapper\<close>

definition data_checksum :: "(64 word \<Rightarrow> byte list \<Rightarrow> 64 word) \<Rightarrow> byte list \<Rightarrow> 64 word" where
  "data_checksum crc64 d = crc64 0 d"

definition checksum_init :: "64 word" where
  "checksum_init = 0"

definition checksum_update :: "(64 word \<Rightarrow> byte list \<Rightarrow> 64 word) \<Rightarrow> byte list \<Rightarrow> 64 word \<Rightarrow> 64 word" where
  "checksum_update crc64 d st = crc64 st d"

definition checksum_final :: "64 word \<Rightarrow> 64 word" where
  "checksum_final st = st"

section \<open>Header\<close>

datatype compression_type = NONE | LZ4 | ZLIB | ZSTD

fun compression_code :: "compression_type \<Rightarrow> byte" where
  "compression_code NONE = 0"
| "compression_code LZ4 = 1"
| "compression_code ZLIB = 2"
| "compression_code ZSTD = 3"

definition is_valid_compression_type :: "byte \<Rightarrow> bool" where
  "is_valid_compression_type raw \<longleftrightarrow> raw \<le> compression_code ZSTD"

text \<open>The cast of a byte that passed the check.\<close>

definition compression_of :: "byte \<Rightarrow> compression_type" where
  "compression_of raw = (if raw = 0 then NONE else if raw = 1 then LZ4 else if raw = 2 then ZLIB else ZSTD)"

definition FLY_OBJECT_MAGIC :: "32 word" where
  "FLY_OBJECT_MAGIC = 0x464C5900"

definition FLY_OBJECT_VERSION :: byte where
  "FLY_OBJECT_VERSION = 1"

record object_header =
  oh_magic :: "32 word"
  oh_version :: byte
  oh_py_name_len :: "16 word"
  oh_py_name :: "byte list"
  oh_total_size :: "64 word"
  oh_chunk_count :: "32 word"
  oh_compression :: compression_type
  oh_block_comp_lens :: "32 word list"

definition fixed_header_size :: nat where
  "fixed_header_size = 4 + 1 + 2 + 4 + 8 + 4 + 1"

definition is_valid_header :: "object_header \<Rightarrow> bool" where
  "is_valid_header h \<longleftrightarrow> oh_magic h = FLY_OBJECT_MAGIC"

definition bytes_at :: "nat \<Rightarrow> nat \<Rightarrow> 'a list \<Rightarrow> 'a list" where
  "bytes_at off n xs = take n (drop off xs)"

text \<open>The fixed 24 bytes, with the length fields the two layouts write.\<close>

definition fixed_bytes :: "object_header \<Rightarrow> 16 word \<Rightarrow> 32 word \<Rightarrow> byte list" where
  "fixed_bytes h name_len table_len =
     le32 (oh_magic h) @ [oh_version h] @ le16 name_len @ le32 table_len @ le64 (oh_total_size h) @
     le32 (oh_chunk_count h) @ [compression_code (oh_compression h)]"

definition serialize :: "object_header \<Rightarrow> byte list" where
  "serialize h = fixed_bytes h (word_of_nat (length (oh_py_name h))) 0 @ oh_py_name h"

definition deserialize :: "byte list \<Rightarrow> nat \<Rightarrow> (object_header \<times> nat) option" where
  "deserialize data offset =
     (if length data < offset + fixed_header_size then None
      else
        let magic = rd_le32 (bytes_at offset 4 data)
        in if magic \<noteq> FLY_OBJECT_MAGIC then None
           else
             let version = data ! (offset + 4)
             in if version > FLY_OBJECT_VERSION then None
                else
                  let name_len = rd_le16 (bytes_at (offset + 5) 2 data);
                      table_len = rd_le32 (bytes_at (offset + 7) 4 data)
                  in if table_len \<noteq> 0 then None
                     else
                       let total = rd_le64 (bytes_at (offset + 11) 8 data);
                           count = rd_le32 (bytes_at (offset + 19) 4 data);
                           comp_raw = data ! (offset + 23)
                       in if \<not> is_valid_compression_type comp_raw then None
                          else if name_len > 0 \<and> length data < offset + 24 + unat name_len then None
                          else Some
                            (\<lparr>oh_magic = magic, oh_version = version, oh_py_name_len = name_len,
                              oh_py_name = bytes_at (offset + 24) (unat name_len) data,
                              oh_total_size = total, oh_chunk_count = count,
                              oh_compression = compression_of comp_raw, oh_block_comp_lens = []\<rparr>,
                             offset + 24 + unat name_len))"

text \<open>\<open>memcpy\<close> of the block table.\<close>

definition table_bytes :: "32 word list \<Rightarrow> byte list" where
  "table_bytes lens = concat (map le32 lens)"

definition read_table :: "nat \<Rightarrow> byte list \<Rightarrow> 32 word list" where
  "read_table n bs = map (\<lambda>i. rd_le32 (bytes_at (4 * i) 4 bs)) [0..<n]"

definition serialize_trailer :: "(64 word \<Rightarrow> byte list \<Rightarrow> 64 word) \<Rightarrow> object_header \<Rightarrow> byte list" where
  "serialize_trailer crc64 h =
     (let table_len = word_of_nat (length (oh_block_comp_lens h) * 4) :: 32 word;
          body = take (unat table_len) (table_bytes (oh_block_comp_lens h)) @ oh_py_name h @
                 fixed_bytes h (word_of_nat (length (oh_py_name h))) table_len
      in body @ le64 (data_checksum crc64 body))"

definition deserialize_trailer ::
  "(64 word \<Rightarrow> byte list \<Rightarrow> 64 word) \<Rightarrow> byte list \<Rightarrow> (object_header \<times> nat) option" where
  "deserialize_trailer crc64 record =
     (if length record < fixed_header_size + 8 then None
      else
        let crc_p = length record - 8;
            stored_crc = rd_le64 (bytes_at crc_p 8 record);
            hp = crc_p - fixed_header_size;
            magic = rd_le32 (bytes_at hp 4 record)
        in if magic \<noteq> FLY_OBJECT_MAGIC then None
           else
             let version = record ! (hp + 4)
             in if version > FLY_OBJECT_VERSION then None
                else
                  let name_len = rd_le16 (bytes_at (hp + 5) 2 record);
                      table_len = rd_le32 (bytes_at (hp + 7) 4 record);
                      total = rd_le64 (bytes_at (hp + 11) 8 record);
                      count = rd_le32 (bytes_at (hp + 19) 4 record);
                      comp_raw = record ! (hp + 23)
                  in if \<not> is_valid_compression_type comp_raw then None
                     else if unat table_len \<noteq> unat count * 4 then None
                     else
                       let body_len = unat table_len + unat name_len + fixed_header_size
                       in if length record < body_len + 8 then None
                          else
                            let body_start = crc_p - body_len
                            in if data_checksum crc64 (bytes_at body_start body_len record) \<noteq> stored_crc then None
                               else Some
                                 (\<lparr>oh_magic = magic, oh_version = version, oh_py_name_len = name_len,
                                   oh_py_name = bytes_at (body_start + unat table_len) (unat name_len) record,
                                   oh_total_size = total, oh_chunk_count = count,
                                   oh_compression = compression_of comp_raw,
                                   oh_block_comp_lens = read_table (unat table_len div 4)
                                     (bytes_at body_start (unat table_len) record)\<rparr>,
                                  body_len + 8))"

section \<open>Slices of concatenations\<close>

lemma bytes_at_append: "bytes_at (length pre + k) n (pre @ xs) = bytes_at k n xs"
  by (simp add: bytes_at_def)

lemma bytes_at_length [simp]: "bytes_at (length pre) n (pre @ xs) = take n xs"
  by (simp add: bytes_at_def)

lemma bytes_at_0 [simp]: "bytes_at 0 n xs = take n xs"
  by (simp add: bytes_at_def)

lemma length_bytes_at: "off + n \<le> length xs \<Longrightarrow> length (bytes_at off n xs) = n"
  by (simp add: bytes_at_def)

lemma bytes_at_split: "off + n \<le> length xs \<Longrightarrow> xs = take off xs @ bytes_at off n xs @ drop (off + n) xs"
  by (metis add.commute append_take_drop_id drop_drop bytes_at_def)

lemma bytes_at_join: "bytes_at off m xs @ bytes_at (off + m) n xs = bytes_at off (m + n) xs"
  by (simp add: bytes_at_def take_add drop_drop add.commute)

lemma bytes_at_single: "off < length xs \<Longrightarrow> bytes_at off 1 xs = [xs ! off]"
  by (simp add: bytes_at_def take_Suc_conv_app_nth Cons_nth_drop_Suc [symmetric])

section \<open>The fixed part\<close>

lemma length_fixed_bytes [simp]: "length (fixed_bytes h nl tn) = 24"
  by (simp add: fixed_bytes_def c16.enc_length c32.enc_length c64.enc_length)

lemma fixed_header_size [simp]: "fixed_header_size = 24"
  by (simp add: fixed_header_size_def)

lemma fixed_bytes_fields:
  "rd_le32 (bytes_at 0 4 (fixed_bytes h nl tn @ rest)) = oh_magic h"
  "(fixed_bytes h nl tn @ rest) ! 4 = oh_version h"
  "rd_le16 (bytes_at 5 2 (fixed_bytes h nl tn @ rest)) = nl"
  "rd_le32 (bytes_at 7 4 (fixed_bytes h nl tn @ rest)) = tn"
  "rd_le64 (bytes_at 11 8 (fixed_bytes h nl tn @ rest)) = oh_total_size h"
  "rd_le32 (bytes_at 19 4 (fixed_bytes h nl tn @ rest)) = oh_chunk_count h"
  "(fixed_bytes h nl tn @ rest) ! 23 = compression_code (oh_compression h)"
  by (simp_all add: fixed_bytes_def bytes_at_def c16.enc_length c32.enc_length c64.enc_length
    c16.dec_enc c32.dec_enc c64.dec_enc nth_append)

lemma compression_roundtrip [simp]:
  "is_valid_compression_type (compression_code c)" "compression_of (compression_code c) = c"
  by (cases c; simp add: is_valid_compression_type_def compression_of_def)+

lemma compression_of_code:
  "is_valid_compression_type raw \<Longrightarrow> compression_code (compression_of raw) = raw"
proof -
  assume "is_valid_compression_type raw"
  then have "unat raw \<le> 3" by (simp add: is_valid_compression_type_def word_le_nat_alt)
  then have "unat raw = 0 \<or> unat raw = 1 \<or> unat raw = 2 \<or> unat raw = 3" by linarith
  then have "raw = 0 \<or> raw = 1 \<or> raw = 2 \<or> raw = 3" by (simp add: word_unat_eq_iff)
  then show ?thesis by (auto simp: compression_of_def)
qed

lemma bytes_at_Suc_0: "off < length xs \<Longrightarrow> bytes_at off (Suc 0) xs = [xs ! off]"
  using bytes_at_single by simp

text \<open>Reading the seven fields back and writing them again gives the bytes.\<close>

lemma fixed_bytes_read:
  assumes "length f = 24" and "is_valid_compression_type (f ! 23)"
  shows "fixed_bytes \<lparr>oh_magic = rd_le32 (bytes_at 0 4 f), oh_version = f ! 4, oh_py_name_len = l, oh_py_name = nm,
      oh_total_size = rd_le64 (bytes_at 11 8 f), oh_chunk_count = rd_le32 (bytes_at 19 4 f),
      oh_compression = compression_of (f ! 23), oh_block_comp_lens = ls\<rparr>
      (rd_le16 (bytes_at 5 2 f)) (rd_le32 (bytes_at 7 4 f)) = f"
proof -
  have "fixed_bytes \<lparr>oh_magic = rd_le32 (bytes_at 0 4 f), oh_version = f ! 4, oh_py_name_len = l, oh_py_name = nm,
      oh_total_size = rd_le64 (bytes_at 11 8 f), oh_chunk_count = rd_le32 (bytes_at 19 4 f),
      oh_compression = compression_of (f ! 23), oh_block_comp_lens = ls\<rparr>
      (rd_le16 (bytes_at 5 2 f)) (rd_le32 (bytes_at 7 4 f)) =
      bytes_at 0 4 f @ bytes_at 4 1 f @ bytes_at 5 2 f @ bytes_at 7 4 f @ bytes_at 11 8 f @ bytes_at 19 4 f @ bytes_at 23 1 f"
    using assms by (simp add: fixed_bytes_def c16.enc_dec c32.enc_dec c64.enc_dec length_bytes_at bytes_at_Suc_0
      compression_of_code del: bytes_at_0)
  also have "\<dots> = f"
    using bytes_at_join [of 23 1 f 0] bytes_at_join [of 19 4 f 1] bytes_at_join [of 11 8 f 5] bytes_at_join [of 7 4 f 13]
      bytes_at_join [of 5 2 f 17] bytes_at_join [of 4 1 f 19] bytes_at_join [of 0 4 f 20] assms(1)
    by (simp add: bytes_at_def)
  finally show ?thesis .
qed

section \<open>The block table\<close>

lemma length_table_bytes [simp]: "length (table_bytes lens) = 4 * length lens"
  by (induction lens) (simp_all add: table_bytes_def c32.enc_length)

lemma read_table_bytes: "read_table (length lens) (table_bytes lens) = lens"
proof (rule nth_equalityI)
  fix i assume "i < length (read_table (length lens) (table_bytes lens))"
  then have i: "i < length lens" by (simp add: read_table_def)
  have "table_bytes lens = table_bytes (take i lens) @ le32 (lens ! i) @ table_bytes (drop (Suc i) lens)"
    using id_take_nth_drop [OF i] by (metis (no_types, lifting) concat.simps(2) concat_append list.simps(9) map_append table_bytes_def)
  then have "bytes_at (4 * i) 4 (table_bytes lens) = le32 (lens ! i)"
    using i bytes_at_append [of "table_bytes (take i lens)" 0] by (simp add: c32.enc_length)
  then show "read_table (length lens) (table_bytes lens) ! i = lens ! i"
    using i by (simp add: read_table_def c32.dec_enc)
qed (simp add: read_table_def)

lemma table_bytes_read: "length bs = 4 * n \<Longrightarrow> table_bytes (read_table n bs) = bs"
proof (induction n arbitrary: bs)
  case (Suc n)
  have "read_table (Suc n) bs = rd_le32 (take 4 bs) # read_table n (drop 4 bs)"
    by (simp add: read_table_def upt_conv_Cons map_Suc_upt [symmetric] del: upt_Suc)
       (simp add: bytes_at_def add.commute)
  then show ?case using Suc by (simp add: table_bytes_def c32.enc_dec)
qed (simp add: table_bytes_def read_table_def)

section \<open>Reading at the ends of a record\<close>

lemma bytes_at_prefix: "n \<le> length xs \<Longrightarrow> bytes_at (length pre) n (pre @ xs @ post) = take n xs"
  by (simp add: bytes_at_def)

lemma bytes_at_bytes_at: "k + n \<le> m \<Longrightarrow> bytes_at k n (bytes_at off m xs) = bytes_at (off + k) n xs"
  by (simp add: bytes_at_def drop_take min_absorb1 add.commute)

lemma nth_bytes_at: "k < m \<Longrightarrow> off + m \<le> length xs \<Longrightarrow> bytes_at off m xs ! k = xs ! (off + k)"
  by (simp add: bytes_at_def)

definition header_ok :: "object_header \<Rightarrow> bool" where
  "header_ok h \<longleftrightarrow> is_valid_header h \<and> oh_version h \<le> FLY_OBJECT_VERSION"

lemma unat_name_len: "unat (word_of_nat n :: 16 word) = n mod 65536"
  by (simp add: unat_of_nat)

lemma unat_table_len: "n < 2 ^ 30 \<Longrightarrow> unat (word_of_nat (n * 4) :: 32 word) = n * 4"
  by (simp add: unat_of_nat del: of_nat_mult)

text \<open>The fixed fields as both parsers see them, at any position.\<close>

lemma fields_at:
  assumes "p = length pre"
  shows "rd_le32 (bytes_at p 4 (pre @ fixed_bytes h nl tn @ rest)) = oh_magic h"
    and "(pre @ fixed_bytes h nl tn @ rest) ! (p + 4) = oh_version h"
    and "rd_le16 (bytes_at (p + 5) 2 (pre @ fixed_bytes h nl tn @ rest)) = nl"
    and "rd_le32 (bytes_at (p + 7) 4 (pre @ fixed_bytes h nl tn @ rest)) = tn"
    and "rd_le64 (bytes_at (p + 11) 8 (pre @ fixed_bytes h nl tn @ rest)) = oh_total_size h"
    and "rd_le32 (bytes_at (p + 19) 4 (pre @ fixed_bytes h nl tn @ rest)) = oh_chunk_count h"
    and "(pre @ fixed_bytes h nl tn @ rest) ! (p + 23) = compression_code (oh_compression h)"
  using bytes_at_append [of pre 0 4 "fixed_bytes h nl tn @ rest"]
    fixed_bytes_fields [where h = h and nl = nl and tn = tn and rest = rest]
  unfolding assms bytes_at_append nth_append_length_plus by simp_all

lemma trailer_parse_serialized:
  assumes "header_ok h" and "length (oh_py_name h) < 2 ^ 16" and "length (oh_block_comp_lens h) < 2 ^ 30"
    and "unat (oh_chunk_count h) = length (oh_block_comp_lens h)"
    and "unat (oh_py_name_len h) = length (oh_py_name h)"
  shows "deserialize_trailer crc64 (blocks @ serialize_trailer crc64 h) =
    Some (h, length (serialize_trailer crc64 h))"
proof -
  define lens where "lens = oh_block_comp_lens h"
  define nm where "nm = oh_py_name h"
  define nl where "nl = (word_of_nat (length nm) :: 16 word)"
  define tn where "tn = (word_of_nat (length lens * 4) :: 32 word)"
  define body where "body = table_bytes lens @ nm @ fixed_bytes h nl tn"
  have nl: "unat nl = length nm" using assms(2) by (simp add: nl_def nm_def unat_name_len)
  have tn: "unat tn = length lens * 4" unfolding tn_def using unat_table_len assms(3) by (simp add: lens_def)
  have nl': "nl = oh_py_name_len h" using nl assms(5) by (simp add: word_unat_eq_iff nm_def)
  have ser: "serialize_trailer crc64 h = body @ le64 (data_checksum crc64 body)"
    unfolding serialize_trailer_def Let_def lens_def [symmetric] nm_def [symmetric]
      tn_def [symmetric] nl_def [symmetric] by (simp add: tn body_def)
  have lb: "length body = 4 * length lens + length nm + 24" by (simp add: body_def)
  let ?rec = "blocks @ serialize_trailer crc64 h" and ?pre = "blocks @ table_bytes lens @ nm"
  have rec: "?rec = ?pre @ fixed_bytes h nl tn @ le64 (data_checksum crc64 body)" by (simp add: ser body_def)
  have len: "length ?rec = length blocks + length body + 8" by (simp add: ser c64.enc_length)
  note f = fields_at [of "length ?pre" ?pre h nl tn "le64 (data_checksum crc64 body)", OF refl, folded rec]
  have hp: "length ?rec - 8 - fixed_header_size = length ?pre" by (simp add: ser c64.enc_length lb)
  have crc: "rd_le64 (bytes_at (length ?rec - 8) 8 ?rec) = data_checksum crc64 body"
    using bytes_at_append [of "blocks @ body" 0 8 "le64 (data_checksum crc64 body)"]
    by (simp add: len ser c64.enc_length c64.dec_enc)
  have bd: "bytes_at (length blocks) (length body) ?rec = body"
    using bytes_at_prefix [of "length body" body blocks] by (simp add: ser)
  have tb: "bytes_at (length blocks) (unat tn) ?rec = table_bytes lens"
    using bytes_at_prefix [of "unat tn" "table_bytes lens" blocks] by (simp add: ser body_def tn)
  have nm: "bytes_at (length blocks + unat tn) (unat nl) ?rec = nm"
    using bytes_at_prefix [of "unat nl" nm "blocks @ table_bytes lens"] by (simp add: ser body_def tn nl mult.commute)
  have start: "length ?rec - 8 - length body = length blocks" by (simp add: ser c64.enc_length)
  have bl: "unat tn + unat nl + fixed_header_size = length body" by (simp add: lb tn nl)
  have rt: "read_table (unat tn div 4) (table_bytes lens) = lens" using read_table_bytes [of lens] by (simp add: tn)
  have "oh_magic h = FLY_OBJECT_MAGIC" "\<not> oh_version h > FLY_OBJECT_VERSION" "unat tn = unat (oh_chunk_count h) * 4"
    "\<not> length ?rec < fixed_header_size + 8" "\<not> length ?rec < length body + 8"
    using assms(1,4) tn by (simp_all add: header_ok_def is_valid_header_def lens_def ser c64.enc_length lb not_less)
  then show ?thesis
    unfolding deserialize_trailer_def Let_def hp f crc bl start bd tb nm rt compression_roundtrip
    by (simp add: nl' lens_def nm_def ser c64.enc_length)
qed

section \<open>Properties\<close>

text \<open>
  C12: A record trailer can be parsed back from the end of any record.  For a header with the
  current magic and version whose name is shorter than \<open>2 ^ 16\<close> bytes and whose block count is the
  number of block lengths (below \<open>2 ^ 30\<close>), parsing block bytes followed by the serialised
  trailer returns the header and the length of the trailer, whatever the block bytes and the
  checksum routine are.
\<close>

theorem trailer_roundtrip:
  assumes "header_ok h" and "length (oh_py_name h) < 2 ^ 16" and "length (oh_block_comp_lens h) < 2 ^ 30"
    and "unat (oh_chunk_count h) = length (oh_block_comp_lens h)"
    and "unat (oh_py_name_len h) = length (oh_py_name h)"
  shows "deserialize_trailer crc64 (blocks @ serialize_trailer crc64 h) =
    Some (h, length (serialize_trailer crc64 h))"
  by (rule trailer_parse_serialized [OF assms])

definition demo_header :: object_header where
  "demo_header = \<lparr>oh_magic = FLY_OBJECT_MAGIC, oh_version = 1, oh_py_name_len = 2, oh_py_name = [97, 98],
     oh_total_size = 1000, oh_chunk_count = 2, oh_compression = ZSTD, oh_block_comp_lens = [300, 7]\<rparr>"

definition demo_crc :: "64 word \<Rightarrow> byte list \<Rightarrow> 64 word" where
  "demo_crc s bs = fold (\<lambda>b s. s * 31 + ucast b + 1) bs s"

theorem trailer_roundtrip_witness:
  "deserialize_trailer demo_crc ([1, 2, 3] @ serialize_trailer demo_crc demo_header) =
     Some (demo_header, length (serialize_trailer demo_crc demo_header))"
  by (rule trailer_roundtrip)
     (simp_all add: demo_header_def header_ok_def is_valid_header_def FLY_OBJECT_VERSION_def)

lemma bytes_at_end: "n \<le> length xs \<Longrightarrow> bytes_at (length xs - n) n xs = drop (length xs - n) xs"
  by (simp add: bytes_at_def)

text \<open>
  The trailer format is canonical.  Whenever a record is accepted, serialising the parsed
  header gives back exactly the trailing bytes of the record: no two different trailers are
  accepted as the same header, and every accepted trailer carries the checksum of its body.
\<close>

theorem trailer_canonical:
  assumes "deserialize_trailer crc64 record = Some (h, n)"
  shows "n \<le> length record \<and> serialize_trailer crc64 h = drop (length record - n) record \<and>
    header_ok h \<and> unat (oh_chunk_count h) = length (oh_block_comp_lens h)"
proof -
  define p where "p = length record - 8 - fixed_header_size"
  define nl where "nl = rd_le16 (bytes_at (p + 5) 2 record)"
  define tn where "tn = rd_le32 (bytes_at (p + 7) 4 record)"
  define cnt where "cnt = rd_le32 (bytes_at (p + 19) 4 record)"
  define b where "b = length record - 8 - (unat tn + unat nl + fixed_header_size)"
  define ls where "ls = read_table (unat tn div 4) (bytes_at b (unat tn) record)"
  define nm where "nm = bytes_at (b + unat tn) (unat nl) record"
  have len: "32 \<le> length record" and magic: "rd_le32 (bytes_at p 4 record) = FLY_OBJECT_MAGIC"
    and ver: "record ! (p + 4) \<le> FLY_OBJECT_VERSION" and comp: "is_valid_compression_type (record ! (p + 23))"
    and tnc: "unat tn = unat cnt * 4" and long: "unat tn + unat nl + 24 + 8 \<le> length record"
    and crc: "data_checksum crc64 (bytes_at b (unat tn + unat nl + 24) record) =
      rd_le64 (bytes_at (length record - 8) 8 record)"
    and n: "n = unat tn + unat nl + 24 + 8"
    and h: "h = \<lparr>oh_magic = rd_le32 (bytes_at p 4 record), oh_version = record ! (p + 4), oh_py_name_len = nl,
      oh_py_name = nm, oh_total_size = rd_le64 (bytes_at (p + 11) 8 record), oh_chunk_count = cnt,
      oh_compression = compression_of (record ! (p + 23)), oh_block_comp_lens = ls\<rparr>"
    using assms unfolding deserialize_trailer_def Let_def p_def [symmetric] nl_def [symmetric] tn_def [symmetric]
      cnt_def [symmetric] b_def [symmetric] ls_def [symmetric] nm_def [symmetric]
    by (simp_all add: not_less split: if_splits)
  have p: "p = b + unat tn + unat nl" using long by (simp add: p_def b_def)
  have lls: "length ls * 4 = unat tn" by (simp add: ls_def read_table_def tnc)
  have lnm: "length nm = unat nl" using long by (simp add: nm_def length_bytes_at b_def)
  have tb: "table_bytes ls = bytes_at b (unat tn) record"
    unfolding ls_def by (rule table_bytes_read) (use long tnc in \<open>simp add: length_bytes_at b_def\<close>)
  define f where "f = bytes_at p 24 record"
  have lf: "length f = 24" using len by (simp add: f_def length_bytes_at p_def)
  have p24: "p + 24 \<le> length record" using len by (simp add: p_def)
  have "fixed_bytes h nl tn = f"
    using fixed_bytes_read [OF lf, of nl nm ls] comp p24
    by (simp add: h f_def nth_bytes_at bytes_at_bytes_at nl_def tn_def cnt_def del: bytes_at_0)
  then have body: "table_bytes ls @ nm @ fixed_bytes h nl tn = bytes_at b (unat tn + unat nl + 24) record"
    using bytes_at_join [of "b + unat tn" "unat nl" "record" 24] bytes_at_join [of b "unat tn" "record" "unat nl + 24"]
    by (simp add: tb nm_def f_def p add.assoc)
  have "serialize_trailer crc64 h = bytes_at b (unat tn + unat nl + 24) record @ bytes_at (length record - 8) 8 record"
    unfolding serialize_trailer_def Let_def
    using body crc len lls lnm
    by (simp add: h tb [symmetric] c64.enc_dec length_bytes_at del: of_nat_mult)
  also have "\<dots> = drop (length record - n) record"
  proof -
    have "length record - 8 = b + (unat tn + unat nl + 24)" using long by (simp add: b_def)
    then show ?thesis
      using bytes_at_join [of b "unat tn + unat nl + 24" "record" 8] long
      by (simp add: n b_def bytes_at_end [symmetric])
  qed
  finally show ?thesis
    using long n magic ver h lls tnc by (simp add: header_ok_def is_valid_header_def)
qed

theorem trailer_canonical_witness:
  "serialize_trailer demo_crc demo_header =
     drop 3 ([1, 2, 3] @ serialize_trailer demo_crc demo_header) \<and> header_ok demo_header"
proof -
  have d: "deserialize_trailer demo_crc ([1, 2, 3] @ serialize_trailer demo_crc demo_header) =
      Some (demo_header, length (serialize_trailer demo_crc demo_header))"
    by (rule trailer_parse_serialized)
       (simp_all add: demo_header_def header_ok_def is_valid_header_def FLY_OBJECT_VERSION_def)
  show ?thesis using trailer_canonical [OF d] by simp
qed

text \<open>
  The in-memory header is read back from any position.  Parsing at the start of a serialised
  header returns its fields and the position behind it; the name comes back whole when it is
  shorter than \<open>2 ^ 16\<close> bytes and is otherwise cut to its length modulo \<open>2 ^ 16\<close>, because the
  length field has 16 bits.
\<close>

theorem header_roundtrip:
  assumes "header_ok h"
  shows "deserialize (pre @ serialize h @ post) (length pre) =
    Some (h\<lparr>oh_py_name_len := word_of_nat (length (oh_py_name h)),
            oh_py_name := take (length (oh_py_name h) mod 65536) (oh_py_name h),
            oh_block_comp_lens := []\<rparr>,
          length pre + 24 + length (oh_py_name h) mod 65536)"
proof -
  define nl where "nl = (word_of_nat (length (oh_py_name h)) :: 16 word)"
  have nl: "unat nl = length (oh_py_name h) mod 65536" by (simp add: nl_def unat_name_len)
  let ?d = "pre @ serialize h @ post"
  have d: "?d = pre @ fixed_bytes h nl 0 @ oh_py_name h @ post" by (simp add: serialize_def nl_def)
  note f = fields_at [of "length pre" pre h nl 0 "oh_py_name h @ post", OF refl, folded d]
  have nm: "bytes_at (length pre + 24) (unat nl) ?d = take (unat nl) (oh_py_name h)"
    using bytes_at_length [of "pre @ fixed_bytes h nl 0" "unat nl" "oh_py_name h @ post"] nl
    by (simp add: d mod_less_eq_dividend)
  have "\<not> length ?d < length pre + fixed_header_size" "\<not> length ?d < length pre + 24 + unat nl"
    using nl by (simp_all add: d not_less)
  then show ?thesis
    using assms unfolding deserialize_def Let_def f nm compression_roundtrip
    by (simp add: header_ok_def is_valid_header_def nl [symmetric] nl_def [symmetric] not_less)
qed

theorem header_roundtrip_witness:
  "deserialize ([9, 9] @ serialize demo_header @ [1]) 2 = Some (demo_header\<lparr>oh_block_comp_lens := []\<rparr>, 28)"
  using header_roundtrip [of demo_header "[9, 9]" "[1]"]
  by (simp add: demo_header_def header_ok_def is_valid_header_def FLY_OBJECT_VERSION_def numeral_2_eq_2)

text \<open>
  The incremental checksum agrees with the one-shot checksum for every way of cutting the
  data into pieces, given that the CRC routine chains: running it over a concatenation is running
  it over the second part with the result of the first as seed, and it leaves the seed alone on
  no data.
\<close>

theorem checksum_incremental:
  assumes "\<And>s. crc64 s [] = s" and "\<And>s a b. crc64 s (a @ b) = crc64 (crc64 s a) b"
  shows "checksum_final (fold (checksum_update crc64) pieces checksum_init) = data_checksum crc64 (concat pieces)"
proof -
  have "fold (checksum_update crc64) pieces s = crc64 s (concat pieces)" for s
    by (induction pieces arbitrary: s) (simp_all add: checksum_update_def assms)
  then show ?thesis by (simp add: checksum_final_def checksum_init_def data_checksum_def)
qed

theorem checksum_incremental_witness:
  "checksum_final (fold (checksum_update demo_crc) [[1, 2], [], [3]] checksum_init) = data_checksum demo_crc [1, 2, 3]"
  using checksum_incremental [of demo_crc "[[1, 2], [], [3]]"] by (simp add: demo_crc_def)

end
