(* ===== verification/Message_Protocol.thy ===== *)
theory Message_Protocol
  imports Object_Header
begin

text \<open>
  Framing of network messages, src/network/cpp/message_protocol.h, with the message type codes of
  src/network/cpp/message_types.h.  A message type is the byte that carries it, because the code
  casts any byte that passes \<open>is_valid_message_type\<close>.  The bitsery encoder and decoder behind
  \<open>FLY_ENCODE\<close> and \<open>FLY_DECODE\<close> are the parameters \<open>enc\<close> and \<open>dec\<close>; a decoder that throws is one
  that returns \<open>None\<close>.
\<close>

section \<open>Frame header\<close>

definition FRAME_LEN_MASK :: "64 word" where
  "FRAME_LEN_MASK = 0x0000FFFFFFFFFFFF"

definition FRAME_CHECK_MAGIC :: "64 word" where
  "FRAME_CHECK_MAGIC = 0xF17E"

definition fold16 :: "64 word \<Rightarrow> 64 word" where
  "fold16 len = (len XOR drop_bit 16 len XOR drop_bit 32 len) AND 0xFFFF"

definition make_frame_header :: "64 word \<Rightarrow> 64 word" where
  "make_frame_header total_len =
     push_bit 48 (FRAME_CHECK_MAGIC XOR fold16 total_len) OR (total_len AND FRAME_LEN_MASK)"

definition parse_frame_header :: "byte list \<Rightarrow> 64 word option" where
  "parse_frame_header p8 =
     (let hdr = read_be64 p8; len = hdr AND FRAME_LEN_MASK; check = drop_bit 48 hdr
      in if len = 0 then None
         else if check \<noteq> ((FRAME_CHECK_MAGIC XOR fold16 len) AND 0xFFFF) then None
         else Some len)"

section \<open>Single-segment messages\<close>

definition MSG_INVALID :: byte where "MSG_INVALID = 0"
definition MSG_DATA_RESPONSE :: byte where "MSG_DATA_RESPONSE = 12"
definition MSG_DATA_CHUNK :: byte where "MSG_DATA_CHUNK = 63"

definition is_valid_message_type :: "byte \<Rightarrow> bool" where
  "is_valid_message_type raw \<longleftrightarrow> raw \<ge> 1 \<and> raw \<le> 68"

definition msg_encode :: "byte \<Rightarrow> byte list \<Rightarrow> byte list" where
  "msg_encode ty payload =
     (let total_len = 1 + word_of_nat (length payload)
      in write_be64 (make_frame_header total_len) @ [ty] @ payload)"

text \<open>\<open>cfield\<close> is the compression field of the two message types that carry one.\<close>

definition msg_decode ::
  "byte \<Rightarrow> (byte list \<Rightarrow> 'm option) \<Rightarrow> ('m \<Rightarrow> byte) option \<Rightarrow> byte list \<Rightarrow> ('m \<times> byte list) option"
where
  "msg_decode ty dec cfield buffer =
     (if length buffer < 9 then None
      else case parse_frame_header (take 8 buffer) of
        None \<Rightarrow> None
      | Some total_len \<Rightarrow>
          if length buffer < 8 + unat total_len then None
          else
            let raw_type = buffer ! 8
            in if \<not> is_valid_message_type raw_type then None
               else if raw_type \<noteq> ty then None
               else case dec (take (unat (total_len - 1)) (drop 9 buffer)) of
                 None \<Rightarrow> None
               | Some m \<Rightarrow>
                   if (case cfield of None \<Rightarrow> False | Some f \<Rightarrow> \<not> is_valid_compression_type (f m)) then None
                   else Some (m, drop (8 + unat total_len) buffer))"

definition get_type :: "byte list \<Rightarrow> byte" where
  "get_type buffer =
     (if length buffer < 9 then MSG_INVALID
      else case parse_frame_header (take 8 buffer) of
        None \<Rightarrow> MSG_INVALID
      | Some total_len \<Rightarrow>
          if length buffer < 8 + unat total_len then MSG_INVALID
          else if \<not> is_valid_message_type (buffer ! 8) then MSG_INVALID
          else buffer ! 8)"

definition get_total_size :: "byte list \<Rightarrow> 64 word" where
  "get_total_size buffer =
     (if length buffer < 8 then 0
      else case parse_frame_header (take 8 buffer) of None \<Rightarrow> 0 | Some total_len \<Rightarrow> total_len)"

definition get_payload_size :: "byte list \<Rightarrow> 64 word" where
  "get_payload_size buffer =
     (let total_len = get_total_size buffer in if total_len > 0 then total_len - 1 else 0)"

section \<open>Two-segment messages\<close>

text \<open>\<open>raw\<close> is the shared buffer, \<open>None\<close> a null pointer.  The result is (header segment, raw bytes sent).\<close>

definition dr_encode :: "byte list \<Rightarrow> byte list option \<Rightarrow> byte list \<times> byte list" where
  "dr_encode small_payload raw =
     (let has_raw = (case raw of None \<Rightarrow> False | Some r \<Rightarrow> r \<noteq> []);
          raw_bytes = (case raw of None \<Rightarrow> [] | Some r \<Rightarrow> r);
          raw_len = (if has_raw then word_of_nat (length raw_bytes) else 0) :: 64 word;
          small_fields_len = word_of_nat (length small_payload) :: 64 word;
          total_len = 1 + 4 + 1 + small_fields_len + raw_len
      in (write_be64 (make_frame_header total_len) @ [MSG_DATA_RESPONSE] @
          write_be32 (ucast small_fields_len) @ [if has_raw then 1 else 0] @ small_payload,
          if has_raw then raw_bytes else []))"

definition parse_sub_header :: "byte list \<Rightarrow> 32 word \<times> bool" where
  "parse_sub_header sub = (read_be32 (take 4 sub), sub ! 4 \<noteq> 0)"

definition dr_raw_len_from_total :: "64 word \<Rightarrow> 64 word \<Rightarrow> 64 word" where
  "dr_raw_len_from_total total_len small_fields_len =
     (let overhead = 1 + 4 + 1 + small_fields_len
      in if total_len > overhead then total_len - overhead else 0)"

definition kSmallFieldsLen :: "32 word" where
  "kSmallFieldsLen = 16"

definition chunk_encode_header :: "64 word \<Rightarrow> 64 word \<Rightarrow> 64 word \<Rightarrow> byte list" where
  "chunk_encode_header offset chunk_crc raw_len =
     (let total_len = 1 + 4 + ucast kSmallFieldsLen + raw_len
      in write_be64 (make_frame_header total_len) @ [MSG_DATA_CHUNK] @ write_be32 kSmallFieldsLen @
         write_be64 offset @ write_be64 chunk_crc)"

definition chunk_parse_small_fields :: "byte list \<Rightarrow> 32 word \<Rightarrow> (64 word \<times> 64 word) option" where
  "chunk_parse_small_fields p16 small_fields_len =
     (if small_fields_len \<noteq> kSmallFieldsLen then None
      else Some (read_be64 (take 8 p16), read_be64 (take 8 (drop 8 p16))))"

definition chunk_raw_len_from_total :: "64 word \<Rightarrow> 64 word" where
  "chunk_raw_len_from_total total_len =
     (let overhead = 1 + 4 + ucast kSmallFieldsLen
      in if total_len > overhead then total_len - overhead else 0)"

section \<open>Bits of the frame header\<close>

lemma len_mask: "FRAME_LEN_MASK = mask 48"
  by (simp add: FRAME_LEN_MASK_def mask_eq_exp_minus_1)

lemma mask16: "(0xFFFF :: 64 word) = mask 16"
  by (simp add: mask_eq_exp_minus_1)

lemma bit_fold16:
  "bit (fold16 l) k \<longleftrightarrow> k < 16 \<and> ((bit l k \<noteq> bit l (k + 16)) \<noteq> bit l (k + 32))"
  by (auto simp: fold16_def mask16 bit_and_iff bit_xor_iff bit_mask_iff bit_drop_bit_eq add.commute)

definition check_field :: "64 word \<Rightarrow> 64 word" where
  "check_field l = FRAME_CHECK_MAGIC XOR fold16 l"

lemma magic_bits: "bit FRAME_CHECK_MAGIC k \<Longrightarrow> k < 16"
proof -
  have "take_bit 16 FRAME_CHECK_MAGIC = FRAME_CHECK_MAGIC" by (simp add: FRAME_CHECK_MAGIC_def)
  moreover assume "bit FRAME_CHECK_MAGIC k"
  ultimately show ?thesis by (metis bit_take_bit_iff)
qed

lemma bit_check_field: "bit (check_field l) k \<Longrightarrow> k < 16"
  using magic_bits by (auto simp: check_field_def bit_xor_iff bit_fold16)

lemma check_field_mask: "check_field l AND 0xFFFF = check_field l"
  by (rule bit_word_eqI) (auto simp: mask16 bit_and_iff bit_mask_iff dest: bit_check_field)

lemma bit_make_frame_header:
  "bit (make_frame_header l) k \<longleftrightarrow>
     (if k < 48 then bit l k else k < 64 \<and> bit (check_field l) (k - 48))"
  by (auto simp: make_frame_header_def check_field_def [symmetric] len_mask bit_or_iff bit_push_bit_iff
    bit_and_iff bit_mask_iff dest: bit_imp_le_length)

lemma parse_frame_header_eq:
  "parse_frame_header p =
     (let hdr = read_be64 p; len = hdr AND mask 48
      in if len = 0 \<or> drop_bit 48 hdr \<noteq> check_field len then None else Some len)"
  by (simp add: parse_frame_header_def Let_def len_mask check_field_def [symmetric] check_field_mask)

text \<open>A header is accepted exactly when it is the header made for its length field.\<close>

lemma parse_frame_header_iff:
  "parse_frame_header p = Some l \<longleftrightarrow> l \<noteq> 0 \<and> l AND mask 48 = l \<and> read_be64 p = make_frame_header l"
proof -
  have key: "drop_bit 48 h = check_field (h AND mask 48) \<longleftrightarrow> h = make_frame_header (h AND mask 48)" for h
  proof
    assume d: "drop_bit 48 h = check_field (h AND mask 48)"
    show "h = make_frame_header (h AND mask 48)"
    proof (rule bit_word_eqI)
      fix k assume "k < LENGTH(64)"
      moreover have "\<not> k < 48 \<Longrightarrow> bit (drop_bit 48 h) (k - 48) = bit h k" by (simp add: bit_drop_bit_eq)
      ultimately show "bit h k = bit (make_frame_header (h AND mask 48)) k"
        using d by (auto simp: bit_make_frame_header bit_and_iff bit_mask_iff)
    qed
  next
    assume h: "h = make_frame_header (h AND mask 48)"
    show "drop_bit 48 h = check_field (h AND mask 48)"
    proof (rule bit_word_eqI)
      fix k assume "k < LENGTH(64)"
      have "bit h (48 + k) = bit (make_frame_header (h AND mask 48)) (48 + k)" using h by metis
      then show "bit (drop_bit 48 h) k = bit (check_field (h AND mask 48)) k"
        by (auto simp: bit_drop_bit_eq bit_make_frame_header dest: bit_check_field)
    qed
  qed
  have len: "make_frame_header l AND mask 48 = l AND mask 48" for l
    by (rule bit_word_eqI) (auto simp: bit_and_iff bit_mask_iff bit_make_frame_header)
  show ?thesis
    unfolding parse_frame_header_eq Let_def key using len by (auto simp: and.assoc)
qed

lemma len_field_iff: "l AND mask 48 = l \<longleftrightarrow> unat l < 2 ^ 48" for l :: "64 word"
proof -
  have "l AND mask 48 = take_bit 48 l" by (simp add: take_bit_eq_mask)
  moreover have "take_bit 48 l = l \<longleftrightarrow> unat l < 2 ^ 48"
    by (simp add: word_unat_eq_iff unsigned_take_bit_eq take_bit_nat_eq_self_iff)
  ultimately show ?thesis by simp
qed

lemma parse_made_header:
  "0 < unat l \<Longrightarrow> unat l < 2 ^ 48 \<Longrightarrow> parse_frame_header (write_be64 (make_frame_header l)) = Some l"
  by (simp add: parse_frame_header_iff len_field_iff b64.dec_enc unat_gt_0)

lemma unat_frame_len: "n < 2 ^ 48 - 1 \<Longrightarrow> unat (1 + word_of_nat n :: 64 word) = Suc n"
proof -
  assume n: "n < 2 ^ 48 - 1"
  have "1 + word_of_nat n = (word_of_nat (Suc n) :: 64 word)" by simp
  then show ?thesis using n by (simp add: unat_of_nat del: of_nat_Suc)
qed

section \<open>Properties\<close>

text \<open>
  C13: Every frame that is sent is received unchanged, whatever follows it in the buffer: decoding
  an encoded message returns the message and leaves exactly the bytes behind the frame, for every
  valid type code and every payload below the 48-bit length limit, given that the message decoder
  inverts the message encoder on it and its compression field, if any, is valid.
\<close>

theorem frame_roundtrip:
  assumes "dec (enc m) = Some m" and "is_valid_message_type ty" and "length (enc m) < 2 ^ 48 - 1"
    and "\<And>f. cfield = Some f \<Longrightarrow> is_valid_compression_type (f m)"
  shows "msg_decode ty dec cfield (msg_encode ty (enc m) @ rest) = Some (m, rest)"
proof -
  define l where "l = (1 + word_of_nat (length (enc m)) :: 64 word)"
  have l: "unat l = Suc (length (enc m))" unfolding l_def by (rule unat_frame_len [OF assms(3)])
  have enc: "msg_encode ty (enc m) = write_be64 (make_frame_header l) @ [ty] @ enc m"
    by (simp add: msg_encode_def Let_def l_def)
  have p: "parse_frame_header (write_be64 (make_frame_header l)) = Some l"
    by (rule parse_made_header) (use l assms(3) in auto)
  have "unat (l - 1) = length (enc m)" by (simp add: l_def unat_of_nat) (use assms(3) in simp)
  moreover have "(case cfield of None \<Rightarrow> False | Some f \<Rightarrow> \<not> is_valid_compression_type (f m)) = False"
    using assms(4) by (simp split: option.split)
  ultimately show ?thesis
    using assms(1,2) by (simp add: msg_decode_def enc b64.enc_length p l nth_append)
qed

theorem frame_roundtrip_witness:
  "msg_decode 3 (\<lambda>bs. Some (rev bs)) None (msg_encode 3 (rev [7, 8]) @ [1, 2, 3]) = Some ([7, 8], [1, 2, 3])"
  by (rule frame_roundtrip) (simp_all add: is_valid_message_type_def)

text \<open>
  A frame is accepted only if it is a frame the encoder produces.  Whenever a buffer is
  decoded, it starts with the encoding of a payload that decodes to the message, and what is left
  is exactly the rest; at least nine bytes are consumed, so a receive loop always makes progress.
\<close>

theorem frame_canonical:
  assumes "msg_decode ty dec cfield buffer = Some (m, rest)"
  shows "\<exists>payload. buffer = msg_encode ty payload @ rest \<and> dec payload = Some m \<and>
    is_valid_message_type ty \<and> length rest + 9 \<le> length buffer"
proof -
  obtain l where p: "parse_frame_header (take 8 buffer) = Some l" and len: "9 \<le> length buffer"
    and long: "8 + unat l \<le> length buffer" and ty: "is_valid_message_type ty" "buffer ! 8 = ty"
    and m: "dec (take (unat (l - 1)) (drop 9 buffer)) = Some m" and rest: "rest = drop (8 + unat l) buffer"
    using assms by (auto simp: msg_decode_def Let_def not_less split: if_splits option.splits)
  have l: "l \<noteq> 0" "read_be64 (take 8 buffer) = make_frame_header l" "unat l < 2 ^ 48"
    using p unfolding parse_frame_header_iff by (simp_all add: len_field_iff)
  have l1: "unat (l - 1) = unat l - 1" using l(1) by (simp add: unat_minus_one)
  have pos: "0 < unat l" using l(1) by (simp add: unat_gt_0)
  let ?pl = "take (unat (l - 1)) (drop 9 buffer)"
  have "length ?pl = unat l - 1" using long l1 by simp
  then have "1 + word_of_nat (length ?pl) = l" using pos by (simp add: of_nat_diff)
  moreover have "write_be64 (make_frame_header l) = take 8 buffer"
    using b64.enc_dec [of "take 8 buffer"] len l(2) by simp
  ultimately have "msg_encode ty ?pl = take 8 buffer @ [buffer ! 8] @ ?pl"
    by (simp add: msg_encode_def Let_def ty(2))
  also have "\<dots> = take (8 + unat l) buffer"
  proof -
    have "take (8 + unat l) buffer = take 8 buffer @ take (Suc (unat l - 1)) (drop 8 buffer)"
      using pos by (simp add: take_add)
    also have "drop 8 buffer = buffer ! 8 # drop 9 buffer"
      using Cons_nth_drop_Suc [of 8 buffer] len by simp
    finally show ?thesis by (simp add: l1)
  qed
  finally have "buffer = msg_encode ty ?pl @ rest" using rest by simp
  then show ?thesis using m ty(1) rest long pos by (intro exI [of _ ?pl]) simp
qed

theorem frame_canonical_witness:
  "\<exists>payload. msg_encode 3 [8, 7] @ [1] = msg_encode 3 payload @ [1] \<and>
     (\<lambda>bs. Some (rev bs)) payload = Some [7, 8]"
proof -
  have "msg_decode 3 (\<lambda>bs. Some (rev bs)) None (msg_encode 3 [8, 7] @ [1]) = Some ([7, 8], [1])"
    by (simp add: msg_decode_def msg_encode_def b64.enc_length parse_made_header nth_append is_valid_message_type_def)
  from frame_canonical [OF this] show ?thesis by blast
qed

text \<open>
  C14: Any single flipped bit in the eight header bytes of a frame is detected: the header is
  rejected, whether the flip hits the length field or the check field.
\<close>

theorem header_bit_flip_rejected:
  assumes "0 < unat l" and "unat l < 2 ^ 48" and "i < 64"
  shows "parse_frame_header (write_be64 (flip_bit i (make_frame_header l))) = None"
proof (rule ccontr)
  let ?h = "flip_bit i (make_frame_header l)"
  assume "parse_frame_header (write_be64 ?h) \<noteq> None"
  then obtain l' where l': "l' AND mask 48 = l'" and h: "?h = make_frame_header l'"
    by (auto simp: parse_frame_header_iff b64.dec_enc)
  have b: "bit ?h k \<longleftrightarrow> bit (make_frame_header l) k \<noteq> (k = i)" if "k < 64" for k
    using that assms(3) by (auto simp: bit_flip_bit_iff)
  have low: "k < 48 \<Longrightarrow> bit l' k \<longleftrightarrow> bit l k \<noteq> (k = i)" for k
    using b [of k] unfolding h by (simp add: bit_make_frame_header)
  have high: "\<not> bit l k \<and> \<not> bit l' k" if "\<not> k < 48" for k
  proof -
    have "l AND mask 48 = l" using assms(2) by (simp add: len_field_iff)
    then have "bit l k = bit (l AND mask 48) k" "bit l' k = bit (l' AND mask 48) k" using l' by simp_all
    then show ?thesis using that by (simp add: bit_and_iff bit_mask_iff)
  qed
  have chk: "k < 16 \<Longrightarrow> bit (fold16 l') k \<longleftrightarrow> bit (fold16 l) k \<noteq> (k + 48 = i)" for k
    using b [of "k + 48"] unfolding h by (auto simp: bit_make_frame_header check_field_def bit_xor_iff)
  show False
  proof (cases "i < 48")
    case True
    let ?k = "i mod 16"
    have "?k < 16" by simp
    moreover have "i = ?k \<or> i = ?k + 16 \<or> i = ?k + 32" using True by presburger
    ultimately show False
      using chk [of ?k] low [of ?k] low [of "?k + 16"] low [of "?k + 32"] True by (auto simp: bit_fold16)
  next
    case False
    have "bit l' k = bit l k" for k using low [of k] high [of k] False by (cases "k < 48") auto
    then have "l' = l" by (intro bit_word_eqI)
    moreover have "i - 48 < 16" "i - 48 + 48 = i" using False assms(3) by auto
    ultimately show False using chk [of "i - 48"] by simp
  qed
qed

theorem header_bit_flip_rejected_witness:
  "parse_frame_header (write_be64 (flip_bit 5 (make_frame_header 1000))) = None \<and>
   parse_frame_header (write_be64 (make_frame_header 1000)) = Some 1000"
  using header_bit_flip_rejected [of 1000 5] parse_made_header [of 1000] by simp

text \<open>
  The header of a two-segment data response tells the receiver everything: for small fields
  below \<open>2 ^ 32\<close> bytes and a frame below \<open>2 ^ 48\<close>, the receiver reads the total length, the type,
  the length of the small fields, whether raw bytes follow, the small fields themselves, and
  computes exactly the number of raw bytes that were sent.
\<close>

theorem data_response_header:
  assumes "dr_encode small raw = (hdr, raw_bytes)" and "length small < 2 ^ 32"
    and "6 + length small + length raw_bytes < 2 ^ 48"
  shows "\<exists>total. parse_frame_header (take 8 hdr) = Some total \<and>
    unat total + 8 = length hdr + length raw_bytes \<and> hdr ! 8 = MSG_DATA_RESPONSE \<and>
    parse_sub_header (take 5 (drop 9 hdr)) = (word_of_nat (length small), raw_bytes \<noteq> []) \<and>
    drop 14 hdr = small \<and>
    unat (dr_raw_len_from_total total (word_of_nat (length small))) = length raw_bytes"
proof -
  define total where "total = (word_of_nat (6 + length small + length raw_bytes) :: 64 word)"
  have ut: "unat total = 6 + length small + length raw_bytes"
    using assms(3) by (simp add: total_def unat_of_nat del: of_nat_add of_nat_numeral)
  have sm: "(ucast (word_of_nat (length small) :: 64 word) :: 32 word) = word_of_nat (length small)"
    using assms(2) by (simp add: unsigned_of_nat take_bit_nat_eq_self)
  have raw: "raw_bytes = (case raw of None \<Rightarrow> [] | Some r \<Rightarrow> r)"
    and hdr: "hdr = write_be64 (make_frame_header total) @ [MSG_DATA_RESPONSE] @
      write_be32 (word_of_nat (length small)) @ [if raw_bytes \<noteq> [] then 1 else 0] @ small"
    using assms(1) sm by (auto simp: dr_encode_def Let_def total_def add.assoc split: option.splits if_splits)
  have p: "parse_frame_header (write_be64 (make_frame_header total)) = Some total"
    by (rule parse_made_header) (use ut assms(3) in auto)
  have "6 + word_of_nat (length small) = (word_of_nat (6 + length small) :: 64 word)" by simp
  then have ov: "unat (6 + word_of_nat (length small) :: 64 word) = 6 + length small"
    using assms(2) by (simp add: unat_of_nat del: of_nat_add of_nat_numeral)
  have "unat (dr_raw_len_from_total total (word_of_nat (length small))) = length raw_bytes"
    using ut ov by (auto simp: dr_raw_len_from_total_def Let_def word_less_nat_alt unat_sub word_le_nat_alt)
  moreover have "take 8 hdr = write_be64 (make_frame_header total)" "hdr ! 8 = MSG_DATA_RESPONSE"
    "take 4 (take 5 (drop 9 hdr)) = write_be32 (word_of_nat (length small))"
    "take 5 (drop 9 hdr) ! 4 = (if raw_bytes \<noteq> [] then 1 else 0)" "drop 14 hdr = small"
    by (simp_all add: hdr b64.enc_length b32.enc_length nth_append)
  ultimately show ?thesis
    using p ut by (intro exI [of _ total])
      (simp add: parse_sub_header_def b32.dec_enc hdr b64.enc_length b32.enc_length)
qed

theorem data_response_header_witness:
  "\<exists>total. parse_frame_header (take 8 (fst (dr_encode [5, 6] (Some [1, 2, 3])))) = Some total \<and>
     unat (dr_raw_len_from_total total 2) = 3"
proof -
  have "dr_encode [5, 6] (Some [1, 2, 3]) = (fst (dr_encode [5, 6] (Some [1, 2, 3])), [1, 2, 3])"
    by (simp add: dr_encode_def Let_def)
  from data_response_header [OF this] show ?thesis by auto
qed

text \<open>
  The header of a chunk frame is read back: total length, type, the 16-byte marker, offset
  and checksum, and the number of raw bytes, for every frame below the 48-bit limit; a header with
  another small-field length is refused.
\<close>

theorem chunk_header_roundtrip:
  assumes "21 + unat raw_len < 2 ^ 48"
  shows "\<exists>total. parse_frame_header (take 8 (chunk_encode_header offset crc raw_len)) = Some total \<and>
    chunk_encode_header offset crc raw_len ! 8 = MSG_DATA_CHUNK \<and>
    read_be32 (take 4 (drop 9 (chunk_encode_header offset crc raw_len))) = kSmallFieldsLen \<and>
    chunk_parse_small_fields (drop 13 (chunk_encode_header offset crc raw_len)) kSmallFieldsLen = Some (offset, crc) \<and>
    (n \<noteq> kSmallFieldsLen \<longrightarrow> chunk_parse_small_fields (drop 13 (chunk_encode_header offset crc raw_len)) n = None) \<and>
    chunk_raw_len_from_total total = raw_len"
proof -
  define total where "total = 1 + 4 + ucast kSmallFieldsLen + raw_len"
  have k: "(ucast kSmallFieldsLen :: 64 word) = 16" by (simp add: kSmallFieldsLen_def)
  have t: "total = 21 + raw_len" by (simp add: total_def k)
  have ut: "unat total = 21 + unat raw_len" unfolding t using assms by (subst unat_add_lem [THEN iffD1]) auto
  have hdr: "chunk_encode_header offset crc raw_len = write_be64 (make_frame_header total) @ [MSG_DATA_CHUNK] @
      write_be32 kSmallFieldsLen @ write_be64 offset @ write_be64 crc"
    by (simp add: chunk_encode_header_def Let_def total_def)
  have p: "parse_frame_header (write_be64 (make_frame_header total)) = Some total"
    by (rule parse_made_header) (use ut assms in auto)
  have "chunk_raw_len_from_total total = raw_len"
  proof (cases "raw_len = 0")
    case False
    then have "total > 21" using ut by (simp add: word_less_nat_alt unat_gt_0)
    then show ?thesis by (simp add: chunk_raw_len_from_total_def Let_def k t)
  qed (simp add: chunk_raw_len_from_total_def Let_def k t)
  then show ?thesis
    using p by (intro exI [of _ total])
      (simp add: hdr b64.enc_length b32.enc_length nth_append b32.dec_enc chunk_parse_small_fields_def b64.dec_enc)
qed

theorem chunk_header_roundtrip_witness:
  "\<exists>total. parse_frame_header (take 8 (chunk_encode_header 4096 0 777)) = Some total \<and>
     chunk_raw_len_from_total total = 777"
  using chunk_header_roundtrip [of 777 4096 0 0] by auto

end
