(* ===== verification/Write_Context_Hash.thy ===== *)
theory Write_Context_Hash
  imports Fly_Prelude "HOL-Library.Word"
begin

unbundle bit_operations_syntax

text \<open>
  The provenance hashes of src/common/runtime/cpp/write_context_hash.h: a 64-bit FNV-1a hash of
  the task's name, module, arguments and inputs, and the hash for writes outside a task from a
  clock reading and a per-thread counter.  Both are printed as 32 hexadecimal digits.
\<close>

section \<open>Model\<close>

definition NUL :: char where
  "NUL = CHR 0x00"

definition combined_key :: "string \<Rightarrow> string \<Rightarrow> string list \<Rightarrow> string list \<Rightarrow> string" where
  "combined_key task_name task_module args inputs =
     task_name @ [NUL] @ task_module @ [NUL] @ concat (map (\<lambda>a. a @ [NUL]) args) @
     concat (map (\<lambda>i. i @ [NUL]) inputs)"

definition fnv_step :: "char \<Rightarrow> 64 word \<Rightarrow> 64 word" where
  "fnv_step c h1 = (h1 XOR of_char c) * 0x100000001b3"

definition hex_digit :: "nat \<Rightarrow> char" where
  "hex_digit n = ''0123456789abcdef'' ! n"

text \<open>\<open>std::hex\<close> with width 16 and fill character 0.\<close>

definition hex16 :: "64 word \<Rightarrow> string" where
  "hex16 w = map (\<lambda>i. hex_digit (unat (drop_bit (60 - 4 * i) w AND 0xF))) [0..<16]"

definition print_hash :: "64 word \<Rightarrow> string" where
  "print_hash h1 = hex16 h1 @ hex16 (h1 XOR drop_bit 17 h1)"

definition compute_write_context_hash ::
  "string \<Rightarrow> string \<Rightarrow> string list \<Rightarrow> string list \<Rightarrow> string" where
  "compute_write_context_hash task_name task_module args inputs =
     print_hash (fold fnv_step (combined_key task_name task_module args inputs) 0xcbf29ce484222325)"

text \<open>\<open>ns\<close> is the clock reading, \<open>seq\<close> the value of the thread's counter before the call.\<close>

definition make_timestamp_hash :: "64 word \<Rightarrow> 64 word \<Rightarrow> string \<times> 64 word" where
  "make_timestamp_hash ns seq = (print_hash (ns XOR (seq * 0x9e3779b97f4a7c15)), seq + 1)"

section \<open>The printed form\<close>

lemma hex_digit_inject:
  assumes "m < 16" "n < 16"
  shows "hex_digit m = hex_digit n \<longleftrightarrow> m = n"
proof -
  have d: "distinct ''0123456789abcdef''" by simp
  have l: "length ''0123456789abcdef'' = 16" by simp
  show ?thesis unfolding hex_digit_def by (rule nth_eq_iff_index_eq [OF d]) (simp_all only: l assms)
qed

lemma and_F: "(v :: 64 word) AND 0xF = take_bit 4 v"
  by (simp add: take_bit_eq_mask mask_eq_exp_minus_1)

lemma nibble: "unat ((v :: 64 word) AND 0xF) < 16"
  using take_bit_nat_less_exp [of 4 "unat v"] by (simp add: and_F unsigned_take_bit_eq)

lemma hex16_inject: "hex16 v = hex16 w \<longleftrightarrow> v = w"
proof
  assume eq: "hex16 v = hex16 w"
  show "v = w"
  proof (rule bit_word_eqI)
    fix k assume "k < LENGTH(64)"
    then have k: "k < 64" by simp
    define i where "i = 15 - k div 4"
    have i: "i < 16" "60 - 4 * i = 4 * (k div 4)" using k by (auto simp: i_def)
    have "hex16 v ! i = hex16 w ! i" using eq by simp
    then have "drop_bit (4 * (k div 4)) v AND 0xF = drop_bit (4 * (k div 4)) w AND 0xF"
      using i by (simp add: hex16_def hex_digit_inject nibble word_unat_eq_iff)
    then have "bit (take_bit 4 (drop_bit (4 * (k div 4)) v)) (k mod 4) = bit (take_bit 4 (drop_bit (4 * (k div 4)) w)) (k mod 4)"
      by (simp add: and_F)
    then show "bit v k = bit w k" by (simp add: bit_take_bit_iff bit_drop_bit_eq)
  qed
qed simp

lemma length_hex16 [simp]: "length (hex16 w) = 16"
  by (simp add: hex16_def)

lemma print_hash_inject: "print_hash a = print_hash b \<longleftrightarrow> a = b"
proof
  assume "print_hash a = print_hash b"
  then have "take 16 (print_hash a) = take 16 (print_hash b)" by (rule arg_cong)
  then have "hex16 a = hex16 b" by (simp only: print_hash_def) simp
  then show "a = b" by (simp only: hex16_inject)
qed simp

section \<open>The hashed key\<close>

lemma split_at_NUL:
  assumes "NUL \<notin> set a" "NUL \<notin> set b" "a @ NUL # xs = b @ NUL # ys"
  shows "a = b \<and> xs = ys"
  using assms
proof (induction a arbitrary: b)
  case Nil
  then show ?case by (cases b) auto
next
  case (Cons c a)
  then show ?case by (cases b) auto
qed

lemma concat_NUL_inject:
  "\<lbrakk>\<forall>a \<in> set as. NUL \<notin> set a; \<forall>b \<in> set bs. NUL \<notin> set b;
    concat (map (\<lambda>a. a @ [NUL]) as) = concat (map (\<lambda>a. a @ [NUL]) bs)\<rbrakk> \<Longrightarrow> as = bs"
proof (induction as arbitrary: bs)
  case Nil
  then show ?case by (cases bs) auto
next
  case (Cons a as)
  obtain b bs' where bs: "bs = b # bs'" using Cons.prems(3) by (cases bs) auto
  have "a @ NUL # concat (map (\<lambda>a. a @ [NUL]) as) = b @ NUL # concat (map (\<lambda>a. a @ [NUL]) bs')"
    using Cons.prems(3) bs by simp
  moreover have "NUL \<notin> set a" "NUL \<notin> set b" using Cons.prems(1,2) bs by simp_all
  ultimately have ab: "a = b"
    and rest: "concat (map (\<lambda>a. a @ [NUL]) as) = concat (map (\<lambda>a. a @ [NUL]) bs')"
    using split_at_NUL by blast+
  have "as = bs'" by (rule Cons.IH [OF _ _ rest]) (use Cons.prems(1,2) bs in simp_all)
  then show ?case using ab bs by simp
qed

section \<open>Properties\<close>

text \<open>
  For fields without NUL characters the hashed key determines the task's name, its module and
  the concatenation of arguments and inputs.
\<close>

theorem combined_key_determines:
  assumes "combined_key n m args ins = combined_key n' m' args' ins'"
    and "NUL \<notin> set n" "NUL \<notin> set n'" "NUL \<notin> set m" "NUL \<notin> set m'"
    and "\<forall>a \<in> set (args @ ins). NUL \<notin> set a" "\<forall>a \<in> set (args' @ ins'). NUL \<notin> set a"
  shows "n = n' \<and> m = m' \<and> args @ ins = args' @ ins'"
proof -
  let ?c = "\<lambda>as. concat (map (\<lambda>a. a @ [NUL]) as)"
  have "n @ NUL # (m @ NUL # ?c (args @ ins)) = n' @ NUL # (m' @ NUL # ?c (args' @ ins'))"
    using assms(1) by (simp add: combined_key_def)
  from split_at_NUL [OF assms(2,3) this] have n: "n = n'"
    and r: "m @ NUL # ?c (args @ ins) = m' @ NUL # ?c (args' @ ins')" by simp_all
  from split_at_NUL [OF assms(4,5) r] have m: "m = m'" and c: "?c (args @ ins) = ?c (args' @ ins')" by simp_all
  show ?thesis using n m concat_NUL_inject [OF assms(6,7) c] by simp
qed

theorem combined_key_determines_witness:
  "combined_key ''t'' ''m'' [''a''] [''b''] = combined_key ''t'' ''m'' [''a'', ''b''] [] \<and>
   [''a''] @ [''b''] = [''a'', ''b''] @ []"
  using combined_key_determines [of "''t''" "''m''" "[''a'']" "[''b'']" "''t''" "''m''" "[''a'', ''b'']" "[]"]
  by (simp add: combined_key_def NUL_def)

text \<open>
  The hash does not separate arguments from inputs: moving the last argument to the front of
  the inputs never changes it, so tasks that differ in that way share their provenance.
\<close>

theorem hash_ignores_argument_boundary:
  "compute_write_context_hash n m (args @ [x]) ins = compute_write_context_hash n m args (x # ins)"
  by (simp add: compute_write_context_hash_def combined_key_def)

text \<open>
  Two hashes drawn at the same clock reading with different counter values are different, so a
  clock too coarse to advance between two calls in a thread does not make them collide.
\<close>

theorem timestamp_hash_distinct:
  assumes "seq \<noteq> seq'"
  shows "fst (make_timestamp_hash ns seq) \<noteq> fst (make_timestamp_hash ns seq')"
proof
  let ?c = "0x9e3779b97f4a7c15 :: 64 word" and ?d = "0xf1de83e19937733d :: 64 word"
  assume "fst (make_timestamp_hash ns seq) = fst (make_timestamp_hash ns seq')"
  then have "ns XOR (seq * ?c) = ns XOR (seq' * ?c)" by (simp add: make_timestamp_hash_def print_hash_inject)
  then have "ns XOR (ns XOR (seq * ?c)) = ns XOR (ns XOR (seq' * ?c))" by simp
  then have "seq * ?c = seq' * ?c" by (simp add: xor.assoc [symmetric])
  then have "seq * ?c * ?d = seq' * ?c * ?d" by simp
  moreover have "?c * ?d = 1" by simp
  ultimately show False using assms by (simp only: mult.assoc) simp
qed

theorem timestamp_hash_distinct_witness:
  "fst (make_timestamp_hash 5 0) \<noteq> fst (make_timestamp_hash 5 1)"
  by (rule timestamp_hash_distinct) simp

end
