(* ===== verification/Compressors.thy ===== *)
theory Compressors
  imports Object_Header
begin

text \<open>
  The compressors of src/storage/cpp: the interface \<open>Compressor\<close> of compressor.h, the four
  implementations (compressor.cpp, lz4_compressor.cpp, zlib_compressor.cpp, zstd_compressor.cpp) and
  the factory.  The LZ4, zlib and Zstandard libraries are the fields of \<open>codec_libs\<close>: \<open>None\<close> is the
  error return of the library call, \<open>Some out\<close> the bytes it wrote.  Logging is not modelled.
\<close>

section \<open>Interface\<close>

type_synonym bytes = "byte list"

record compressed_chunk =
  uncompressed_size :: "32 word"
  compressed_size :: "32 word"
  chunk_data :: bytes

definition empty_chunk :: compressed_chunk where
  "empty_chunk = \<lparr>uncompressed_size = 0, compressed_size = 0, chunk_data = []\<rparr>"

text \<open>
  The virtual methods of a compressor object.  \<open>decompress_to\<close> returns \<open>None\<close> for the error code -1
  and otherwise the bytes written to the output buffer, whose number is the C++ return value.
\<close>

record compressor =
  c_type :: compression_type
  c_name :: string
  c_compress :: "bytes \<Rightarrow> compressed_chunk"
  c_decompress :: "nat \<Rightarrow> bytes \<Rightarrow> bytes"
  c_decompress_to :: "bytes \<Rightarrow> nat \<Rightarrow> bytes option"

text \<open>\<open>static_cast<int>\<close> of a size.\<close>

definition as_int :: "nat \<Rightarrow> int" where
  "as_int n = sint (word_of_nat n :: 32 word)"

text \<open>The output string is allocated with zeros; a library call fills a prefix of it.\<close>

definition zero_filled :: "nat \<Rightarrow> bytes \<Rightarrow> bytes" where
  "zero_filled n out = take n (out @ replicate n 0)"

section \<open>Libraries\<close>

record codec_libs =
  LZ4_compressBound :: "int \<Rightarrow> int"
  LZ4_compress_default :: "bytes \<Rightarrow> int \<Rightarrow> int \<Rightarrow> bytes option"
  LZ4_decompress_safe :: "bytes \<Rightarrow> int \<Rightarrow> int \<Rightarrow> bytes option"
  zlib_compressBound :: "nat \<Rightarrow> nat"
  zlib_compress2 :: "bytes \<Rightarrow> nat \<Rightarrow> nat \<Rightarrow> int \<Rightarrow> bytes option"
  zlib_uncompress :: "bytes \<Rightarrow> nat \<Rightarrow> nat \<Rightarrow> bytes option"
  ZSTD_compressBound :: "nat \<Rightarrow> nat"
  ZSTD_compress :: "bytes \<Rightarrow> nat \<Rightarrow> nat \<Rightarrow> int \<Rightarrow> bytes option"
  ZSTD_decompress :: "bytes \<Rightarrow> nat \<Rightarrow> nat \<Rightarrow> bytes option"

section \<open>No compression\<close>

definition none_compress :: "bytes \<Rightarrow> compressed_chunk" where
  "none_compress input = \<lparr>uncompressed_size = word_of_nat (length input),
     compressed_size = word_of_nat (length input), chunk_data = input\<rparr>"

definition none_decompress :: "nat \<Rightarrow> bytes \<Rightarrow> bytes" where
  "none_decompress n d = d"

definition none_decompress_to :: "bytes \<Rightarrow> nat \<Rightarrow> bytes option" where
  "none_decompress_to d output_size = Some (take (min (length d) output_size) d)"

definition none_compressor :: compressor where
  "none_compressor = \<lparr>c_type = NONE, c_name = ''none'', c_compress = none_compress,
     c_decompress = none_decompress, c_decompress_to = none_decompress_to\<rparr>"

section \<open>LZ4\<close>

definition lz4_compress :: "codec_libs \<Rightarrow> bytes \<Rightarrow> compressed_chunk" where
  "lz4_compress L input =
     (if input = [] then \<lparr>uncompressed_size = 0, compressed_size = 0, chunk_data = []\<rparr>
      else
        let bound = LZ4_compressBound L (as_int (length input))
        in if bound \<le> 0 then empty_chunk
           else case LZ4_compress_default L input (as_int (length input)) bound of
             None \<Rightarrow> empty_chunk
           | Some out \<Rightarrow> \<lparr>uncompressed_size = word_of_nat (length input),
               compressed_size = word_of_nat (length out), chunk_data = out\<rparr>)"

definition lz4_decompress :: "codec_libs \<Rightarrow> nat \<Rightarrow> bytes \<Rightarrow> bytes" where
  "lz4_decompress L n d =
     (if n = 0 then []
      else case LZ4_decompress_safe L d (as_int (length d)) (int n) of
        None \<Rightarrow> []
      | Some out \<Rightarrow> zero_filled n out)"

definition lz4_decompress_to :: "codec_libs \<Rightarrow> bytes \<Rightarrow> nat \<Rightarrow> bytes option" where
  "lz4_decompress_to L d output_size =
     (if output_size = 0 then Some []
      else LZ4_decompress_safe L d (as_int (length d)) (as_int output_size))"

text \<open>The acceleration given to the constructor is stored and not used.\<close>

definition lz4_compressor :: "codec_libs \<Rightarrow> int \<Rightarrow> compressor" where
  "lz4_compressor L acceleration = \<lparr>c_type = LZ4, c_name = ''lz4'', c_compress = lz4_compress L,
     c_decompress = lz4_decompress L, c_decompress_to = lz4_decompress_to L\<rparr>"

section \<open>zlib\<close>

definition zlib_compress :: "codec_libs \<Rightarrow> int \<Rightarrow> bytes \<Rightarrow> compressed_chunk" where
  "zlib_compress L level input =
     (if input = [] then \<lparr>uncompressed_size = 0, compressed_size = 0, chunk_data = []\<rparr>
      else
        let bound = zlib_compressBound L (length input)
        in case zlib_compress2 L input (length input) bound level of
             None \<Rightarrow> empty_chunk
           | Some out \<Rightarrow> \<lparr>uncompressed_size = word_of_nat (length input),
               compressed_size = word_of_nat (length out), chunk_data = out\<rparr>)"

definition zlib_decompress :: "codec_libs \<Rightarrow> nat \<Rightarrow> bytes \<Rightarrow> bytes" where
  "zlib_decompress L n d =
     (if n = 0 then []
      else case zlib_uncompress L d (length d) n of None \<Rightarrow> [] | Some out \<Rightarrow> zero_filled n out)"

definition zlib_decompress_to :: "codec_libs \<Rightarrow> bytes \<Rightarrow> nat \<Rightarrow> bytes option" where
  "zlib_decompress_to L d output_size =
     (if output_size = 0 then Some [] else zlib_uncompress L d (length d) output_size)"

definition zlib_compressor :: "codec_libs \<Rightarrow> int \<Rightarrow> compressor" where
  "zlib_compressor L level = \<lparr>c_type = ZLIB, c_name = ''zlib'', c_compress = zlib_compress L level,
     c_decompress = zlib_decompress L, c_decompress_to = zlib_decompress_to L\<rparr>"

section \<open>Zstandard\<close>

definition zstd_compress :: "codec_libs \<Rightarrow> int \<Rightarrow> bytes \<Rightarrow> compressed_chunk" where
  "zstd_compress L level input =
     (if input = [] then \<lparr>uncompressed_size = 0, compressed_size = 0, chunk_data = []\<rparr>
      else
        let bound = ZSTD_compressBound L (length input)
        in case ZSTD_compress L input (length input) bound level of
             None \<Rightarrow> empty_chunk
           | Some out \<Rightarrow> \<lparr>uncompressed_size = word_of_nat (length input),
               compressed_size = word_of_nat (length out), chunk_data = out\<rparr>)"

definition zstd_decompress :: "codec_libs \<Rightarrow> nat \<Rightarrow> bytes \<Rightarrow> bytes" where
  "zstd_decompress L n d =
     (if n = 0 then []
      else case ZSTD_decompress L d (length d) n of None \<Rightarrow> [] | Some out \<Rightarrow> zero_filled n out)"

definition zstd_decompress_to :: "codec_libs \<Rightarrow> bytes \<Rightarrow> nat \<Rightarrow> bytes option" where
  "zstd_decompress_to L d output_size =
     (if output_size = 0 then Some [] else ZSTD_decompress L d (length d) output_size)"

definition zstd_compressor :: "codec_libs \<Rightarrow> int \<Rightarrow> compressor" where
  "zstd_compressor L level = \<lparr>c_type = ZSTD, c_name = ''zstd'', c_compress = zstd_compress L level,
     c_decompress = zstd_decompress L, c_decompress_to = zstd_decompress_to L\<rparr>"

section \<open>Factory\<close>

definition create_compressor :: "codec_libs \<Rightarrow> compression_type \<Rightarrow> int \<Rightarrow> compressor" where
  "create_compressor L ty level =
     (case ty of
        NONE \<Rightarrow> none_compressor
      | LZ4 \<Rightarrow> lz4_compressor L (if level < 0 then 1 else level)
      | ZLIB \<Rightarrow> zlib_compressor L (if level < 0 then 6 else level)
      | ZSTD \<Rightarrow> zstd_compressor L (if level < 0 then 3 else level))"

definition type_from_name :: "string \<Rightarrow> compression_type" where
  "type_from_name name =
     (if name = ''none'' then NONE
      else if name = ''lz4'' then LZ4
      else if name = ''zlib'' then ZLIB
      else if name = ''zstd'' then ZSTD
      else NONE)"

fun name_from_type :: "compression_type \<Rightarrow> string" where
  "name_from_type NONE = ''none''"
| "name_from_type LZ4 = ''lz4''"
| "name_from_type ZLIB = ''zlib''"
| "name_from_type ZSTD = ''zstd''"

definition create_from_name :: "codec_libs \<Rightarrow> string \<Rightarrow> compressor" where
  "create_from_name L name = create_compressor L (type_from_name name) (- 1)"

section \<open>The contract of a compressor\<close>

text \<open>
  What the block pipeline relies on, for blocks of at most 64 MiB (the bound of the reader): the
  announced size is the size of the data, and the data of a successful compression decompresses
  to the input.  A failed compression announces size 0.
\<close>

abbreviation max_block :: nat where
  "max_block \<equiv> 67108864"

locale block_codec =
  fixes cmp :: compressor
  assumes announced: "length x \<le> max_block \<Longrightarrow>
      unat (compressed_size (c_compress cmp x)) = length (chunk_data (c_compress cmp x))"
    and small: "length x \<le> max_block \<Longrightarrow> length (chunk_data (c_compress cmp x)) < 2 ^ 31"
    and decodes: "\<lbrakk>x \<noteq> []; length x \<le> max_block; compressed_size (c_compress cmp x) \<noteq> 0\<rbrakk> \<Longrightarrow>
      c_decompress_to cmp (chunk_data (c_compress cmp x)) (length x) = Some x"

text \<open>The documented behaviour of the libraries, on inputs of at most 64 MiB.\<close>

definition libs_ok :: "codec_libs \<Rightarrow> bool" where
  "libs_ok L \<longleftrightarrow>
     (\<forall>src cap out. length src \<le> max_block \<longrightarrow>
        LZ4_compress_default L src (int (length src)) cap = Some out \<longrightarrow>
        length out < 2 ^ 31 \<and> LZ4_decompress_safe L out (int (length out)) (int (length src)) = Some src) \<and>
     (\<forall>src cap level out. length src \<le> max_block \<longrightarrow>
        zlib_compress2 L src (length src) cap level = Some out \<longrightarrow>
        length out < 2 ^ 31 \<and> zlib_uncompress L out (length out) (length src) = Some src) \<and>
     (\<forall>src cap level out. length src \<le> max_block \<longrightarrow>
        ZSTD_compress L src (length src) cap level = Some out \<longrightarrow>
        length out < 2 ^ 31 \<and> ZSTD_decompress L out (length out) (length src) = Some src)"

lemma as_int_small [simp]: "n < 2 ^ 31 \<Longrightarrow> as_int n = int n"
  by (simp add: as_int_def signed_of_nat signed_take_bit_int_eq_self)

lemma unat_size32: "n < 2 ^ 31 \<Longrightarrow> unat (word_of_nat n :: 32 word) = n"
  by (simp add: unat_of_nat)

interpretation none_codec: block_codec none_compressor
  by unfold_locales (simp_all add: none_compressor_def none_compress_def none_decompress_to_def unat_of_nat)

lemma lz4_codec:
  assumes "libs_ok L"
  shows "block_codec (lz4_compressor L a)"
proof
  fix x :: bytes assume x: "length x \<le> max_block"
  have lib: "length out < 2 ^ 31 \<and> LZ4_decompress_safe L out (int (length out)) (int (length x)) = Some x"
    if "LZ4_compress_default L x (int (length x)) cap = Some out" for cap out
    using assms x that unfolding libs_ok_def by blast
  show "unat (compressed_size (c_compress (lz4_compressor L a) x)) =
      length (chunk_data (c_compress (lz4_compressor L a) x))"
    "length (chunk_data (c_compress (lz4_compressor L a) x)) < 2 ^ 31"
    using lib x
    by (auto simp: lz4_compressor_def lz4_compress_def empty_chunk_def unat_size32 Let_def split: option.split)
  assume "x \<noteq> []" "compressed_size (c_compress (lz4_compressor L a) x) \<noteq> 0"
  then show "c_decompress_to (lz4_compressor L a) (chunk_data (c_compress (lz4_compressor L a) x)) (length x) = Some x"
    using lib x
    by (auto simp: lz4_compressor_def lz4_compress_def lz4_decompress_to_def empty_chunk_def Let_def
        split: option.splits if_splits)
qed

lemma zlib_codec:
  assumes "libs_ok L"
  shows "block_codec (zlib_compressor L l)"
proof
  fix x :: bytes assume x: "length x \<le> max_block"
  have lib: "length out < 2 ^ 31 \<and> zlib_uncompress L out (length out) (length x) = Some x"
    if "zlib_compress2 L x (length x) cap l = Some out" for cap out
    using assms x that unfolding libs_ok_def by blast
  show "unat (compressed_size (c_compress (zlib_compressor L l) x)) =
      length (chunk_data (c_compress (zlib_compressor L l) x))"
    "length (chunk_data (c_compress (zlib_compressor L l) x)) < 2 ^ 31"
    using lib
    by (auto simp: zlib_compressor_def zlib_compress_def empty_chunk_def unat_size32 Let_def split: option.split)
  assume "x \<noteq> []" "compressed_size (c_compress (zlib_compressor L l) x) \<noteq> 0"
  then show "c_decompress_to (zlib_compressor L l) (chunk_data (c_compress (zlib_compressor L l) x)) (length x) = Some x"
    using lib
    by (auto simp: zlib_compressor_def zlib_compress_def zlib_decompress_to_def empty_chunk_def Let_def
        split: option.splits)
qed

lemma zstd_codec:
  assumes "libs_ok L"
  shows "block_codec (zstd_compressor L l)"
proof
  fix x :: bytes assume x: "length x \<le> max_block"
  have lib: "length out < 2 ^ 31 \<and> ZSTD_decompress L out (length out) (length x) = Some x"
    if "ZSTD_compress L x (length x) cap l = Some out" for cap out
    using assms x that unfolding libs_ok_def by blast
  show "unat (compressed_size (c_compress (zstd_compressor L l) x)) =
      length (chunk_data (c_compress (zstd_compressor L l) x))"
    "length (chunk_data (c_compress (zstd_compressor L l) x)) < 2 ^ 31"
    using lib
    by (auto simp: zstd_compressor_def zstd_compress_def empty_chunk_def unat_size32 Let_def split: option.split)
  assume "x \<noteq> []" "compressed_size (c_compress (zstd_compressor L l) x) \<noteq> 0"
  then show "c_decompress_to (zstd_compressor L l) (chunk_data (c_compress (zstd_compressor L l) x)) (length x) = Some x"
    using lib
    by (auto simp: zstd_compressor_def zstd_compress_def zstd_decompress_to_def empty_chunk_def Let_def
        split: option.splits)
qed

text \<open>Whatever the factory creates satisfies the contract.\<close>

lemma created_codec: "libs_ok L \<Longrightarrow> block_codec (create_compressor L ty level)"
  by (cases ty) (simp_all add: create_compressor_def none_codec.block_codec_axioms lz4_codec zlib_codec zstd_codec)

lemma created_type: "c_type (create_compressor L ty level) = ty"
  by (cases ty)
     (simp_all add: create_compressor_def none_compressor_def lz4_compressor_def zlib_compressor_def zstd_compressor_def)

lemma created_name: "c_name (create_compressor L ty level) = name_from_type ty"
  by (cases ty)
     (simp_all add: create_compressor_def none_compressor_def lz4_compressor_def zlib_compressor_def zstd_compressor_def)

text \<open>The decoder does not depend on the level, so a block written at one level is read at another.\<close>

lemma decompress_level_free:
  "c_decompress_to (create_compressor L ty l) = c_decompress_to (create_compressor L ty l')"
  by (cases ty)
     (simp_all add: create_compressor_def none_compressor_def lz4_compressor_def zlib_compressor_def zstd_compressor_def)

lemma type_name_roundtrip: "type_from_name (name_from_type ty) = ty"
  by (cases ty) (simp_all add: type_from_name_def)

end
