(* ===== verification/Block_Pipeline.thy ===== *)
theory Block_Pipeline
  imports Compressors
begin

text \<open>
  The block pipelines of src/storage/cpp/pipeline.h and pipeline.cpp.  The write side cuts plain bytes
  into chunks and sends every chunk through the stages (compress, checksum, block header); the read
  side pulls one block at a time from a source and undoes the stages.  A stage object is a
  constructor with its configuration, \<open>emit\<close> calls are collected in order, and the pull function of
  the reader is a parameter that maps a source state and a count to \<open>None\<close> (an error), \<open>Some []\<close>
  (end of stream) or the bytes delivered.
\<close>

section \<open>Blocks\<close>

type_synonym crc_fun = "64 word \<Rightarrow> bytes \<Rightarrow> 64 word"

record block_data =
  b_plain :: bytes
  b_encoded :: bytes
  b_crc :: "64 word"
  b_unc_size :: "32 word"
  b_comp_size :: "32 word"
  b_raw :: bool
  b_tail :: bool
  b_failed :: bool

definition new_block :: block_data where
  "new_block = \<lparr>b_plain = [], b_encoded = [], b_crc = 0, b_unc_size = 0, b_comp_size = 0,
     b_raw = False, b_tail = False, b_failed = False\<rparr>"

section \<open>Write side\<close>

datatype write_stage =
  CompressStage "compressor option" int int
| CrcStage
| BlockHeaderStage

text \<open>The block is passed through uncompressed.\<close>

definition pass_raw :: "block_data \<Rightarrow> block_data" where
  "pass_raw b = b\<lparr>b_raw := True, b_comp_size := b_unc_size b, b_encoded := b_plain b\<rparr>"

text \<open>The products are of 64-bit sizes built from 32-bit values, so they do not wrap.\<close>

definition compress_stage :: "compressor option \<Rightarrow> int \<Rightarrow> int \<Rightarrow> block_data \<Rightarrow> block_data" where
  "compress_stage cmp ratio_floor_pct raw_threshold b =
     (case cmp of
        None \<Rightarrow> pass_raw b
      | Some c \<Rightarrow>
          if ratio_floor_pct \<le> 0 \<or>
             b_tail b \<and> 0 \<le> raw_threshold \<and> int (unat (b_unc_size b)) \<le> raw_threshold
          then pass_raw b
          else
            let chunk = c_compress c (b_plain b)
            in if 0 \<le> sint (compressed_size chunk) \<and>
                  unat (compressed_size chunk) * 100 < unat (b_unc_size b) * nat ratio_floor_pct
               then b\<lparr>b_comp_size := compressed_size chunk, b_encoded := chunk_data chunk, b_raw := False\<rparr>
               else pass_raw b)"

definition crc_stage :: "crc_fun \<Rightarrow> block_data \<Rightarrow> block_data" where
  "crc_stage crc64 b = b\<lparr>b_crc := data_checksum crc64 (b_encoded b)\<rparr>"

definition block_header_stage :: "block_data \<Rightarrow> bytes list" where
  "block_header_stage b =
     [le32 (b_unc_size b), le32 (b_comp_size b), le64 (b_crc b)] @
     (if b_encoded b \<noteq> [] then [b_encoded b] else [])"

fun write_process :: "crc_fun \<Rightarrow> write_stage \<Rightarrow> block_data \<times> bytes list \<Rightarrow> block_data \<times> bytes list" where
  "write_process crc64 (CompressStage cmp pct thr) (b, out) = (compress_stage cmp pct thr b, out)"
| "write_process crc64 CrcStage (b, out) = (crc_stage crc64 b, out)"
| "write_process crc64 BlockHeaderStage (b, out) = (b, out @ block_header_stage b)"

record write_pipeline =
  wp_stages :: "write_stage list"
  wp_chunk_size :: nat
  wp_buf :: bytes
  wp_ctx :: block_data
  wp_total :: "64 word"
  wp_chunk_count :: "32 word"
  wp_raw_blocks :: "32 word"
  wp_comp_lens :: "32 word list"
  wp_emitted :: "bytes list"

definition new_write_pipeline :: "write_stage list \<Rightarrow> nat \<Rightarrow> write_pipeline" where
  "new_write_pipeline stages chunk_size = \<lparr>wp_stages = stages, wp_chunk_size = chunk_size, wp_buf = [],
     wp_ctx = new_block, wp_total = 0, wp_chunk_count = 0, wp_raw_blocks = 0, wp_comp_lens = [],
     wp_emitted = []\<rparr>"

definition flush_block :: "crc_fun \<Rightarrow> write_pipeline \<Rightarrow> write_pipeline" where
  "flush_block crc64 p =
     (let ctx = (wp_ctx p)\<lparr>b_plain := wp_buf p, b_unc_size := word_of_nat (length (wp_buf p)),
                  b_encoded := wp_buf p, b_comp_size := word_of_nat (length (wp_buf p)), b_raw := True\<rparr>;
          (ctx', out) = fold (write_process crc64) (wp_stages p) (ctx, [])
      in p\<lparr>wp_ctx := ctx'\<lparr>b_tail := False\<rparr>,
           wp_total := wp_total p + word_of_nat (length (wp_buf p)),
           wp_chunk_count := wp_chunk_count p + 1,
           wp_raw_blocks := (if b_raw ctx' then wp_raw_blocks p + 1 else wp_raw_blocks p),
           wp_comp_lens := wp_comp_lens p @ [b_comp_size ctx'],
           wp_buf := [],
           wp_emitted := wp_emitted p @ out\<rparr>)"

text \<open>\<open>write\<close> loops while bytes are left; with chunk size 0 it never returns.\<close>

partial_function (option) wp_write :: "crc_fun \<Rightarrow> write_pipeline \<Rightarrow> bytes \<Rightarrow> write_pipeline option" where
  "wp_write crc64 p data =
     (if data = [] then Some p
      else
        let p1 = (if length (wp_buf p) = wp_chunk_size p then flush_block crc64 p else p);
            n = min (wp_chunk_size p1 - length (wp_buf p1)) (length data);
            p2 = p1\<lparr>wp_buf := wp_buf p1 @ take n data\<rparr>;
            p3 = (if length (wp_buf p2) = wp_chunk_size p2 then flush_block crc64 p2 else p2)
        in wp_write crc64 p3 (drop n data))"

definition wp_finish :: "crc_fun \<Rightarrow> write_pipeline \<Rightarrow> write_pipeline" where
  "wp_finish crc64 p =
     (if wp_buf p \<noteq> [] then flush_block crc64 (p\<lparr>wp_ctx := (wp_ctx p)\<lparr>b_tail := True\<rparr>\<rparr>) else p)"

definition wp_all_raw :: "write_pipeline \<Rightarrow> bool" where
  "wp_all_raw p \<longleftrightarrow> wp_chunk_count p > 0 \<and> wp_raw_blocks p = wp_chunk_count p"

definition make_file_write_pipeline :: "compressor option \<Rightarrow> nat \<Rightarrow> int \<Rightarrow> int \<Rightarrow> write_pipeline" where
  "make_file_write_pipeline cmp chunk_size ratio_floor_pct raw_threshold =
     new_write_pipeline
       ((case cmp of None \<Rightarrow> [] | Some c \<Rightarrow> [CompressStage (Some c) ratio_floor_pct raw_threshold]) @
        [CrcStage, BlockHeaderStage]) chunk_size"

section \<open>Read side\<close>

datatype read_stage =
  CrcVerifyStage
| DecompressStage "compressor option"

definition crc_verify_stage :: "crc_fun \<Rightarrow> block_data \<Rightarrow> block_data" where
  "crc_verify_stage crc64 b = (if data_checksum crc64 (b_encoded b) \<noteq> b_crc b then b\<lparr>b_failed := True\<rparr> else b)"

definition decompress_stage :: "compressor option \<Rightarrow> block_data \<Rightarrow> block_data" where
  "decompress_stage cmp b =
     (case cmp of
        None \<Rightarrow> b\<lparr>b_raw := True, b_plain := b_encoded b\<rparr>
      | Some c \<Rightarrow>
          if b_comp_size b = b_unc_size b then b\<lparr>b_raw := True, b_plain := b_encoded b\<rparr>
          else
            case c_decompress_to c (take (unat (b_comp_size b)) (b_encoded b)) (unat (b_unc_size b)) of
              None \<Rightarrow> b\<lparr>b_raw := False, b_failed := True\<rparr>
            | Some out \<Rightarrow>
                if length out \<noteq> unat (b_unc_size b) then b\<lparr>b_raw := False, b_failed := True\<rparr>
                else b\<lparr>b_raw := False, b_plain := out\<rparr>)"

fun read_process :: "crc_fun \<Rightarrow> read_stage \<Rightarrow> block_data \<Rightarrow> block_data" where
  "read_process crc64 CrcVerifyStage b = crc_verify_stage crc64 b"
| "read_process crc64 (DecompressStage cmp) b = decompress_stage cmp b"

text \<open>The stages run until one of them marks the block as failed.\<close>

fun run_read_stages :: "crc_fun \<Rightarrow> read_stage list \<Rightarrow> block_data \<Rightarrow> block_data" where
  "run_read_stages crc64 [] b = b"
| "run_read_stages crc64 (st # sts) b =
     (let b' = read_process crc64 st b in if b_failed b' then b' else run_read_stages crc64 sts b')"

type_synonym 's pull_fun = "'s \<Rightarrow> nat \<Rightarrow> bytes option \<times> 's"

record 's read_pipeline =
  rp_stages :: "read_stage list"
  rp_src :: 's
  rp_hdr_partial :: bool
  rp_failed :: bool
  rp_eof :: bool

definition kMaxWireBlockBytes :: nat where
  "kMaxWireBlockBytes = 64 * 1024 * 1024"

definition new_read_pipeline :: "read_stage list \<Rightarrow> 's \<Rightarrow> 's read_pipeline" where
  "new_read_pipeline stages s =
     \<lparr>rp_stages = stages, rp_src = s, rp_hdr_partial = False, rp_failed = False, rp_eof = False\<rparr>"

text \<open>\<open>pull_exact\<close> returns whether \<open>n\<close> bytes arrived, the bytes, the partial flag and the source.\<close>

function pull_exact :: "'s pull_fun \<Rightarrow> nat \<Rightarrow> bytes \<Rightarrow> bool \<Rightarrow> 's \<Rightarrow> bool \<times> bytes \<times> bool \<times> 's" where
  "pull_exact pull n got partial s =
     (if n \<le> length got then (True, got, partial, s)
      else
        case pull s (n - length got) of
          (None, s') \<Rightarrow> (False, got, partial, s')
        | (Some bs, s') \<Rightarrow>
            if bs = [] then (False, got, partial, s')
            else
              let got' = got @ bs
              in pull_exact pull n got' (partial \<or> length got' < n) s')"
  by pat_completeness auto
termination
  by (relation "measure (\<lambda>(pull, n, got, partial, s). n - length got)") (auto simp: not_le intro!: diff_less_mono2)

declare pull_exact.simps [simp del]

definition next_block :: "crc_fun \<Rightarrow> 's pull_fun \<Rightarrow> 's read_pipeline \<Rightarrow> block_data option \<times> 's read_pipeline" where
  "next_block crc64 pull r =
     (if rp_failed r \<or> rp_eof r then (None, r)
      else
        case pull_exact pull 16 [] (rp_hdr_partial r) (rp_src r) of
          (False, hdr, partial, s) \<Rightarrow>
            (None, if partial then r\<lparr>rp_src := s, rp_hdr_partial := partial, rp_failed := True\<rparr>
                   else r\<lparr>rp_src := s, rp_hdr_partial := partial, rp_eof := True\<rparr>)
        | (True, hdr, partial, s) \<Rightarrow>
            let r1 = r\<lparr>rp_src := s, rp_hdr_partial := False\<rparr>;
                b = new_block\<lparr>b_unc_size := rd_le32 (take 4 hdr), b_comp_size := rd_le32 (take 4 (drop 4 hdr)),
                      b_crc := rd_le64 (take 8 (drop 8 hdr))\<rparr>
            in if kMaxWireBlockBytes < unat (b_unc_size b) \<or> kMaxWireBlockBytes < unat (b_comp_size b)
               then (None, r1\<lparr>rp_failed := True\<rparr>)
               else
                 case pull_exact pull (unat (b_comp_size b)) [] False (rp_src r1) of
                   (False, _, partial2, s2) \<Rightarrow>
                     (None, r1\<lparr>rp_src := s2, rp_hdr_partial := partial2, rp_failed := True\<rparr>)
                 | (True, payload, partial2, s2) \<Rightarrow>
                     let r2 = r1\<lparr>rp_src := s2, rp_hdr_partial := partial2\<rparr>;
                         b' = run_read_stages crc64 (rp_stages r) (b\<lparr>b_encoded := payload\<rparr>)
                     in if b_failed b' then (None, r2\<lparr>rp_failed := True\<rparr>) else (Some b', r2))"

definition make_block_read_pipeline :: "codec_libs \<Rightarrow> compression_type \<Rightarrow> 's \<Rightarrow> 's read_pipeline" where
  "make_block_read_pipeline L ty s =
     new_read_pipeline
       [CrcVerifyStage, DecompressStage (if ty = NONE then None else Some (create_compressor L ty (- 1)))] s"

section \<open>What the write pipeline produces\<close>

text \<open>The reference description: chunks of the given size, and the record of one chunk.\<close>

function chop :: "nat \<Rightarrow> 'a list \<Rightarrow> 'a list list" where
  "chop n xs = (if n = 0 \<or> xs = [] then [] else take n xs # chop n (drop n xs))"
  by pat_completeness auto
termination
  by (relation "measure (\<lambda>(n, xs). length xs)") auto

declare chop.simps [simp del]

lemma chop_Nil [simp]: "chop n [] = []"
  by (simp add: chop.simps)

lemma chop_chunks:
  assumes "\<forall>c \<in> set cs. length c = n" and "length r < n"
  shows "chop n (concat cs @ r) = cs @ (if r = [] then [] else [r])"
  using assms
proof (induction cs)
  case Nil
  then show ?case by (simp add: chop.simps [of n r])
next
  case (Cons c cs)
  have "chop n (concat (c # cs) @ r) = c # chop n (concat cs @ r)"
    using Cons.prems by (subst chop.simps) auto
  then show ?case using Cons by simp
qed

lemma concat_chop: "0 < n \<Longrightarrow> concat (chop n xs) = xs"
  by (induction n xs rule: chop.induct) (subst chop.simps, auto)

lemma chop_sizes: "c \<in> set (chop n xs) \<Longrightarrow> c \<noteq> [] \<and> length c \<le> n"
proof (induction n xs rule: chop.induct)
  case (1 n xs)
  then show ?case by (subst (asm) (2) chop.simps) (auto split: if_splits)
qed

lemma length_chop_le: "length (chop n xs) \<le> length xs"
proof (induction n xs rule: chop.induct)
  case (1 n xs)
  show ?case
  proof (cases "n = 0 \<or> xs = []")
    case False
    then have "length (chop n xs) = Suc (length (chop n (drop n xs)))" by (subst chop.simps) simp
    also have "\<dots> \<le> Suc (length (drop n xs))" using 1 False by simp
    also have "\<dots> \<le> length xs" using False by (cases xs; cases n) auto
    finally show ?thesis .
  qed (simp add: chop.simps)
qed

definition coded :: "compressor option \<Rightarrow> int \<Rightarrow> int \<Rightarrow> bool \<Rightarrow> bytes \<Rightarrow> block_data" where
  "coded cmp pct thr last_blk x =
     (let b = new_block\<lparr>b_plain := x, b_unc_size := word_of_nat (length x), b_encoded := x,
                b_comp_size := word_of_nat (length x), b_raw := True, b_tail := last_blk\<rparr>
      in case cmp of None \<Rightarrow> b | Some c \<Rightarrow> compress_stage (Some c) pct thr b)"

definition block_record :: "crc_fun \<Rightarrow> bytes \<Rightarrow> bytes \<Rightarrow> bytes" where
  "block_record crc64 plain payload =
     le32 (word_of_nat (length plain)) @ le32 (word_of_nat (length payload)) @
     le64 (data_checksum crc64 payload) @ payload"

text \<open>A compressor object that satisfies its contract, or none at all.\<close>

definition codec_opt :: "compressor option \<Rightarrow> bool" where
  "codec_opt cmp \<longleftrightarrow> (\<forall>c. cmp = Some c \<longrightarrow> block_codec c)"

abbreviation payload where
  "payload cmp pct thr last_blk x \<equiv> b_encoded (coded cmp pct thr last_blk x)"

lemma compress_stage_cases:
  "compress_stage (Some c) pct thr b = pass_raw b \<or>
   compress_stage (Some c) pct thr b = b\<lparr>b_comp_size := compressed_size (c_compress c (b_plain b)),
     b_encoded := chunk_data (c_compress c (b_plain b)), b_raw := False\<rparr> \<and>
   unat (compressed_size (c_compress c (b_plain b))) * 100 < unat (b_unc_size b) * nat pct"
  unfolding compress_stage_def option.case Let_def by presburger

text \<open>Every chunk is either passed through or replaced by a shorter compressed form.\<close>

lemma coded_cases:
  assumes "codec_opt cmp" and "length x \<le> max_block" and "pct \<le> 100"
  obtains (raw) "b_raw (coded cmp pct thr last_blk x)" "payload cmp pct thr last_blk x = x"
      "b_comp_size (coded cmp pct thr last_blk x) = word_of_nat (length x)"
  | (packed) c where "cmp = Some c" "\<not> b_raw (coded cmp pct thr last_blk x)"
      "payload cmp pct thr last_blk x = chunk_data (c_compress c x)"
      "b_comp_size (coded cmp pct thr last_blk x) = compressed_size (c_compress c x)"
      "length (chunk_data (c_compress c x)) < length x"
proof (cases cmp)
  case None
  then show ?thesis using raw by (simp add: coded_def)
next
  case (Some c)
  then have bc: "block_codec c" using assms(1) by (simp add: codec_opt_def)
  let ?k = "c_compress c x"
  have l: "unat (word_of_nat (length x) :: 32 word) = length x" using assms(2) by (simp add: unat_of_nat)
  have a: "unat (compressed_size ?k) = length (chunk_data ?k)" by (rule block_codec.announced [OF bc assms(2)])
  let ?b = "new_block\<lparr>b_plain := x, b_unc_size := word_of_nat (length x), b_encoded := x,
    b_comp_size := word_of_nat (length x), b_raw := True, b_tail := last_blk\<rparr>"
  have "coded cmp pct thr last_blk x = compress_stage (Some c) pct thr ?b"
    by (simp add: coded_def Some)
  then consider (pass) "coded cmp pct thr last_blk x = pass_raw ?b"
    | (take) "coded cmp pct thr last_blk x = ?b\<lparr>b_comp_size := compressed_size ?k,
        b_encoded := chunk_data ?k, b_raw := False\<rparr>"
        "length (chunk_data ?k) * 100 < length x * nat pct"
    using compress_stage_cases [of c pct thr ?b] a l by auto
  then show ?thesis
  proof cases
    case pass
    then show ?thesis using raw by (simp add: pass_raw_def)
  next
    case take
    have "length x * nat pct \<le> length x * 100" using assms(3) by (intro mult_le_mono2) simp
    then have "length (chunk_data ?k) < length x" using take(2) by linarith
    then show ?thesis using packed [OF Some] take(1) by simp
  qed
qed

lemma coded_comp_size:
  assumes "codec_opt cmp" and "length x \<le> max_block" and "pct \<le> 100"
  shows "b_comp_size (coded cmp pct thr last_blk x) = word_of_nat (length (payload cmp pct thr last_blk x))"
  using assms
proof (cases rule: coded_cases [where thr = thr and last_blk = last_blk])
  case (packed c)
  then have "block_codec c" using assms(1) by (simp add: codec_opt_def)
  then show ?thesis
    using block_codec.announced [of c x] block_codec.small [of c x] assms(2) packed(3,4)
    by (simp add: word_unat_eq_iff unat_size32)
qed simp

text \<open>The pipeline that \<open>make_file_write_pipeline\<close> assembles.\<close>

definition file_stages :: "compressor option \<Rightarrow> int \<Rightarrow> int \<Rightarrow> write_stage list" where
  "file_stages cmp pct thr =
     (case cmp of None \<Rightarrow> [] | Some c \<Rightarrow> [CompressStage (Some c) pct thr]) @ [CrcStage, BlockHeaderStage]"

lemma concat_block_header_stage: "concat (block_header_stage b) = le32 (b_unc_size b) @ le32 (b_comp_size b) @ le64 (b_crc b) @ b_encoded b"
  by (simp add: block_header_stage_def)

text \<open>
  A pipeline that has sent the chunks \<open>cs\<close> and holds the bytes that do not fill a chunk yet.
\<close>

abbreviation chunk_rec where
  "chunk_rec crc64 cmp pct thr last_blk x \<equiv> block_record crc64 x (payload cmp pct thr last_blk x)"

definition pipe_sent :: "crc_fun \<Rightarrow> compressor option \<Rightarrow> int \<Rightarrow> int \<Rightarrow> (bytes \<times> bool) list \<Rightarrow> write_pipeline \<Rightarrow> bool" where
  "pipe_sent crc64 cmp pct thr cs p \<longleftrightarrow>
     wp_stages p = file_stages cmp pct thr \<and>
     concat (wp_emitted p) = concat (map (\<lambda>(x, l). chunk_rec crc64 cmp pct thr l x) cs) \<and>
     wp_comp_lens p = map (\<lambda>(x, l). word_of_nat (length (payload cmp pct thr l x))) cs \<and>
     wp_total p = word_of_nat (length (concat (map fst cs))) \<and>
     wp_chunk_count p = word_of_nat (length cs) \<and>
     wp_raw_blocks p = word_of_nat (length (filter (\<lambda>(x, l). b_raw (coded cmp pct thr l x)) cs))"

lemma flush_block_sent:
  assumes sent: "pipe_sent crc64 cmp pct thr cs p" and cmp: "codec_opt cmp" "pct \<le> 100"
    and len: "length (wp_buf p) \<le> max_block"
  shows "pipe_sent crc64 cmp pct thr (cs @ [(wp_buf p, b_tail (wp_ctx p))]) (flush_block crc64 p) \<and>
    wp_buf (flush_block crc64 p) = [] \<and> \<not> b_tail (wp_ctx (flush_block crc64 p)) \<and>
    wp_chunk_size (flush_block crc64 p) = wp_chunk_size p"
proof -
  let ?x = "wp_buf p" and ?l = "b_tail (wp_ctx p)"
  let ?b = "(wp_ctx p)\<lparr>b_plain := ?x, b_unc_size := word_of_nat (length ?x), b_encoded := ?x,
    b_comp_size := word_of_nat (length ?x), b_raw := True\<rparr>"
  define b1 where "b1 = (case cmp of None \<Rightarrow> ?b | Some c \<Rightarrow> compress_stage (Some c) pct thr ?b)"
  have same: "b_encoded b1 = payload cmp pct thr ?l ?x" "b_raw b1 = b_raw (coded cmp pct thr ?l ?x)"
    "b_comp_size b1 = b_comp_size (coded cmp pct thr ?l ?x)" "b_unc_size b1 = word_of_nat (length ?x)"
    unfolding b1_def coded_def Let_def compress_stage_def pass_raw_def
    by (cases cmp; simp add: Let_def)+
  have run: "fold (write_process crc64) (wp_stages p) (?b, []) = (crc_stage crc64 b1, block_header_stage (crc_stage crc64 b1))"
    using sent by (cases cmp) (simp_all add: pipe_sent_def file_stages_def b1_def)
  have bytes: "concat (block_header_stage (crc_stage crc64 b1)) = chunk_rec crc64 cmp pct thr ?l ?x"
    by (simp add: concat_block_header_stage crc_stage_def same block_record_def coded_comp_size [OF cmp(1) len cmp(2)])
  have "flush_block crc64 p = p\<lparr>wp_ctx := (crc_stage crc64 b1)\<lparr>b_tail := False\<rparr>,
      wp_total := wp_total p + word_of_nat (length ?x), wp_chunk_count := wp_chunk_count p + 1,
      wp_raw_blocks := (if b_raw b1 then wp_raw_blocks p + 1 else wp_raw_blocks p),
      wp_comp_lens := wp_comp_lens p @ [b_comp_size b1], wp_buf := [],
      wp_emitted := wp_emitted p @ block_header_stage (crc_stage crc64 b1)\<rparr>"
    unfolding flush_block_def Let_def run by (simp add: crc_stage_def)
  then show ?thesis
    using sent by (simp add: pipe_sent_def bytes same coded_comp_size [OF cmp(1) len cmp(2)])
qed


text \<open>Between two calls the pipeline has sent full chunks and holds less than one.\<close>

definition pipe_open :: "crc_fun \<Rightarrow> compressor option \<Rightarrow> int \<Rightarrow> int \<Rightarrow> nat \<Rightarrow> bytes list \<Rightarrow> write_pipeline \<Rightarrow> bool" where
  "pipe_open crc64 cmp pct thr n cs p \<longleftrightarrow>
     pipe_sent crc64 cmp pct thr (map (\<lambda>x. (x, False)) cs) p \<and> wp_chunk_size p = n \<and>
     length (wp_buf p) < n \<and> \<not> b_tail (wp_ctx p) \<and> (\<forall>x \<in> set cs. length x = n)"

lemma pipe_open_new: "0 < n \<Longrightarrow> pipe_open crc64 cmp pct thr n [] (make_file_write_pipeline cmp n pct thr)"
  by (simp add: pipe_open_def pipe_sent_def make_file_write_pipeline_def new_write_pipeline_def file_stages_def new_block_def)

lemma pipe_open_append:
  assumes "pipe_open crc64 cmp pct thr n cs p" and cmp: "codec_opt cmp" "pct \<le> 100" "n \<le> max_block"
    and "length (wp_buf p @ d) \<le> n"
  defines "p2 \<equiv> p\<lparr>wp_buf := wp_buf p @ d\<rparr>"
  defines "p3 \<equiv> (if length (wp_buf p2) = n then flush_block crc64 p2 else p2)"
  shows "\<exists>cs'. pipe_open crc64 cmp pct thr n cs' p3 \<and> concat cs' @ wp_buf p3 = concat cs @ wp_buf p @ d"
proof (cases "length (wp_buf p2) = n")
  case False
  then have "pipe_open crc64 cmp pct thr n cs p3"
    using assms(1,5) by (simp add: pipe_open_def pipe_sent_def p2_def p3_def)
  then show ?thesis using False by (intro exI [of _ cs]) (simp add: p2_def p3_def)
next
  case True
  have s: "pipe_sent crc64 cmp pct thr (map (\<lambda>x. (x, False)) cs) p2" "\<not> b_tail (wp_ctx p2)"
    using assms(1) by (simp_all add: pipe_open_def pipe_sent_def p2_def)
  have f: "pipe_sent crc64 cmp pct thr (map (\<lambda>x. (x, False)) (cs @ [wp_buf p2])) p3"
    "wp_buf p3 = []" "\<not> b_tail (wp_ctx p3)" "wp_chunk_size p3 = n"
    using flush_block_sent [OF s(1) cmp(1,2)] s(2) True assms(1) cmp(3)
    by (simp_all add: p3_def pipe_open_def p2_def)
  then have "pipe_open crc64 cmp pct thr n (cs @ [wp_buf p2]) p3"
    using assms(1) True by (auto simp: pipe_open_def)
  then show ?thesis using f(2) by (intro exI [of _ "cs @ [wp_buf p2]"]) (simp add: p2_def)
qed

lemma wp_write_open:
  assumes "pipe_open crc64 cmp pct thr n cs p" and cmp: "codec_opt cmp" "pct \<le> 100" "n \<le> max_block"
  shows "\<exists>p' cs'. wp_write crc64 p d = Some p' \<and> pipe_open crc64 cmp pct thr n cs' p' \<and>
    concat cs' @ wp_buf p' = concat cs @ wp_buf p @ d"
  using assms(1)
proof (induction d arbitrary: p cs rule: length_induct)
  case (1 d)
  show ?case
  proof (cases "d = []")
    case True
    then show ?thesis using 1(2) by (auto simp: wp_write.simps)
  next
    case False
    define k where "k = min (n - length (wp_buf p)) (length d)"
    define p2 where "p2 = p\<lparr>wp_buf := wp_buf p @ take k d\<rparr>"
    define p3 where "p3 = (if length (wp_buf p2) = n then flush_block crc64 p2 else p2)"
    have o: "length (wp_buf p) < n" "wp_chunk_size p = n" using 1(2) by (simp_all add: pipe_open_def)
    have step: "wp_write crc64 p d = wp_write crc64 p3 (drop k d)"
      using o False by (subst wp_write.simps) (simp add: Let_def k_def p2_def p3_def)
    have k: "length (wp_buf p @ take k d) \<le> n" using o by (simp add: k_def)
    obtain cs1 where cs1: "pipe_open crc64 cmp pct thr n cs1 p3"
      "concat cs1 @ wp_buf p3 = concat cs @ wp_buf p @ take k d"
      using pipe_open_append [OF 1(2) cmp k, folded p2_def, folded p3_def] by blast
    have "length (drop k d) < length d" using False o by (simp add: k_def)
    then obtain p' cs' where "wp_write crc64 p3 (drop k d) = Some p'" "pipe_open crc64 cmp pct thr n cs' p'"
      "concat cs' @ wp_buf p' = concat cs1 @ wp_buf p3 @ drop k d"
      using 1(1) cs1(1) by blast
    moreover have "concat cs1 @ wp_buf p3 @ drop k d = concat cs @ wp_buf p @ d"
      using cs1(2) by (metis append.assoc append_take_drop_id)
    ultimately show ?thesis using step by auto
  qed
qed

text \<open>A sequence of \<open>write\<close> calls.\<close>

fun wp_write_all :: "crc_fun \<Rightarrow> write_pipeline \<Rightarrow> bytes list \<Rightarrow> write_pipeline option" where
  "wp_write_all crc64 p [] = Some p"
| "wp_write_all crc64 p (d # ds) = (case wp_write crc64 p d of None \<Rightarrow> None | Some p' \<Rightarrow> wp_write_all crc64 p' ds)"

lemma wp_write_all_open:
  assumes "pipe_open crc64 cmp pct thr n cs p" and cmp: "codec_opt cmp" "pct \<le> 100" "n \<le> max_block"
  shows "\<exists>p' cs'. wp_write_all crc64 p ds = Some p' \<and> pipe_open crc64 cmp pct thr n cs' p' \<and>
    concat cs' @ wp_buf p' = concat cs @ wp_buf p @ concat ds"
  using assms(1)
proof (induction ds arbitrary: p cs)
  case (Cons d ds)
  obtain p1 cs1 where p1: "wp_write crc64 p d = Some p1" "pipe_open crc64 cmp pct thr n cs1 p1"
    "concat cs1 @ wp_buf p1 = concat cs @ wp_buf p @ d"
    using wp_write_open [OF Cons.prems cmp] by blast
  obtain p2 cs2 where "wp_write_all crc64 p1 ds = Some p2" "pipe_open crc64 cmp pct thr n cs2 p2"
    "concat cs2 @ wp_buf p2 = concat cs1 @ wp_buf p1 @ concat ds"
    using Cons.IH [OF p1(2)] by blast
  then show ?case using p1 by (metis append.assoc concat.simps(2) option.simps(5) wp_write_all.simps(2))
qed auto

text \<open>
  What a finished pipeline has sent: one record per chunk of the plain bytes, where only a last,
  incomplete chunk carries the tail mark.
\<close>

definition marked :: "nat \<Rightarrow> bytes \<Rightarrow> (bytes \<times> bool) list" where
  "marked n d = map (\<lambda>x. (x, length x < n)) (chop n d)"

lemma wp_finish_sent:
  assumes "pipe_open crc64 cmp pct thr n cs p" and cmp: "codec_opt cmp" "pct \<le> 100" "n \<le> max_block"
  shows "pipe_sent crc64 cmp pct thr (marked n (concat cs @ wp_buf p)) (wp_finish crc64 p)"
proof -
  have o: "pipe_sent crc64 cmp pct thr (map (\<lambda>x. (x, False)) cs) p" "length (wp_buf p) < n" "\<forall>x \<in> set cs. length x = n"
    using assms(1) by (auto simp: pipe_open_def)
  have full: "map (\<lambda>x. (x, length x < n)) cs = map (\<lambda>x. (x, False)) cs" using o(3) by simp
  have m: "marked n (concat cs @ wp_buf p) = map (\<lambda>x. (x, False)) cs @ (if wp_buf p = [] then [] else [(wp_buf p, True)])"
    unfolding marked_def chop_chunks [OF o(3,2)] using full o(2) by simp
  show ?thesis
  proof (cases "wp_buf p = []")
    case True
    then show ?thesis using o(1) m by (simp add: wp_finish_def)
  next
    case False
    let ?p = "p\<lparr>wp_ctx := (wp_ctx p)\<lparr>b_tail := True\<rparr>\<rparr>"
    have "pipe_sent crc64 cmp pct thr (map (\<lambda>x. (x, False)) cs) ?p" using o(1) by (simp add: pipe_sent_def)
    from flush_block_sent [OF this cmp(1,2)] show ?thesis
      using False o(2) cmp(3) by (simp add: m wp_finish_def)
  qed
qed

lemma write_pipeline_result:
  assumes cmp: "codec_opt cmp" "pct \<le> 100" "n \<le> max_block" and n: "0 < n"
  shows "\<exists>p. wp_write_all crc64 (make_file_write_pipeline cmp n pct thr) ds = Some p \<and>
    pipe_sent crc64 cmp pct thr (marked n (concat ds)) (wp_finish crc64 p)"
proof -
  obtain p cs where "wp_write_all crc64 (make_file_write_pipeline cmp n pct thr) ds = Some p"
    "pipe_open crc64 cmp pct thr n cs p"
    "concat cs @ wp_buf p = concat [] @ wp_buf (make_file_write_pipeline cmp n pct thr) @ concat ds"
    using wp_write_all_open [OF pipe_open_new [OF n] cmp] by blast
  moreover have "wp_buf (make_file_write_pipeline cmp n pct thr) = []"
    by (simp add: make_file_write_pipeline_def new_write_pipeline_def)
  ultimately show ?thesis using wp_finish_sent [of crc64 cmp pct thr n cs p] cmp by auto
qed


section \<open>What the read pipeline delivers\<close>

text \<open>A source that never delivers more than it was asked for gives exactly the bytes wanted.\<close>

lemma pull_exact_length:
  assumes "pull_exact pull n got partial s = (True, bs, q, s')" and "length got \<le> n"
    and pull: "\<And>s k bs s'. pull s k = (Some bs, s') \<Longrightarrow> length bs \<le> k"
  shows "length bs = n"
  using assms(1,2)
proof (induction "n - length got" arbitrary: got partial s rule: less_induct)
  case less
  show ?case
  proof (cases "n \<le> length got")
    case True
    then show ?thesis using less.prems by (subst (asm) pull_exact.simps) simp
  next
    case False
    obtain r s1 where p: "pull s (n - length got) = (r, s1)" by (cases "pull s (n - length got)")
    then obtain cs where cs: "r = Some cs" "cs \<noteq> []"
      using less.prems(1) False by (subst (asm) pull_exact.simps) (auto split: option.splits if_splits)
    then have rec: "pull_exact pull n (got @ cs) (partial \<or> length (got @ cs) < n) s1 = (True, bs, q, s')"
      using less.prems(1) False p by (subst (asm) pull_exact.simps) (simp add: Let_def)
    have "length (got @ cs) \<le> n" using pull p cs(1) False by fastforce
    moreover have "n - length (got @ cs) < n - length got" using cs(2) False by (cases cs) auto
    ultimately show ?thesis using less.hyps rec by blast
  qed
qed

text \<open>
  The contract of a source: while bytes are left, a pull delivers some of them, at most as many as
  asked for, in order; at the end it delivers nothing.
\<close>

locale chunk_source =
  fixes pull :: "'s pull_fun"
    and rest :: "'s \<Rightarrow> bytes"
    and good :: "'s \<Rightarrow> bool"
  assumes pull_some: "\<lbrakk>good s; 0 < n; rest s \<noteq> []\<rbrakk> \<Longrightarrow>
      \<exists>bs s'. pull s n = (Some bs, s') \<and> bs \<noteq> [] \<and> length bs \<le> n \<and> rest s = bs @ rest s' \<and> good s'"
    and pull_end: "\<lbrakk>good s; rest s = []\<rbrakk> \<Longrightarrow> \<exists>s'. pull s n = (Some [], s') \<and> rest s' = [] \<and> good s'"
begin

lemma pull_exact_delivers:
  "\<lbrakk>good s; length got \<le> n; n - length got \<le> length (rest s)\<rbrakk> \<Longrightarrow>
   \<exists>q s'. pull_exact pull n got partial s = (True, got @ take (n - length got) (rest s), q, s') \<and>
     good s' \<and> rest s' = drop (n - length got) (rest s)"
proof (induction "n - length got" arbitrary: got partial s rule: less_induct)
  case less
  show ?case
  proof (cases "n \<le> length got")
    case True
    then show ?thesis using less.prems by (subst pull_exact.simps) simp
  next
    case False
    then have "rest s \<noteq> []" "0 < n - length got" using less.prems by auto
    then obtain bs s1 where s1: "pull s (n - length got) = (Some bs, s1)" "bs \<noteq> []"
      "length bs \<le> n - length got" "rest s = bs @ rest s1" "good s1"
      using pull_some less.prems(1) by blast
    have lt: "n - length (got @ bs) < n - length got" using s1(2) False by (cases bs) auto
    have "n - length (got @ bs) \<le> length (rest s1)" "length (got @ bs) \<le> n"
      using less.prems(2,3) s1(3,4) False by auto
    from less.hyps [OF lt s1(5) this(2,1), of "partial \<or> length (got @ bs) < n"]
    obtain q s' where "pull_exact pull n (got @ bs) (partial \<or> length (got @ bs) < n) s1 =
        (True, (got @ bs) @ take (n - length (got @ bs)) (rest s1), q, s')"
      "good s'" "rest s' = drop (n - length (got @ bs)) (rest s1)" by blast
    moreover have "pull_exact pull n got partial s =
        pull_exact pull n (got @ bs) (partial \<or> length (got @ bs) < n) s1"
      using False s1(1,2) by (subst pull_exact.simps) (simp add: Let_def)
    moreover have "bs @ take (n - length (got @ bs)) (rest s1) = take (n - length got) (rest s)"
      "drop (n - length (got @ bs)) (rest s1) = drop (n - length got) (rest s)"
      using s1(3,4) by (simp_all add: take_append drop_append)
    ultimately show ?thesis by simp
  qed
qed

lemma pull_exact_from_start:
  assumes "good s" and "n \<le> length (rest s)"
  obtains q s' where "pull_exact pull n [] partial s = (True, take n (rest s), q, s')" "good s'"
    "rest s' = drop n (rest s)"
  using pull_exact_delivers [of s "[]" n partial] assms by auto

end

text \<open>The record of a chunk can be turned back into the chunk by this decompressor.\<close>

definition decodable :: "compressor option \<Rightarrow> bytes \<Rightarrow> bytes \<Rightarrow> bool" where
  "decodable rc x pl \<longleftrightarrow>
     (case rc of
        None \<Rightarrow> pl = x
      | Some c \<Rightarrow> if length pl = length x then pl = x else c_decompress_to c pl (length x) = Some x)"

definition read_stages :: "compressor option \<Rightarrow> read_stage list" where
  "read_stages rc = [CrcVerifyStage, DecompressStage rc]"

lemma word_of_size_eq:
  "\<lbrakk>m \<le> max_block; n \<le> max_block\<rbrakk> \<Longrightarrow> (word_of_nat m :: 32 word) = word_of_nat n \<longleftrightarrow> m = n"
  by (simp add: word_unat_eq_iff unat_size32)

lemma stages_decode:
  assumes "decodable rc x pl" and "length x \<le> max_block" and "length pl \<le> max_block"
    and "b_encoded b = pl" "b_unc_size b = word_of_nat (length x)" "b_comp_size b = word_of_nat (length pl)"
      "b_crc b = data_checksum crc64 pl" "\<not> b_failed b"
  shows "\<not> b_failed (run_read_stages crc64 (read_stages rc) b) \<and>
    b_plain (run_read_stages crc64 (read_stages rc) b) = x"
proof -
  have u: "unat (b_unc_size b) = length x" "unat (b_comp_size b) = length pl"
    using assms(2,3,5,6) by (simp_all add: unat_size32)
  have eq: "b_comp_size b = b_unc_size b \<longleftrightarrow> length pl = length x"
    using word_of_size_eq assms(2,3,5,6) by simp
  have v: "crc_verify_stage crc64 b = b" using assms(4,7) by (simp add: crc_verify_stage_def)
  show ?thesis
    using assms(1,4,8) u
    by (cases rc) (auto simp: read_stages_def v decompress_stage_def decodable_def eq Let_def split: if_splits)
qed

text \<open>Fields of a block record.\<close>

lemma block_record_fields:
  "take 4 (take 16 (block_record crc64 x pl @ aft)) = le32 (word_of_nat (length x))"
  "take 4 (drop 4 (take 16 (block_record crc64 x pl @ aft))) = le32 (word_of_nat (length pl))"
  "take 8 (drop 8 (take 16 (block_record crc64 x pl @ aft))) = le64 (data_checksum crc64 pl)"
  "drop 16 (block_record crc64 x pl @ aft) = pl @ aft"
  "length (block_record crc64 x pl) = 16 + length pl"
  by (simp_all add: block_record_def c32.enc_length c64.enc_length)

context chunk_source
begin

lemma next_block_delivers:
  assumes r: "good (rp_src r)" "\<not> rp_failed r" "\<not> rp_eof r" "rp_stages r = read_stages rc"
    and src: "rest (rp_src r) = block_record crc64 x pl @ aft"
    and dec: "decodable rc x pl" "length x \<le> max_block" "length pl \<le> max_block"
  shows "\<exists>b r'. next_block crc64 pull r = (Some b, r') \<and> b_plain b = x \<and> good (rp_src r') \<and>
    \<not> rp_failed r' \<and> \<not> rp_eof r' \<and> rp_stages r' = read_stages rc \<and> rest (rp_src r') = aft"
proof -
  define hdr where "hdr = take 16 (rest (rp_src r))"
  have f: "take 4 hdr = le32 (word_of_nat (length x))" "take 4 (drop 4 hdr) = le32 (word_of_nat (length pl))"
    "take 8 (drop 8 hdr) = le64 (data_checksum crc64 pl)"
    unfolding hdr_def src by (simp_all only: block_record_fields)
  obtain q1 s1 where s1: "pull_exact pull 16 [] (rp_hdr_partial r) (rp_src r) = (True, hdr, q1, s1)"
    "good s1" "rest s1 = drop 16 (rest (rp_src r))"
    unfolding hdr_def using pull_exact_from_start [OF r(1), of 16] src block_record_fields(5) by auto
  have rest1: "rest s1 = pl @ aft" using s1(3) block_record_fields(4) by (simp add: src)
  have u: "unat (word_of_nat (length pl) :: 32 word) = length pl" "unat (word_of_nat (length x) :: 32 word) = length x"
    using dec(2,3) by (simp_all add: unat_size32)
  obtain q2 s2 where s2: "pull_exact pull (length pl) [] False s1 = (True, pl, q2, s2)" "good s2" "rest s2 = aft"
    using pull_exact_from_start [OF s1(2), of "length pl" False] rest1 by auto
  let ?b = "new_block\<lparr>b_unc_size := word_of_nat (length x), b_comp_size := word_of_nat (length pl),
    b_crc := data_checksum crc64 pl, b_encoded := pl\<rparr>"
  let ?b' = "run_read_stages crc64 (read_stages rc) ?b"
  have st: "\<not> b_failed ?b' \<and> b_plain ?b' = x"
    by (rule stages_decode [OF dec]) (simp_all add: new_block_def)
  have bound: "\<not> kMaxWireBlockBytes < length x" "\<not> kMaxWireBlockBytes < length pl"
    using dec(2,3) by (simp_all add: kMaxWireBlockBytes_def)
  have "next_block crc64 pull r =
    (Some ?b', r\<lparr>rp_src := s2, rp_hdr_partial := q2\<rparr>)"
    using r(2-4) s1(1) s2(1) st bound
    by (simp add: next_block_def f c32.dec_enc c64.dec_enc u Let_def)
  then show ?thesis using s2 r(2-4) st by auto
qed

end

end
