(* ===== verification/Object_Stream.thy ===== *)
theory Object_Stream
  imports Block_Pipeline
begin

text \<open>
  Object streams of src/storage/cpp: the chunk sources (memory_chunk_source.cpp, disk_chunk_source.cpp),
  the stream buffers (compressing_streambuf.cpp, decompressing_streambuf.cpp) and \<open>FlyStream\<close>
  (fly_stream.cpp), which together write an object as a record (blocks and trailer) and read it back.
  The source of a reader is a state with a pull function; \<open>std::istream\<close> is modelled by the flag that
  a short read sets.  Reading from a file descriptor is the parameter \<open>pread\<close>.
\<close>

section \<open>Memory source\<close>

record memory_source =
  ms_data :: bytes
  ms_pos :: nat
  ms_area :: nat
  ms_py_name :: bytes
  ms_total :: "64 word"
  ms_chunk_count :: "32 word"
  ms_comp :: compression_type
  ms_failed :: bool
  ms_detail :: string

text \<open>The walk over the block headers: \<open>Inl\<close> with the reason, or \<open>Inr\<close> with the end position.\<close>

fun scan_blocks :: "bytes \<Rightarrow> nat \<Rightarrow> 32 word list \<Rightarrow> nat \<Rightarrow> string + nat" where
  "scan_blocks d area [] pos = Inr pos"
| "scan_blocks d area (l # ls) pos =
     (if area < pos + 16 then Inl ''integrity: block header out of range''
      else
        let comp = rd_le32 (bytes_at (pos + 4) 4 d)
        in if sint comp < 0 \<or> comp \<noteq> l then Inl ''integrity: block table reconciliation mismatch''
           else scan_blocks d area ls (pos + (16 + unat comp)))"

definition ms_fail :: "string \<Rightarrow> memory_source \<Rightarrow> memory_source" where
  "ms_fail why s = s\<lparr>ms_failed := True, ms_detail := why\<rparr>"

definition parse_trailer :: "crc_fun \<Rightarrow> memory_source \<Rightarrow> memory_source" where
  "parse_trailer crc64 s =
     (if ms_data s = [] then s
      else
        case deserialize_trailer crc64 (ms_data s) of
          None \<Rightarrow> ms_fail ''integrity: trailer parse failed'' s
        | Some (h, trailer_len) \<Rightarrow>
            let s1 = s\<lparr>ms_py_name := oh_py_name h, ms_total := oh_total_size h,
                       ms_chunk_count := oh_chunk_count h, ms_comp := oh_compression h,
                       ms_area := length (ms_data s) - trailer_len\<rparr>
            in if length (oh_block_comp_lens h) \<noteq> unat (oh_chunk_count h)
               then ms_fail ''integrity: block table size mismatch'' s1
               else
                 case scan_blocks (ms_data s) (ms_area s1) (oh_block_comp_lens h) 0 of
                   Inl why \<Rightarrow> ms_fail why s1
                 | Inr pos \<Rightarrow>
                     if pos \<noteq> ms_area s1 then ms_fail ''integrity: block area length mismatch'' s1 else s1)"

definition new_memory_source :: "crc_fun \<Rightarrow> bytes \<Rightarrow> memory_source" where
  "new_memory_source crc64 d =
     parse_trailer crc64 \<lparr>ms_data = d, ms_pos = 0, ms_area = 0, ms_py_name = [], ms_total = 0,
       ms_chunk_count = 0, ms_comp = NONE, ms_failed = False, ms_detail = []\<rparr>"

definition memory_pull :: "memory_source pull_fun" where
  "memory_pull s n =
     (if ms_failed s then (None, s)
      else
        let remain = ms_area s - ms_pos s;
            take_n = min n remain
        in if take_n = 0 then (Some [], s)
           else (Some (take take_n (drop (ms_pos s) (ms_data s))), s\<lparr>ms_pos := ms_pos s + take_n\<rparr>))"

section \<open>Disk source\<close>

record disk_source =
  dk_path :: string
  dk_offset :: nat
  dk_size :: nat
  dk_pos :: nat
  dk_py_name :: bytes
  dk_total :: "64 word"
  dk_chunk_count :: "32 word"
  dk_comp :: compression_type
  dk_failed :: bool
  dk_detail :: string

text \<open>
  \<open>opened\<close> tells whether \<open>open(2)\<close> succeeded.  The error number and path at the end of the failure
  details are left out.
\<close>

definition new_disk_source ::
  "bool \<Rightarrow> string \<Rightarrow> nat \<Rightarrow> nat \<Rightarrow> bytes \<Rightarrow> 64 word \<Rightarrow> 32 word \<Rightarrow> compression_type \<Rightarrow> disk_source" where
  "new_disk_source opened path offset sz py_name tot cnt cty =
     \<lparr>dk_path = path, dk_offset = offset, dk_size = sz, dk_pos = 0, dk_py_name = py_name,
      dk_total = tot, dk_chunk_count = cnt, dk_comp = cty, dk_failed = \<not> opened,
      dk_detail = (if opened then [] else ''io: open failed'')\<rparr>"

text \<open>\<open>pread off n\<close> is \<open>None\<close> on an error and otherwise the bytes read, possibly fewer than \<open>n\<close>.\<close>

definition disk_pull :: "(nat \<Rightarrow> nat \<Rightarrow> bytes option) \<Rightarrow> disk_source pull_fun" where
  "disk_pull pread s n =
     (if dk_failed s then (None, s)
      else
        let remain = dk_size s - dk_pos s;
            take_n = min n remain
        in if take_n = 0 then (Some [], s)
           else
             case pread (dk_offset s + dk_pos s) take_n of
               None \<Rightarrow> (None, s\<lparr>dk_failed := True, dk_detail := ''io: pread failed''\<rparr>)
             | Some bs \<Rightarrow>
                 if length bs < take_n
                 then (None, s\<lparr>dk_failed := True, dk_detail := ''integrity: short read (record truncated)''\<rparr>)
                 else (Some bs, s\<lparr>dk_pos := dk_pos s + take_n\<rparr>))"

section \<open>Reading stream buffer\<close>

record 's dsb =
  dsb_pipe :: "('s \<times> nat) read_pipeline"
  dsb_area :: nat
  dsb_failed :: bool
  dsb_plain :: bytes
  dsb_pos :: nat

text \<open>The pull closure stops at the end of the block area and counts what it delivered.\<close>

definition bounded_pull :: "'s pull_fun \<Rightarrow> nat \<Rightarrow> ('s \<times> nat) pull_fun" where
  "bounded_pull pull area sc n =
     (let (s, consumed) = sc
      in if area \<le> consumed then (Some [], (s, consumed))
         else
           let n' = (if area - consumed < n then area - consumed else n);
               (r, s') = pull s n'
           in (r, (s', case r of None \<Rightarrow> consumed | Some bs \<Rightarrow> consumed + length bs)))"

definition new_dsb :: "codec_libs \<Rightarrow> compression_type \<Rightarrow> bool \<Rightarrow> nat \<Rightarrow> 's \<Rightarrow> 's dsb" where
  "new_dsb L cty failed area s = \<lparr>dsb_pipe = make_block_read_pipeline L cty (s, 0), dsb_area = area,
     dsb_failed = failed, dsb_plain = [], dsb_pos = 0\<rparr>"

definition dsb_refill :: "crc_fun \<Rightarrow> 's pull_fun \<Rightarrow> 's dsb \<Rightarrow> bool \<times> 's dsb" where
  "dsb_refill crc64 pull d =
     (if dsb_failed d then (False, d)
      else if dsb_area d \<le> snd (rp_src (dsb_pipe d)) then (False, d)
      else
        case next_block crc64 (bounded_pull pull (dsb_area d)) (dsb_pipe d) of
          (None, r) \<Rightarrow> (False, d\<lparr>dsb_pipe := r, dsb_failed := rp_failed r\<rparr>)
        | (Some b, r) \<Rightarrow> (b_plain b \<noteq> [], d\<lparr>dsb_pipe := r, dsb_plain := b_plain b, dsb_pos := 0\<rparr>))"

definition dsb_underflow :: "crc_fun \<Rightarrow> 's pull_fun \<Rightarrow> 's dsb \<Rightarrow> byte option \<times> 's dsb" where
  "dsb_underflow crc64 pull d =
     (if dsb_pos d < length (dsb_plain d) then (Some (dsb_plain d ! dsb_pos d), d)
      else
        case dsb_refill crc64 pull d of
          (False, d') \<Rightarrow> (None, d')
        | (True, d') \<Rightarrow> (Some (dsb_plain d' ! dsb_pos d'), d'))"

lemma dsb_refill_True: "dsb_refill crc64 pull d = (True, d') \<Longrightarrow> dsb_pos d' < length (dsb_plain d')"
  by (auto simp: dsb_refill_def split: if_splits prod.splits option.splits)

text \<open>\<open>xsgetn\<close> copies until \<open>n\<close> bytes are there or the stream ends.\<close>

function xsgetn :: "crc_fun \<Rightarrow> 's pull_fun \<Rightarrow> nat \<Rightarrow> bytes \<Rightarrow> 's dsb \<Rightarrow> bytes \<times> 's dsb" where
  "xsgetn crc64 pull n copied d =
     (if n \<le> length copied then (copied, d)
      else
        case (if length (dsb_plain d) \<le> dsb_pos d then dsb_refill crc64 pull d else (True, d)) of
          (False, d') \<Rightarrow> (copied, d')
        | (True, d') \<Rightarrow>
            let avail = min (length (dsb_plain d') - dsb_pos d') (n - length copied)
            in xsgetn crc64 pull n (copied @ take avail (drop (dsb_pos d') (dsb_plain d')))
                 (d'\<lparr>dsb_pos := dsb_pos d' + avail\<rparr>))"
  by pat_completeness auto
termination
proof (relation "measure (\<lambda>(crc64, pull, n, copied, d). n - length copied)", goal_cases)
  case (2 crc64 pull n copied d x d' k)
  then have "dsb_pos d' < length (dsb_plain d')"
    using dsb_refill_True [of crc64 pull d d'] by (auto split: if_splits)
  then show ?case using 2 by (auto simp: min_def)
qed simp

declare xsgetn.simps [simp del]


section \<open>FlyStream, write mode\<close>

record fly_writer =
  fw_comp_type :: compression_type
  fw_pipe :: write_pipeline
  fw_py_name :: bytes

definition open_writer :: "codec_libs \<Rightarrow> compression_type \<Rightarrow> nat \<Rightarrow> bytes \<Rightarrow> int \<Rightarrow> fly_writer" where
  "open_writer L ty chunk_size py_name compression_threshold =
     (let cmp = (if ty \<noteq> NONE then Some (create_compressor L ty (- 1)) else None)
      in \<lparr>fw_comp_type = (case cmp of None \<Rightarrow> NONE | Some c \<Rightarrow> c_type c),
          fw_pipe = make_file_write_pipeline cmp chunk_size 85 compression_threshold,
          fw_py_name = py_name\<rparr>)"

definition fs_write :: "crc_fun \<Rightarrow> fly_writer \<Rightarrow> bytes \<Rightarrow> fly_writer option" where
  "fs_write crc64 w d = map_option (\<lambda>p. w\<lparr>fw_pipe := p\<rparr>) (wp_write crc64 (fw_pipe w) d)"

definition fs_flush :: "crc_fun \<Rightarrow> fly_writer \<Rightarrow> fly_writer" where
  "fs_flush crc64 w = w\<lparr>fw_pipe := wp_finish crc64 (fw_pipe w)\<rparr>"

definition effective_compression_type :: "fly_writer \<Rightarrow> compression_type" where
  "effective_compression_type w =
     (if wp_chunk_count (fw_pipe w) > 0 \<and> wp_all_raw (fw_pipe w) then NONE else fw_comp_type w)"

definition stream_header :: "fly_writer \<Rightarrow> object_header" where
  "stream_header w = \<lparr>oh_magic = FLY_OBJECT_MAGIC, oh_version = FLY_OBJECT_VERSION,
     oh_py_name_len = word_of_nat (length (fw_py_name w)), oh_py_name = fw_py_name w,
     oh_total_size = wp_total (fw_pipe w), oh_chunk_count = wp_chunk_count (fw_pipe w),
     oh_compression = effective_compression_type w, oh_block_comp_lens = wp_comp_lens (fw_pipe w)\<rparr>"

text \<open>\<open>finish_write\<close> returns the whole record; \<open>finish_sink\<close> hands every piece to the sink in order.\<close>

definition finish_write :: "crc_fun \<Rightarrow> fly_writer \<Rightarrow> bytes" where
  "finish_write crc64 w =
     (let w1 = fs_flush crc64 w
      in concat (wp_emitted (fw_pipe w1)) @ serialize_trailer crc64 (stream_header w1))"

definition finish_sink :: "crc_fun \<Rightarrow> fly_writer \<Rightarrow> bytes list" where
  "finish_sink crc64 w =
     (let w1 = fs_flush crc64 w
      in wp_emitted (fw_pipe w1) @ [serialize_trailer crc64 (stream_header w1)])"

section \<open>FlyStream, read mode\<close>

record 's fly_reader =
  fr_dsb :: "'s dsb"
  fr_eof :: bool

definition open_reader :: "codec_libs \<Rightarrow> crc_fun \<Rightarrow> bytes \<Rightarrow> memory_source fly_reader" where
  "open_reader L crc64 d =
     (let s = new_memory_source crc64 d
      in \<lparr>fr_dsb = new_dsb L (ms_comp s) (ms_failed s) (ms_area s) s, fr_eof = False\<rparr>)"

definition open_stream_reader :: "codec_libs \<Rightarrow> compression_type \<Rightarrow> bool \<Rightarrow> nat \<Rightarrow> 's \<Rightarrow> 's fly_reader" where
  "open_stream_reader L cty failed area s = \<lparr>fr_dsb = new_dsb L cty failed area s, fr_eof = False\<rparr>"

definition fs_read :: "crc_fun \<Rightarrow> 's pull_fun \<Rightarrow> nat \<Rightarrow> 's fly_reader \<Rightarrow> bytes \<times> 's fly_reader" where
  "fs_read crc64 pull n r =
     (if fr_eof r then ([], r)
      else
        let (bs, d) = xsgetn crc64 pull n [] (fr_dsb r)
        in (bs, \<lparr>fr_dsb = d, fr_eof = length bs < n\<rparr>))"

partial_function (option) fs_read_loop ::
  "crc_fun \<Rightarrow> 's pull_fun \<Rightarrow> bytes \<Rightarrow> 's fly_reader \<Rightarrow> (bytes \<times> 's fly_reader) option" where
  "fs_read_loop crc64 pull out r =
     (let (bs, r') = fs_read crc64 pull 8192 r
      in if bs = [] then Some (out, r') else fs_read_loop crc64 pull (out @ bs) r')"

definition fs_read_all :: "crc_fun \<Rightarrow> 's pull_fun \<Rightarrow> 's fly_reader \<Rightarrow> (bytes \<times> 's fly_reader) option" where
  "fs_read_all crc64 pull r = fs_read_loop crc64 pull [] r"

partial_function (option) fs_line_loop ::
  "crc_fun \<Rightarrow> 's pull_fun \<Rightarrow> bytes \<Rightarrow> 's fly_reader \<Rightarrow> (bytes \<times> 's fly_reader) option" where
  "fs_line_loop crc64 pull out r =
     (let (bs, r') = fs_read crc64 pull 1 r
      in if length bs \<noteq> 1 then Some (out, r')
         else if hd bs = 10 then Some (out @ bs, r')
         else fs_line_loop crc64 pull (out @ bs) r')"

definition fs_readline :: "crc_fun \<Rightarrow> 's pull_fun \<Rightarrow> 's fly_reader \<Rightarrow> (bytes \<times> 's fly_reader) option" where
  "fs_readline crc64 pull r = fs_line_loop crc64 pull [] r"

definition checksum_failed :: "'s fly_reader \<Rightarrow> bool" where
  "checksum_failed r \<longleftrightarrow> dsb_failed (fr_dsb r)"

definition failure_detail :: "('s \<Rightarrow> string) \<Rightarrow> 's fly_reader \<Rightarrow> string" where
  "failure_detail detail r =
     (if \<not> checksum_failed r then []
      else
        let d = detail (fst (rp_src (dsb_pipe (fr_dsb r))))
        in if d \<noteq> [] then d else ''integrity: block verify/decompress failure'')"

section \<open>The sources keep their contract\<close>

interpretation mem_src: chunk_source memory_pull
  "\<lambda>s. drop (ms_pos s) (take (ms_area s) (ms_data s))"
  "\<lambda>s. \<not> ms_failed s \<and> ms_area s \<le> length (ms_data s)"
proof unfold_locales
  fix s :: memory_source and n :: nat
  assume s: "\<not> ms_failed s \<and> ms_area s \<le> length (ms_data s)"
  { assume n: "0 < n" "drop (ms_pos s) (take (ms_area s) (ms_data s)) \<noteq> []"
    define k where "k = min n (ms_area s - ms_pos s)"
    define s' where "s' = s\<lparr>ms_pos := ms_pos s + k\<rparr>"
    have k: "0 < k" "k \<le> n" "ms_pos s + k \<le> ms_area s" using n s by (auto simp: k_def)
    have "memory_pull s n = (Some (take k (drop (ms_pos s) (ms_data s))), s')"
      using s k by (simp add: memory_pull_def k_def s'_def Let_def)
    moreover have "drop (ms_pos s) (take (ms_area s) (ms_data s)) =
        take k (drop (ms_pos s) (ms_data s)) @ drop (ms_pos s') (take (ms_area s') (ms_data s'))"
      using k s append_take_drop_id [of k "drop (ms_pos s) (take (ms_area s) (ms_data s))"]
      by (simp add: s'_def drop_take min_absorb1 add.commute)
    moreover have "length (take k (drop (ms_pos s) (ms_data s))) = k" using k s by auto
    ultimately show "\<exists>bs s'. memory_pull s n = (Some bs, s') \<and> bs \<noteq> [] \<and> length bs \<le> n \<and>
        drop (ms_pos s) (take (ms_area s) (ms_data s)) = bs @ drop (ms_pos s') (take (ms_area s') (ms_data s')) \<and>
        \<not> ms_failed s' \<and> ms_area s' \<le> length (ms_data s')"
      using k s by (intro exI [of _ "take k (drop (ms_pos s) (ms_data s))"] exI [of _ s']) (auto simp: s'_def) }
  assume "drop (ms_pos s) (take (ms_area s) (ms_data s)) = []"
  then have "memory_pull s n = (Some [], s)" using s by (auto simp: memory_pull_def Let_def)
  then show "\<exists>s'. memory_pull s n = (Some [], s') \<and> drop (ms_pos s') (take (ms_area s') (ms_data s')) = [] \<and>
      \<not> ms_failed s' \<and> ms_area s' \<le> length (ms_data s')"
    using s \<open>drop (ms_pos s) (take (ms_area s) (ms_data s)) = []\<close> by blast
qed

text \<open>Reading a regular file whose content does not change.\<close>

definition file_pread :: "bytes \<Rightarrow> nat \<Rightarrow> nat \<Rightarrow> bytes option" where
  "file_pread content off n = Some (take n (drop off content))"

interpretation disk_src: chunk_source "disk_pull (file_pread content)"
  "\<lambda>s. drop (dk_pos s) (take (dk_size s) (drop (dk_offset s) content))"
  "\<lambda>s. \<not> dk_failed s \<and> dk_offset s + dk_size s \<le> length content" for content
proof unfold_locales
  fix s :: disk_source and n :: nat
  assume s: "\<not> dk_failed s \<and> dk_offset s + dk_size s \<le> length content"
  let ?d = "drop (dk_offset s) content"
  { assume n: "0 < n" "drop (dk_pos s) (take (dk_size s) ?d) \<noteq> []"
    define k where "k = min n (dk_size s - dk_pos s)"
    define s' where "s' = s\<lparr>dk_pos := dk_pos s + k\<rparr>"
    have k: "0 < k" "k \<le> n" "dk_pos s + k \<le> dk_size s" using n s by (auto simp: k_def)
    have len: "length (take k (drop (dk_pos s) ?d)) = k" using k s by auto
    have "disk_pull (file_pread content) s n = (Some (take k (drop (dk_pos s) ?d)), s')"
      using s k len by (simp add: disk_pull_def file_pread_def k_def s'_def Let_def add.commute)
    moreover have "drop (dk_pos s) (take (dk_size s) ?d) =
        take k (drop (dk_pos s) ?d) @ drop (dk_pos s') (take (dk_size s') (drop (dk_offset s') content))"
      using k s append_take_drop_id [of k "drop (dk_pos s) (take (dk_size s) ?d)"]
      by (simp add: s'_def drop_take min_absorb1 add.commute add.left_commute)
    ultimately show "\<exists>bs s'. disk_pull (file_pread content) s n = (Some bs, s') \<and> bs \<noteq> [] \<and> length bs \<le> n \<and>
        drop (dk_pos s) (take (dk_size s) ?d) = bs @ drop (dk_pos s') (take (dk_size s') (drop (dk_offset s') content)) \<and>
        \<not> dk_failed s' \<and> dk_offset s' + dk_size s' \<le> length content"
      using k s len by (intro exI [of _ "take k (drop (dk_pos s) ?d)"] exI [of _ s']) (auto simp: s'_def) }
  assume e: "drop (dk_pos s) (take (dk_size s) ?d) = []"
  then have "disk_pull (file_pread content) s n = (Some [], s)" using s by (auto simp: disk_pull_def Let_def)
  then show "\<exists>s'. disk_pull (file_pread content) s n = (Some [], s') \<and>
      drop (dk_pos s') (take (dk_size s') (drop (dk_offset s') content)) = [] \<and>
      \<not> dk_failed s' \<and> dk_offset s' + dk_size s' \<le> length content"
    using s e by blast
qed


section \<open>Reading a sequence of block records\<close>

definition blocks_bytes :: "crc_fun \<Rightarrow> (bytes \<times> bytes) list \<Rightarrow> bytes" where
  "blocks_bytes crc64 bs = concat (map (\<lambda>(x, pl). block_record crc64 x pl) bs)"

definition blocks_ok :: "compressor option \<Rightarrow> (bytes \<times> bytes) list \<Rightarrow> bool" where
  "blocks_ok rc bs \<longleftrightarrow>
     (\<forall>(x, pl) \<in> set bs. decodable rc x pl \<and> x \<noteq> [] \<and> length x \<le> max_block \<and> length pl \<le> max_block)"

text \<open>The reader has the blocks \<open>bs\<close> ahead of it, and nothing else up to the end of the block area.\<close>

definition dsb_ahead ::
  "('s \<Rightarrow> bytes) \<Rightarrow> ('s \<Rightarrow> bool) \<Rightarrow> compressor option \<Rightarrow> crc_fun \<Rightarrow> (bytes \<times> bytes) list \<Rightarrow> 's dsb \<Rightarrow> bool" where
  "dsb_ahead rest good rc crc64 bs d \<longleftrightarrow>
     (let r = dsb_pipe d; s = fst (rp_src r); ahead = dsb_area d - snd (rp_src r)
      in good s \<and> ahead \<le> length (rest s) \<and> take ahead (rest s) = blocks_bytes crc64 bs \<and>
         \<not> rp_failed r \<and> \<not> rp_eof r \<and> rp_stages r = read_stages rc \<and> \<not> dsb_failed d \<and>
         blocks_ok rc bs \<and> dsb_pos d \<le> length (dsb_plain d))"

definition dsb_remaining :: "(bytes \<times> bytes) list \<Rightarrow> 's dsb \<Rightarrow> bytes" where
  "dsb_remaining bs d = drop (dsb_pos d) (dsb_plain d) @ concat (map fst bs)"

lemma blocks_bytes_Cons: "blocks_bytes crc64 ((x, pl) # bs) = block_record crc64 x pl @ blocks_bytes crc64 bs"
  by (simp add: blocks_bytes_def)

context chunk_source
begin

lemma bounded_some:
  assumes g: "good s" "area - c \<le> length (rest s)" and n: "0 < n" "take (area - c) (rest s) \<noteq> []"
  shows "\<exists>bs s' c'. bounded_pull pull area (s, c) n = (Some bs, (s', c')) \<and> bs \<noteq> [] \<and> length bs \<le> n \<and>
    take (area - c) (rest s) = bs @ take (area - c') (rest s') \<and> good s' \<and> area - c' \<le> length (rest s')"
proof -
  define n' where "n' = (if area - c < n then area - c else n)"
  have n': "0 < n'" "n' \<le> n" "n' \<le> area - c" "rest s \<noteq> []" "\<not> area \<le> c" using n by (auto simp: n'_def)
  obtain bs s' where s': "pull s n' = (Some bs, s')" "bs \<noteq> []" "length bs \<le> n'" "rest s = bs @ rest s'" "good s'"
    using pull_some [OF g(1) n'(1) n'(4)] by blast
  have "bounded_pull pull area (s, c) n = (Some bs, (s', c + length bs))"
    using n'(5) s'(1) by (simp add: bounded_pull_def n'_def Let_def)
  moreover have "take (area - c) (rest s) = bs @ take (area - (c + length bs)) (rest s')"
    using s'(3,4) n'(3) by simp
  moreover have "area - (c + length bs) \<le> length (rest s')" using g(2) s'(4) by simp
  ultimately show ?thesis using s' n' by (intro exI [of _ bs] exI [of _ s'] exI [of _ "c + length bs"]) simp
qed

lemma bounded_source:
  "chunk_source (bounded_pull pull area) (\<lambda>sc. take (area - snd sc) (rest (fst sc)))
     (\<lambda>sc. good (fst sc) \<and> area - snd sc \<le> length (rest (fst sc)))"
proof
  fix sc :: "'s \<times> nat" and n :: nat
  obtain s c where sc: "sc = (s, c)" by (cases sc)
  assume g: "good (fst sc) \<and> area - snd sc \<le> length (rest (fst sc))"
  { assume "0 < n" "take (area - snd sc) (rest (fst sc)) \<noteq> []"
    then show "\<exists>bs s'. bounded_pull pull area sc n = (Some bs, s') \<and> bs \<noteq> [] \<and> length bs \<le> n \<and>
        take (area - snd sc) (rest (fst sc)) = bs @ take (area - snd s') (rest (fst s')) \<and>
        good (fst s') \<and> area - snd s' \<le> length (rest (fst s'))"
      using bounded_some [of s area c n] g sc by fastforce }
  assume e: "take (area - snd sc) (rest (fst sc)) = []"
  show "\<exists>s'. bounded_pull pull area sc n = (Some [], s') \<and> take (area - snd s') (rest (fst s')) = [] \<and>
      good (fst s') \<and> area - snd s' \<le> length (rest (fst s'))"
  proof (cases "area \<le> c")
    case True
    then show ?thesis using g sc by (intro exI [of _ sc]) (simp add: bounded_pull_def)
  next
    case False
    then have "rest s = []" using e sc by simp
    then show ?thesis using g sc False by simp
  qed
qed

end


context chunk_source
begin

lemma refill_next:
  assumes "dsb_ahead rest good rc crc64 ((x, pl) # bs) d"
  shows "\<exists>d'. dsb_refill crc64 pull d = (True, d') \<and> dsb_ahead rest good rc crc64 bs d' \<and>
    dsb_plain d' = x \<and> dsb_pos d' = 0"
proof -
  obtain s c where sc: "rp_src (dsb_pipe d) = (s, c)" by fastforce
  note a = assms [unfolded dsb_ahead_def Let_def sc fst_conv snd_conv]
  let ?area = "dsb_area d"
  have bytes: "take (?area - c) (rest s) = block_record crc64 x pl @ blocks_bytes crc64 bs"
    using a by (simp add: blocks_bytes_Cons)
  have "take (?area - c) (rest s) \<noteq> []" unfolding bytes by (simp add: block_record_def c32.enc_length flip: length_0_conv)
  then have lt: "\<not> ?area \<le> c" by auto
  have x: "decodable rc x pl" "length x \<le> max_block" "length pl \<le> max_block" "x \<noteq> []" "blocks_ok rc bs"
    using a by (auto simp: blocks_ok_def)
  obtain b r where r: "next_block crc64 (bounded_pull pull ?area) (dsb_pipe d) = (Some b, r)" "b_plain b = x"
    "good (fst (rp_src r))" "?area - snd (rp_src r) \<le> length (rest (fst (rp_src r)))"
    "\<not> rp_failed r" "\<not> rp_eof r" "rp_stages r = read_stages rc"
    "take (?area - snd (rp_src r)) (rest (fst (rp_src r))) = blocks_bytes crc64 bs"
    using chunk_source.next_block_delivers [OF bounded_source, of "dsb_pipe d" ?area rc crc64 x pl "blocks_bytes crc64 bs"]
      a bytes x by (auto simp: sc)
  let ?d = "d\<lparr>dsb_pipe := r, dsb_plain := x, dsb_pos := 0\<rparr>"
  have "dsb_refill crc64 pull d = (True, ?d)"
    using a lt r(1,2) x(4) by (simp add: dsb_refill_def sc)
  moreover have "dsb_ahead rest good rc crc64 bs ?d"
    using r(3-) x(5) a by (simp add: dsb_ahead_def Let_def)
  ultimately show ?thesis by auto
qed

lemma refill_end:
  assumes "dsb_ahead rest good rc crc64 [] d"
  shows "dsb_refill crc64 pull d = (False, d)"
proof -
  obtain s c where sc: "rp_src (dsb_pipe d) = (s, c)" by fastforce
  have "take (dsb_area d - c) (rest s) = []" "dsb_area d - c \<le> length (rest s)" "\<not> dsb_failed d"
    using assms by (auto simp: dsb_ahead_def Let_def sc blocks_bytes_def)
  then have "dsb_area d \<le> c" by auto
  then show ?thesis using \<open>\<not> dsb_failed d\<close> by (simp add: dsb_refill_def sc)
qed

lemma xsgetn_delivers:
  "dsb_ahead rest good rc crc64 bs d \<Longrightarrow>
   \<exists>d' bs'. xsgetn crc64 pull n copied d = (copied @ take (n - length copied) (dsb_remaining bs d), d') \<and>
     dsb_ahead rest good rc crc64 bs' d' \<and>
     dsb_remaining bs' d' = drop (n - length copied) (dsb_remaining bs d)"
proof (induction "n - length copied" arbitrary: copied bs d rule: less_induct)
  case less
  show ?case
  proof (cases "n \<le> length copied")
    case True
    then show ?thesis using less.prems by (subst xsgetn.simps) auto
  next
    case False
    have step: ?thesis
      if d1: "(if length (dsb_plain d) \<le> dsb_pos d then dsb_refill crc64 pull d else (True, d)) = (True, d1)"
        "dsb_ahead rest good rc crc64 bs1 d1" "dsb_remaining bs1 d1 = dsb_remaining bs d"
        "dsb_pos d1 < length (dsb_plain d1)" for d1 bs1
    proof -
      define k where "k = min (length (dsb_plain d1) - dsb_pos d1) (n - length copied)"
      define out where "out = take k (drop (dsb_pos d1) (dsb_plain d1))"
      define d2 where "d2 = d1\<lparr>dsb_pos := dsb_pos d1 + k\<rparr>"
      have k: "0 < k" "k \<le> n - length copied" "length out = k" using d1(4) False by (auto simp: k_def out_def)
      have d2: "dsb_ahead rest good rc crc64 bs1 d2"
        using d1(2,4) by (auto simp: dsb_ahead_def d2_def Let_def k_def)
      have "dsb_remaining bs1 d2 = drop k (drop (dsb_pos d1) (dsb_plain d1)) @ concat (map fst bs1)"
        by (simp add: dsb_remaining_def d2_def add.commute)
      then have "out @ dsb_remaining bs1 d2 = dsb_remaining bs1 d1"
        by (simp only: out_def append.assoc [symmetric] append_take_drop_id dsb_remaining_def)
      then have rem: "out @ dsb_remaining bs1 d2 = dsb_remaining bs d" by (simp only: d1(3))
      have lt: "n - length (copied @ out) < n - length copied" using k by simp
      from less.hyps [OF lt d2] obtain d' bs' where
        "xsgetn crc64 pull n (copied @ out) d2 =
          ((copied @ out) @ take (n - length (copied @ out)) (dsb_remaining bs1 d2), d')"
        "dsb_ahead rest good rc crc64 bs' d'"
        "dsb_remaining bs' d' = drop (n - length (copied @ out)) (dsb_remaining bs1 d2)" by blast
      moreover have "xsgetn crc64 pull n copied d = xsgetn crc64 pull n (copied @ out) d2"
        using False d1(1) by (subst xsgetn.simps) (simp add: Let_def k_def out_def d2_def)
      ultimately show ?thesis using k rem [symmetric] by auto
    qed
    show ?thesis
    proof (cases "length (dsb_plain d) \<le> dsb_pos d")
      case False
      then show ?thesis using step [of d bs] less.prems by simp
    next
      case True
      show ?thesis
      proof (cases bs)
        case Nil
        then have "xsgetn crc64 pull n copied d = (copied, d)"
          using True False refill_end less.prems by (subst xsgetn.simps) simp
        then show ?thesis using less.prems Nil True by (auto simp: dsb_remaining_def)
      next
        case (Cons p bs1)
        obtain x pl where p: "p = (x, pl)" by (cases p)
        obtain d1 where d1: "dsb_refill crc64 pull d = (True, d1)" "dsb_ahead rest good rc crc64 bs1 d1"
          "dsb_plain d1 = x" "dsb_pos d1 = 0"
          using refill_next less.prems Cons p by blast
        have "x \<noteq> []" using less.prems Cons p by (auto simp: dsb_ahead_def blocks_ok_def Let_def split: prod.splits)
        then show ?thesis using step [of d1 bs1] d1 True Cons p by (simp add: dsb_remaining_def)
      qed
    qed
  qed
qed

lemma read_loop_delivers:
  assumes "dsb_ahead rest good rc crc64 bs (fr_dsb r)" and "fr_eof r \<longrightarrow> dsb_remaining bs (fr_dsb r) = []"
  shows "\<exists>r'. fs_read_loop crc64 pull out r = Some (out @ dsb_remaining bs (fr_dsb r), r') \<and> \<not> checksum_failed r'"
  using assms
proof (induction "length (dsb_remaining bs (fr_dsb r))" arbitrary: bs r out rule: less_induct)
  case less
  let ?rem = "dsb_remaining bs (fr_dsb r)"
  show ?case
  proof (cases "fr_eof r")
    case True
    then show ?thesis using less.prems
      by (subst fs_read_loop.simps) (auto simp: fs_read_def checksum_failed_def dsb_ahead_def Let_def split: prod.splits)
  next
    case False
    obtain d' bs' where d': "xsgetn crc64 pull 8192 [] (fr_dsb r) = (take 8192 ?rem, d')"
      "dsb_ahead rest good rc crc64 bs' d'" "dsb_remaining bs' d' = drop 8192 ?rem"
      using xsgetn_delivers [OF less.prems(1), of 8192 "[]"] by auto
    let ?r = "\<lparr>fr_dsb = d', fr_eof = length (take 8192 ?rem) < 8192\<rparr> :: 's fly_reader"
    have rd: "fs_read crc64 pull 8192 r = (take 8192 ?rem, ?r)" using False d'(1) by (simp add: fs_read_def)
    show ?thesis
    proof (cases "?rem = []")
      case True
      then have "fs_read_loop crc64 pull out r = Some (out, ?r)"
        by (subst fs_read_loop.simps) (simp add: rd)
      moreover have "\<not> checksum_failed ?r" using d'(2) by (auto simp: checksum_failed_def dsb_ahead_def Let_def split: prod.splits)
      ultimately show ?thesis using True by simp
    next
      case nonempty: False
      have "length (dsb_remaining bs' (fr_dsb ?r)) < length ?rem" "fr_eof ?r \<longrightarrow> dsb_remaining bs' (fr_dsb ?r) = []"
        using nonempty d'(3) by auto
      from less.hyps [OF this(1) _ this(2), of "out @ take 8192 ?rem"] d'(2) obtain r' where
        "fs_read_loop crc64 pull (out @ take 8192 ?rem) ?r = Some ((out @ take 8192 ?rem) @ dsb_remaining bs' d', r')"
        "\<not> checksum_failed r'" by auto
      moreover have "fs_read_loop crc64 pull out r = fs_read_loop crc64 pull (out @ take 8192 ?rem) ?r"
        using nonempty by (subst fs_read_loop.simps) (simp add: rd)
      ultimately show ?thesis using d'(3) by simp
    qed
  qed
qed

end


section \<open>A written record is read back\<close>

fun fs_write_all :: "crc_fun \<Rightarrow> fly_writer \<Rightarrow> bytes list \<Rightarrow> fly_writer option" where
  "fs_write_all crc64 w [] = Some w"
| "fs_write_all crc64 w (d # ds) = (case fs_write crc64 w d of None \<Rightarrow> None | Some w' \<Rightarrow> fs_write_all crc64 w' ds)"

lemma fs_write_all_pipe:
  "fs_write_all crc64 w ds = map_option (\<lambda>p. w\<lparr>fw_pipe := p\<rparr>) (wp_write_all crc64 (fw_pipe w) ds)"
  by (induction ds arbitrary: w) (auto simp: fs_write_def option.map_comp comp_def split: option.split)

lemma scan_blocks_ok:
  assumes "\<forall>(x, pl) \<in> set bs. length pl \<le> max_block"
    and "area = length pre + length (blocks_bytes crc64 bs)"
  shows "scan_blocks (pre @ blocks_bytes crc64 bs @ suf) area (map (\<lambda>(x, pl). word_of_nat (length pl)) bs) (length pre) = Inr area"
  using assms
proof (induction bs arbitrary: pre)
  case Nil
  then show ?case by (simp add: blocks_bytes_def)
next
  case (Cons p bs)
  obtain x pl where p: "p = (x, pl)" by (cases p)
  let ?rec = "block_record crc64 x pl" and ?d = "pre @ blocks_bytes crc64 (p # bs) @ suf"
  have l: "length pl \<le> max_block" "unat (word_of_nat (length pl) :: 32 word) = length pl"
    using Cons.prems(1) p by (simp_all add: unat_size32)
  have d: "?d = (pre @ ?rec) @ blocks_bytes crc64 bs @ suf" by (simp add: p blocks_bytes_Cons)
  have "bytes_at (length pre + 4) 4 ?d = le32 (word_of_nat (length pl))"
    using bytes_at_append [of pre 4 4 "?rec @ blocks_bytes crc64 bs @ suf"]
    by (simp add: p blocks_bytes_Cons block_record_def bytes_at_def c32.enc_length)
  then have c: "rd_le32 (bytes_at (length pre + 4) 4 ?d) = word_of_nat (length pl)" by (simp add: c32.dec_enc)
  have s: "\<not> sint (word_of_nat (length pl) :: 32 word) < 0"
    using l(1) as_int_small [of "length pl"] by (simp add: as_int_def)
  have a: "area = length (pre @ ?rec) + length (blocks_bytes crc64 bs)"
    using Cons.prems(2) by (simp add: p blocks_bytes_Cons)
  have r: "length ?rec = 16 + length pl" by (rule block_record_fields)
  have "scan_blocks ?d area (map (\<lambda>(x, pl). word_of_nat (length pl)) (p # bs)) (length pre) =
      scan_blocks ?d area (map (\<lambda>(x, pl). word_of_nat (length pl)) bs) (length (pre @ ?rec))"
    using a r by (simp add: p c [unfolded p] s l(2) Let_def)
  also have "\<dots> = Inr area" unfolding d by (rule Cons.IH) (use Cons.prems(1) a in simp_all)
  finally show ?case .
qed

text \<open>The compression library does not run out of memory: no block of the reader's size fails.\<close>

definition compress_succeeds :: "codec_libs \<Rightarrow> compression_type \<Rightarrow> bool" where
  "compress_succeeds L ty \<longleftrightarrow>
     (\<forall>x. x \<noteq> [] \<longrightarrow> length x \<le> max_block \<longrightarrow>
        compressed_size (c_compress (create_compressor L ty (- 1)) x) \<noteq> 0)"

definition stream_codec :: "codec_libs \<Rightarrow> compression_type \<Rightarrow> compressor option" where
  "stream_codec L ty = (if ty \<noteq> NONE then Some (create_compressor L ty (- 1)) else None)"

lemma stream_codec_opt: "libs_ok L \<Longrightarrow> codec_opt (stream_codec L ty)"
  by (simp add: codec_opt_def stream_codec_def created_codec)

lemma payload_decodable:
  assumes L: "libs_ok L" "compress_succeeds L ty" and x: "x \<noteq> []" "length x \<le> max_block"
    and raw: "\<lbrakk>ty \<noteq> NONE; eff = NONE\<rbrakk> \<Longrightarrow> b_raw (coded (stream_codec L ty) 85 thr l x)"
    and eff: "eff = ty \<or> eff = NONE"
  shows "decodable (stream_codec L eff) x (payload (stream_codec L ty) 85 thr l x) \<and>
    length (payload (stream_codec L ty) 85 thr l x) \<le> max_block"
proof -
  have pct: "(85 :: int) \<le> 100" by simp
  show ?thesis
    using stream_codec_opt [OF L(1)] x(2) pct
  proof (cases rule: coded_cases [where cmp = "stream_codec L ty" and pct = 85 and x = x and thr = thr and last_blk = l])
    case raw
    then show ?thesis using x(2) by (simp add: decodable_def split: option.split)
  next
    case (packed c)
    then have ty: "ty \<noteq> NONE" "c = create_compressor L ty (- 1)" by (auto simp: stream_codec_def split: if_splits)
    then have "eff = ty" using raw eff packed(2) by blast
    moreover have "c_decompress_to c (chunk_data (c_compress c x)) (length x) = Some x"
      using block_codec.decodes [OF created_codec [OF L(1)] x] L(2) x ty(2) by (simp add: compress_succeeds_def)
    ultimately show ?thesis using packed ty x(2) by (simp add: decodable_def stream_codec_def)
  qed
qed

text \<open>A pipeline that has sent chunks of legal size, and the record it ends in.\<close>

definition chunks_ok :: "(bytes \<times> bool) list \<Rightarrow> bool" where
  "chunks_ok cs \<longleftrightarrow> length cs < 2 ^ 30 \<and> (\<forall>(x, l) \<in> set cs. x \<noteq> [] \<and> length x \<le> max_block)"

definition sent_blocks :: "codec_libs \<Rightarrow> compression_type \<Rightarrow> int \<Rightarrow> (bytes \<times> bool) list \<Rightarrow> (bytes \<times> bytes) list" where
  "sent_blocks L ty thr cs = map (\<lambda>(x, l). (x, payload (stream_codec L ty) 85 thr l x)) cs"

lemma marked_chunks_ok: "\<lbrakk>length (chop n d) < 2 ^ 30; n \<le> max_block\<rbrakk> \<Longrightarrow> chunks_ok (marked n d)"
  using chop_sizes by (fastforce simp: chunks_ok_def marked_def)

lemma concat_marked: "0 < n \<Longrightarrow> concat (map fst (marked n d)) = d"
  by (simp add: marked_def comp_def concat_chop)

lemma sent_counts:
  assumes sent: "pipe_sent crc64 (stream_codec L ty) 85 thr cs p" and chunks: "chunks_ok cs"
  shows "wp_chunk_count p > 0 \<and> wp_all_raw p \<longleftrightarrow>
    cs \<noteq> [] \<and> (\<forall>(x, l) \<in> set cs. b_raw (coded (stream_codec L ty) 85 thr l x))"
proof -
  let ?raw = "\<lambda>(x, l). b_raw (coded (stream_codec L ty) 85 thr l x)"
  have n: "length cs < 2 ^ 31" "length (filter ?raw cs) < 2 ^ 31"
    using chunks le_less_trans [OF length_filter_le [of ?raw cs], of "2 ^ 31"] by (simp_all add: chunks_ok_def)
  then have "wp_chunk_count p > 0 \<longleftrightarrow> cs \<noteq> []"
    using sent by (simp add: pipe_sent_def word_less_nat_alt unat_size32)
  moreover have "wp_raw_blocks p = wp_chunk_count p \<longleftrightarrow> length (filter ?raw cs) = length cs"
    using sent n by (simp add: pipe_sent_def word_unat_eq_iff unat_size32)
  ultimately show ?thesis by (simp add: wp_all_raw_def length_filter_eq)
qed


lemma source_of_record:
  assumes L: "libs_ok L" "compress_succeeds L ty"
    and sent: "pipe_sent crc64 (stream_codec L ty) 85 thr cs (fw_pipe w)" "fw_comp_type w = ty"
    and cs: "chunks_ok cs" and nm: "length (fw_py_name w) < 2 ^ 16"
  defines "blks \<equiv> concat (wp_emitted (fw_pipe w))" and "eff \<equiv> effective_compression_type w"
  shows "blks = blocks_bytes crc64 (sent_blocks L ty thr cs)"
    and "blocks_ok (stream_codec L eff) (sent_blocks L ty thr cs)"
    and "new_memory_source crc64 (blks @ serialize_trailer crc64 (stream_header w)) =
      \<lparr>ms_data = blks @ serialize_trailer crc64 (stream_header w), ms_pos = 0, ms_area = length blks,
       ms_py_name = fw_py_name w, ms_total = word_of_nat (length (concat (map fst cs))),
       ms_chunk_count = word_of_nat (length cs), ms_comp = eff, ms_failed = False, ms_detail = []\<rparr>"
proof -
  let ?h = "stream_header w" and ?bs = "sent_blocks L ty thr cs"
  have eff: "eff = ty \<or> eff = NONE" using sent(2) by (simp add: eff_def effective_compression_type_def)
  have raw: "\<forall>(x, l) \<in> set cs. b_raw (coded (stream_codec L ty) 85 thr l x)" if "ty \<noteq> NONE" "eff = NONE"
    using that sent_counts [OF sent(1) cs] sent(2) by (auto simp: eff_def effective_compression_type_def split: if_splits)
  have dec: "decodable (stream_codec L eff) x (payload (stream_codec L ty) 85 thr l x) \<and>
      length (payload (stream_codec L ty) 85 thr l x) \<le> max_block" if "(x, l) \<in> set cs" for x l
    using payload_decodable [OF L, of x eff thr l] raw eff cs that by (auto simp: chunks_ok_def)
  show blks: "blks = blocks_bytes crc64 ?bs"
    using sent(1) by (simp add: blks_def pipe_sent_def blocks_bytes_def sent_blocks_def comp_def case_prod_unfold)
  show ok: "blocks_ok (stream_codec L eff) ?bs"
    using dec cs by (auto simp: blocks_ok_def sent_blocks_def chunks_ok_def)
  have lens: "oh_block_comp_lens ?h = map (\<lambda>(x, pl). word_of_nat (length pl)) ?bs"
    using sent(1) by (simp add: stream_header_def pipe_sent_def sent_blocks_def comp_def case_prod_unfold)
  have n: "length ?bs = length cs" "length cs < 2 ^ 30" using cs by (simp_all add: sent_blocks_def chunks_ok_def)
  have count: "unat (oh_chunk_count ?h) = length (oh_block_comp_lens ?h)"
    using sent(1) n lens by (simp add: stream_header_def pipe_sent_def unat_size32)
  have t: "deserialize_trailer crc64 (blks @ serialize_trailer crc64 ?h) = Some (?h, length (serialize_trailer crc64 ?h))"
    by (rule trailer_parse_serialized)
       (use n nm count lens in \<open>simp_all add: header_ok_def is_valid_header_def stream_header_def unat_name_len\<close>)
  have ne: "serialize_trailer crc64 ?h \<noteq> []"
    by (simp add: serialize_trailer_def Let_def c64.enc_length flip: length_0_conv)
  have "scan_blocks ([] @ blocks_bytes crc64 ?bs @ serialize_trailer crc64 ?h) (length blks)
      (map (\<lambda>(x, pl). word_of_nat (length pl)) ?bs) (length ([] :: bytes)) = Inr (length blks)"
    by (rule scan_blocks_ok) (use ok in \<open>auto simp: blocks_ok_def blks\<close>)
  then have scan: "scan_blocks (blks @ serialize_trailer crc64 ?h) (length blks) (oh_block_comp_lens ?h) 0 = Inr (length blks)"
    by (simp add: lens flip: blks)
  have fields: "oh_total_size ?h = word_of_nat (length (concat (map fst cs)))"
    "oh_chunk_count ?h = word_of_nat (length cs)" "oh_py_name ?h = fw_py_name w" "oh_compression ?h = eff"
    using sent(1) by (simp_all add: pipe_sent_def stream_header_def eff_def)
  then show "new_memory_source crc64 (blks @ serialize_trailer crc64 ?h) =
      \<lparr>ms_data = blks @ serialize_trailer crc64 ?h, ms_pos = 0, ms_area = length blks,
       ms_py_name = fw_py_name w, ms_total = word_of_nat (length (concat (map fst cs))),
       ms_chunk_count = word_of_nat (length cs), ms_comp = eff, ms_failed = False, ms_detail = []\<rparr>"
    using ne count scan by (simp add: new_memory_source_def parse_trailer_def t Let_def)
qed

lemma make_read_stages: "rp_stages (make_block_read_pipeline L ty s) = read_stages (stream_codec L ty)"
  by (simp add: make_block_read_pipeline_def new_read_pipeline_def read_stages_def stream_codec_def)

text \<open>A reader opened on a good source whose bytes start with the blocks.\<close>

lemma new_dsb_ahead:
  assumes "good s" and "rest s = blocks_bytes crc64 bs @ suf" and "blocks_ok (stream_codec L ty) bs"
    and "area = length (blocks_bytes crc64 bs)"
  shows "dsb_ahead rest good (stream_codec L ty) crc64 bs (new_dsb L ty False area s)"
  using assms make_read_stages [of L ty "(s, 0)"]
  by (simp add: dsb_ahead_def new_dsb_def Let_def make_block_read_pipeline_def new_read_pipeline_def)

lemma new_dsb_remaining: "dsb_remaining bs (new_dsb L ty f area s) = concat (map fst bs)"
  by (simp add: dsb_remaining_def new_dsb_def)

lemma map_fst_sent_blocks: "map fst (sent_blocks L ty thr cs) = map fst cs"
  by (simp add: sent_blocks_def comp_def case_prod_unfold)

lemma record_read_back:
  assumes "libs_ok L" "compress_succeeds L ty"
    and "pipe_sent crc64 (stream_codec L ty) 85 thr cs (fw_pipe w)" "fw_comp_type w = ty"
    and "chunks_ok cs" and "length (fw_py_name w) < 2 ^ 16"
  defines "rcd \<equiv> concat (wp_emitted (fw_pipe w)) @ serialize_trailer crc64 (stream_header w)"
  shows "\<exists>r. fs_read_all crc64 memory_pull (open_reader L crc64 rcd) = Some (concat (map fst cs), r) \<and> \<not> checksum_failed r"
proof -
  note s = source_of_record [OF assms(1-6)]
  let ?s = "new_memory_source crc64 rcd" and ?bs = "sent_blocks L ty thr cs"
  have "dsb_ahead (\<lambda>s. drop (ms_pos s) (take (ms_area s) (ms_data s)))
      (\<lambda>s. \<not> ms_failed s \<and> ms_area s \<le> length (ms_data s)) (stream_codec L (ms_comp ?s)) crc64 ?bs
      (new_dsb L (ms_comp ?s) False (ms_area ?s) ?s)"
    by (rule new_dsb_ahead [where suf = "[]"]) (use s in \<open>simp_all add: rcd_def\<close>)
  then have "dsb_ahead (\<lambda>s. drop (ms_pos s) (take (ms_area s) (ms_data s)))
      (\<lambda>s. \<not> ms_failed s \<and> ms_area s \<le> length (ms_data s)) (stream_codec L (ms_comp ?s)) crc64 ?bs
      (fr_dsb (open_reader L crc64 rcd))"
    using s(3) by (simp add: open_reader_def Let_def rcd_def)
  from mem_src.read_loop_delivers [OF this, where out = "[]"] show ?thesis
    by (simp add: fs_read_all_def open_reader_def Let_def new_dsb_remaining map_fst_sent_blocks)
qed


section \<open>Properties\<close>

lemma open_writer_pipe:
  "fw_pipe (open_writer L ty n nm thr) = make_file_write_pipeline (stream_codec L ty) n 85 thr"
  "fw_comp_type (open_writer L ty n nm thr) = ty" "fw_py_name (open_writer L ty n nm thr) = nm"
  by (simp_all add: open_writer_def stream_codec_def created_type)

lemma written_stream:
  assumes "libs_ok L" and "0 < n" "n \<le> max_block"
  obtains w where "fs_write_all crc64 (open_writer L ty n nm thr) ds = Some w"
    "pipe_sent crc64 (stream_codec L ty) 85 thr (marked n (concat ds)) (fw_pipe (fs_flush crc64 w))"
    "fw_comp_type (fs_flush crc64 w) = ty" "fw_py_name (fs_flush crc64 w) = nm"
proof -
  have "\<exists>p. wp_write_all crc64 (make_file_write_pipeline (stream_codec L ty) n 85 thr) ds = Some p \<and>
      pipe_sent crc64 (stream_codec L ty) 85 thr (marked n (concat ds)) (wp_finish crc64 p)"
    by (rule write_pipeline_result [OF stream_codec_opt [OF assms(1)] _ assms(3,2)]) simp
  then show thesis using that
    by (auto simp: fs_write_all_pipe open_writer_pipe fs_flush_def)
qed

text \<open>
  C15: What is written to an object stream is what is read back.  For every compression type, every
  chunk size from 1 byte to 64 MiB, every threshold and every way of cutting the object into write
  calls, the record that \<open>finish_write\<close> returns is read by \<open>read_all\<close> as exactly the written bytes,
  without a checksum failure, provided the libraries decompress what they compressed and no
  compression fails.  The bounds are those of the record format (fewer than \<open>2 ^ 30\<close> blocks, a name
  shorter than \<open>2 ^ 16\<close> bytes).
\<close>

theorem object_stream_roundtrip:
  assumes "libs_ok L" and "compress_succeeds L ty" and "0 < n" "n \<le> max_block"
    and "length (chop n (concat ds)) < 2 ^ 30" and "length nm < 2 ^ 16"
  shows "\<exists>w r. fs_write_all crc64 (open_writer L ty n nm thr) ds = Some w \<and>
    fs_read_all crc64 memory_pull (open_reader L crc64 (finish_write crc64 w)) = Some (concat ds, r) \<and>
    \<not> checksum_failed r"
proof -
  obtain w where w: "fs_write_all crc64 (open_writer L ty n nm thr) ds = Some w"
    "pipe_sent crc64 (stream_codec L ty) 85 thr (marked n (concat ds)) (fw_pipe (fs_flush crc64 w))"
    "fw_comp_type (fs_flush crc64 w) = ty" "fw_py_name (fs_flush crc64 w) = nm"
    using written_stream [OF assms(1,3,4)] by blast
  have "\<exists>r. fs_read_all crc64 memory_pull (open_reader L crc64 (finish_write crc64 w)) =
      Some (concat (map fst (marked n (concat ds))), r) \<and> \<not> checksum_failed r"
    unfolding finish_write_def Let_def
    by (rule record_read_back [OF assms(1,2) w(2,3) marked_chunks_ok [OF assms(5,4)]])
       (use w(4) assms(6) in simp)
  then show ?thesis using w(1) by (simp add: concat_marked assms(3))
qed

text \<open>Libraries for the examples: a one-byte header in front of the data.\<close>

definition demo_libs :: codec_libs where
  "demo_libs = \<lparr>LZ4_compressBound = (\<lambda>n. n + 1),
     LZ4_compress_default = (\<lambda>src n cap. Some (7 # src)),
     LZ4_decompress_safe = (\<lambda>d n cap. Some (tl d)),
     zlib_compressBound = (\<lambda>n. n + 1),
     zlib_compress2 = (\<lambda>src n cap level. Some (7 # src)),
     zlib_uncompress = (\<lambda>d n cap. Some (tl d)),
     ZSTD_compressBound = (\<lambda>n. n + 1),
     ZSTD_compress = (\<lambda>src n cap level. Some (7 # src)),
     ZSTD_decompress = (\<lambda>d n cap. Some (tl d))\<rparr>"

lemma demo_libs_ok: "libs_ok demo_libs"
  by (simp add: libs_ok_def demo_libs_def)

lemma demo_libs_succeed: "compress_succeeds demo_libs ZSTD"
proof -
  have "word_of_nat (Suc (length x)) \<noteq> (0 :: 32 word)" if "length x \<le> max_block" for x :: bytes
  proof
    assume "word_of_nat (Suc (length x)) = (0 :: 32 word)"
    then have "unat (word_of_nat (Suc (length x)) :: 32 word) = 0" by simp
    moreover have "unat (word_of_nat (Suc (length x)) :: 32 word) = Suc (length x)"
      by (rule unat_size32) (use that in simp)
    ultimately show False by simp
  qed
  then show ?thesis
    by (simp add: compress_succeeds_def create_compressor_def zstd_compressor_def zstd_compress_def demo_libs_def)
qed

theorem object_stream_roundtrip_witness:
  "\<exists>w r. fs_write_all demo_crc (open_writer demo_libs ZSTD 4 [97] 0) [[1, 2, 3], [4, 5]] = Some w \<and>
     fs_read_all demo_crc memory_pull (open_reader demo_libs demo_crc (finish_write demo_crc w)) =
       Some ([1, 2, 3, 4, 5], r) \<and> \<not> checksum_failed r"
  using object_stream_roundtrip [of demo_libs ZSTD 4 "[[1, 2, 3], [4, 5]]" "[97]" demo_crc 0]
    length_chop_le [of 4 "[1, 2, 3, 4, 5 :: byte]"] demo_libs_ok demo_libs_succeed by simp


text \<open>
  C16: The record does not depend on how the object was cut into write calls: two sequences of writes
  with the same bytes end in the same record, with the same blocks, counts and checksums.
\<close>

theorem record_ignores_write_cuts:
  assumes "libs_ok L" and "0 < n" "n \<le> max_block" and "concat ds = concat ds'"
  shows "\<exists>w w'. fs_write_all crc64 (open_writer L ty n nm thr) ds = Some w \<and>
    fs_write_all crc64 (open_writer L ty n nm thr) ds' = Some w' \<and>
    finish_write crc64 w = finish_write crc64 w'"
proof -
  obtain w where w: "fs_write_all crc64 (open_writer L ty n nm thr) ds = Some w"
    "pipe_sent crc64 (stream_codec L ty) 85 thr (marked n (concat ds)) (fw_pipe (fs_flush crc64 w))"
    "fw_comp_type (fs_flush crc64 w) = ty" "fw_py_name (fs_flush crc64 w) = nm"
    using written_stream [OF assms(1-3)] by blast
  obtain w' where w': "fs_write_all crc64 (open_writer L ty n nm thr) ds' = Some w'"
    "pipe_sent crc64 (stream_codec L ty) 85 thr (marked n (concat ds)) (fw_pipe (fs_flush crc64 w'))"
    "fw_comp_type (fs_flush crc64 w') = ty" "fw_py_name (fs_flush crc64 w') = nm"
    using written_stream [OF assms(1-3), where ds = ds'] assms(4) by metis
  have "finish_write crc64 w = finish_write crc64 w'"
    using w(2-) w'(2-)
    by (simp add: finish_write_def Let_def stream_header_def effective_compression_type_def pipe_sent_def wp_all_raw_def)
  then show ?thesis using w(1) w'(1) by blast
qed

theorem record_ignores_write_cuts_witness:
  "\<exists>w w'. fs_write_all demo_crc (open_writer demo_libs ZSTD 4 [97] 0) [[1, 2, 3], [4, 5]] = Some w \<and>
    fs_write_all demo_crc (open_writer demo_libs ZSTD 4 [97] 0) [[1], [2, 3, 4, 5], []] = Some w' \<and>
    finish_write demo_crc w = finish_write demo_crc w'"
  by (rule record_ignores_write_cuts) (simp_all add: demo_libs_ok)

text \<open>The record is determined by the length, the payload and the raw flag of each block.\<close>

lemma list_all2_map_eq: "list_all2 R xs ys \<Longrightarrow> (\<And>x y. R x y \<Longrightarrow> f x = f y) \<Longrightarrow> map f xs = map f ys"
  by (induction rule: list_all2_induct) simp_all

lemma sent_same_record:
  assumes same: "list_all2 (\<lambda>x y. length x = length y \<and>
        payload cmp pct thr (length x < n) x = payload cmp pct thr (length y < n) y \<and>
        b_raw (coded cmp pct thr (length x < n) x) = b_raw (coded cmp pct thr (length y < n) y)) (chop n d) (chop n d')"
    and "pipe_sent crc64 cmp pct thr (marked n d) (fw_pipe (fs_flush crc64 w))"
    and "pipe_sent crc64 cmp pct thr (marked n d') (fw_pipe (fs_flush crc64 w'))"
    and "fw_comp_type (fs_flush crc64 w) = fw_comp_type (fs_flush crc64 w')"
    and "fw_py_name (fs_flush crc64 w) = fw_py_name (fs_flush crc64 w')"
  shows "finish_write crc64 w = finish_write crc64 w'"
proof -
  let ?p = "fw_pipe (fs_flush crc64 w)" and ?q = "fw_pipe (fs_flush crc64 w')"
  have len: "length (chop n d) = length (chop n d')" using same by (rule list_all2_lengthD)
  have recs: "map (\<lambda>x. chunk_rec crc64 cmp pct thr (length x < n) x) (chop n d) =
      map (\<lambda>x. chunk_rec crc64 cmp pct thr (length x < n) x) (chop n d')"
    by (rule list_all2_map_eq [OF same], elim conjE) (simp add: block_record_def)
  have lens: "map (\<lambda>x. word_of_nat (length (payload cmp pct thr (length x < n) x)) :: 32 word) (chop n d) =
      map (\<lambda>x. word_of_nat (length (payload cmp pct thr (length x < n) x))) (chop n d')"
    by (rule list_all2_map_eq [OF same], elim conjE) simp
  have sizes: "map length (chop n d) = map length (chop n d')" by (rule list_all2_map_eq [OF same], elim conjE) simp
  have raws: "map (\<lambda>x. b_raw (coded cmp pct thr (length x < n) x)) (chop n d) =
      map (\<lambda>x. b_raw (coded cmp pct thr (length x < n) x)) (chop n d')"
    by (rule list_all2_map_eq [OF same], elim conjE) simp
  have count: "length (filter P xs) = length (filter id (map P xs))" for P and xs :: "bytes list"
    by (induction xs) simp_all
  have "concat (wp_emitted ?p) = concat (wp_emitted ?q)"
    using assms(2,3) recs by (simp add: pipe_sent_def marked_def comp_def)
  moreover have "wp_comp_lens ?p = wp_comp_lens ?q"
    using assms(2,3) lens by (simp add: pipe_sent_def marked_def comp_def)
  moreover have "wp_total ?p = wp_total ?q"
    using assms(2,3) sizes by (simp add: pipe_sent_def marked_def comp_def length_concat)
  moreover have "wp_chunk_count ?p = wp_chunk_count ?q" using assms(2,3) len by (simp add: pipe_sent_def marked_def)
  moreover have "length (filter (\<lambda>x. b_raw (coded cmp pct thr (length x < n) x)) (chop n d)) =
      length (filter (\<lambda>x. b_raw (coded cmp pct thr (length x < n) x)) (chop n d'))"
    unfolding count raws ..
  then have "wp_raw_blocks ?p = wp_raw_blocks ?q"
    using assms(2,3) by (simp add: pipe_sent_def marked_def filter_map comp_def)
  ultimately show ?thesis
    using assms(4,5)
    by (simp add: finish_write_def Let_def stream_header_def effective_compression_type_def wp_all_raw_def)
qed

text \<open>The library call behind a compressor of the stream reports an error for the block.\<close>

definition compress_fails :: "codec_libs \<Rightarrow> compression_type \<Rightarrow> bytes \<Rightarrow> bool" where
  "compress_fails L ty x \<longleftrightarrow>
     (case ty of
        NONE \<Rightarrow> False
      | LZ4 \<Rightarrow> LZ4_compress_default L x (as_int (length x)) (LZ4_compressBound L (as_int (length x))) = None
      | ZLIB \<Rightarrow> zlib_compress2 L x (length x) (zlib_compressBound L (length x)) 6 = None
      | ZSTD \<Rightarrow> ZSTD_compress L x (length x) (ZSTD_compressBound L (length x)) 3 = None)"

text \<open>The small last block that the stream stores without compressing it.\<close>

definition small_tail :: "nat \<Rightarrow> int \<Rightarrow> bytes \<Rightarrow> bool" where
  "small_tail n thr x \<longleftrightarrow> length x < n \<and> int (length x) \<le> thr"

lemma compress_fails_coded:
  assumes "compress_fails L ty x" and "x \<noteq> []" "length x \<le> max_block" and "\<not> small_tail n thr x"
  shows "b_encoded (coded (stream_codec L ty) 85 thr (length x < n) x) = []"
    and "\<not> b_raw (coded (stream_codec L ty) 85 thr (length x < n) x)"
proof -
  have e: "c_compress (create_compressor L ty (- 1)) x = empty_chunk" and ty: "ty \<noteq> NONE"
    using assms(1,2)
    by (cases ty; simp add: compress_fails_def create_compressor_def lz4_compressor_def zlib_compressor_def
        zstd_compressor_def lz4_compress_def zlib_compress_def zstd_compress_def Let_def)+
  have u: "unat (word_of_nat (length x) :: 32 word) = length x" using assms(3) by (simp add: unat_size32)
  then have "0 < length x" "uint (word_of_nat (length x) :: 32 word) = int (length x)"
    using assms(2) arg_cong [OF u, of int] by simp_all
  then show "b_encoded (coded (stream_codec L ty) 85 thr (length x < n) x) = []"
    "\<not> b_raw (coded (stream_codec L ty) 85 thr (length x < n) x)"
    using u assms(4) ty by (auto simp: coded_def stream_codec_def compress_stage_def e empty_chunk_def small_tail_def Let_def)
qed

text \<open>
  C17: A compression that fails destroys the block silently.  Each compressor reports failure with an
  empty chunk of size 0, and the compress stage only checks for a negative size, so it takes the empty
  chunk for a very good compression.  For every compression type, block size, threshold and cutting
  into writes: two objects that have the same blocks except for blocks of equal length on which the
  library call fails are written as the same record, so nothing of the content of such a block is in
  it.  Excepted is only the last block when it is not full and at most the threshold long, because
  it is stored without compression.
\<close>

theorem failed_compression_loses_data:
  assumes "libs_ok L" and "0 < n" and "n \<le> max_block"
    and "list_all2 (\<lambda>x y. x = y \<or> length x = length y \<and> compress_fails L ty x \<and> compress_fails L ty y \<and> \<not> small_tail n thr x)
      (chop n (concat ds)) (chop n (concat ds'))"
  shows "\<exists>w w'. fs_write_all crc64 (open_writer L ty n nm thr) ds = Some w \<and>
    fs_write_all crc64 (open_writer L ty n nm thr) ds' = Some w' \<and>
    finish_write crc64 w = finish_write crc64 w'"
proof -
  let ?c = "stream_codec L ty" and ?xs = "chop n (concat ds)" and ?ys = "chop n (concat ds')"
  obtain w where w: "fs_write_all crc64 (open_writer L ty n nm thr) ds = Some w"
    "pipe_sent crc64 ?c 85 thr (marked n (concat ds)) (fw_pipe (fs_flush crc64 w))"
    "fw_comp_type (fs_flush crc64 w) = ty" "fw_py_name (fs_flush crc64 w) = nm"
    using written_stream [OF assms(1-3)] by blast
  obtain w' where w': "fs_write_all crc64 (open_writer L ty n nm thr) ds' = Some w'"
    "pipe_sent crc64 ?c 85 thr (marked n (concat ds')) (fw_pipe (fs_flush crc64 w'))"
    "fw_comp_type (fs_flush crc64 w') = ty" "fw_py_name (fs_flush crc64 w') = nm"
    using written_stream [OF assms(1-3)] by blast
  have blk: "length x = length y \<and> b_encoded (coded ?c 85 thr (length x < n) x) = b_encoded (coded ?c 85 thr (length y < n) y) \<and>
      b_raw (coded ?c 85 thr (length x < n) x) = b_raw (coded ?c 85 thr (length y < n) y)"
    if "x \<in> set ?xs" "y \<in> set ?ys"
      "x = y \<or> length x = length y \<and> compress_fails L ty x \<and> compress_fails L ty y \<and> \<not> small_tail n thr x" for x y
  proof (cases "x = y")
    case False
    then have f: "length x = length y" "compress_fails L ty x" "compress_fails L ty y" "\<not> small_tail n thr x" "\<not> small_tail n thr y"
      using that(3) by (auto simp: small_tail_def)
    have "x \<noteq> []" "length x \<le> max_block" "y \<noteq> []" "length y \<le> max_block"
      using chop_sizes [OF that(1)] chop_sizes [OF that(2)] assms(3) by auto
    then show ?thesis using f compress_fails_coded [of L ty x n thr] compress_fails_coded [of L ty y n thr] by simp
  qed simp
  have "list_all2 (\<lambda>x y. length x = length y \<and> payload ?c 85 thr (length x < n) x = payload ?c 85 thr (length y < n) y \<and>
      b_raw (coded ?c 85 thr (length x < n) x) = b_raw (coded ?c 85 thr (length y < n) y)) ?xs ?ys"
    using assms(4) by (rule list.rel_mono_strong) (use blk in blast)
  then have "finish_write crc64 w = finish_write crc64 w'"
    by (rule sent_same_record) (use w(2-) w'(2-) in simp_all)
  then show ?thesis using w(1) w'(1) by blast
qed

theorem failed_compression_loses_data_witness:
  "let L = demo_libs\<lparr>ZSTD_compress := \<lambda>_ _ _ _. None\<rparr>
   in \<exists>w w'. fs_write_all demo_crc (open_writer L ZSTD 4 [97] 4096) [[1, 2, 3, 4, 5]] = Some w \<and>
    fs_write_all demo_crc (open_writer L ZSTD 4 [97] 4096) [[6, 7], [8, 9, 5]] = Some w' \<and>
    finish_write demo_crc w = finish_write demo_crc w'"
proof -
  let ?L = "demo_libs\<lparr>ZSTD_compress := \<lambda>_ _ _ _. None\<rparr>"
  have "libs_ok ?L" using demo_libs_ok by (simp add: libs_ok_def)
  moreover have "chop 4 [1, 2, 3, 4, 5 :: byte] = [[1, 2, 3, 4], [5]]" "chop 4 [6, 7, 8, 9, 5 :: byte] = [[6, 7, 8, 9], [5]]"
    by (simp_all add: chop.simps [of _ "_ # _"])
  ultimately show ?thesis
    using failed_compression_loses_data [of ?L 4 ZSTD 4096 "[[1, 2, 3, 4, 5]]" "[[6, 7], [8, 9, 5]]" demo_crc "[97]"]
    by (simp add: compress_fails_def small_tail_def Let_def)
qed




end
