(* ===== verification/Local_Index.thy ===== *)
theory Local_Index
  imports Compressors
begin

text \<open>
  The index log of src/storage/cpp/local_index.h and local_index.cpp with the entries of index_entry.h.
  The file behind \<open>idx_path_\<close> is the field \<open>li_file\<close> (\<open>None\<close> when it does not exist).  The log format
  is modelled byte by byte; the bitsery encoding of record bodies is the parameter \<open>idx_codec\<close>, whose
  decoders return \<open>None\<close> where the code catches an exception.  Whether opening the append stream
  succeeds is an argument of the operations that append.  Every method holds the mutex or runs on
  the single write-back thread, so operations are atomic.
\<close>

section \<open>Model\<close>

record index_entry =
  ie_object_name :: string
  ie_file_name :: string
  ie_offset :: int
  ie_size :: int
  ie_is_large :: bool
  ie_block_count :: int
  ie_host :: string
  ie_write_context_hash :: string

datatype idx_op_type = ADD | REMOVE | BEGIN | END | ABORT

fun idx_op_code :: "idx_op_type \<Rightarrow> byte" where
  "idx_op_code ADD = 1"
| "idx_op_code REMOVE = 2"
| "idx_op_code BEGIN = 3"
| "idx_op_code END = 4"
| "idx_op_code ABORT = 5"

type_synonym entry_map = "(string \<times> index_entry list) list"

record idx_codec =
  enc_add :: "string \<times> index_entry list \<Rightarrow> bytes"
  dec_add :: "bytes \<Rightarrow> (string \<times> index_entry list) option"
  enc_index :: "entry_map \<Rightarrow> bytes"
  dec_index :: "bytes \<Rightarrow> entry_map option"

record local_index =
  li_file :: "bytes option"
  li_entries :: entry_map
  li_pending_adds :: entry_map
  li_pending_removes :: "string list"
  li_modified :: bool
  li_unclosed :: bool

definition new_local_index :: "bytes option \<Rightarrow> local_index" where
  "new_local_index f = \<lparr>li_file = f, li_entries = [], li_pending_adds = [], li_pending_removes = [],
     li_modified = False, li_unclosed = False\<rparr>"

definition write_header :: "idx_op_type \<Rightarrow> nat \<Rightarrow> bytes" where
  "write_header op body_size = idx_op_code op # le_bytes 7 (word_of_nat body_size :: 64 word)"

definition read_header :: "bytes \<Rightarrow> (byte \<times> nat \<times> bytes) option" where
  "read_header bs =
     (if length bs < 8 then None
      else Some (hd bs, unat (le_value (take 7 (tl bs)) :: 64 word), drop 8 bs))"

text \<open>\<open>operator[]\<close> of the map, then \<open>push_back\<close>.\<close>

definition push_entry :: "string \<Rightarrow> index_entry \<Rightarrow> entry_map \<Rightarrow> entry_map" where
  "push_entry k e m = AList.update k ((case map_of m k of None \<Rightarrow> [] | Some es \<Rightarrow> es) @ [e]) m"

definition add_entry :: "index_entry \<Rightarrow> local_index \<Rightarrow> local_index" where
  "add_entry e li = li\<lparr>li_entries := push_entry (ie_object_name e) e (li_entries li),
     li_pending_adds := push_entry (ie_object_name e) e (li_pending_adds li),
     li_pending_removes := removeAll (ie_object_name e) (li_pending_removes li),
     li_modified := True\<rparr>"

definition remove_entry :: "string \<Rightarrow> local_index \<Rightarrow> bool \<times> local_index" where
  "remove_entry name li =
     (case map_of (li_entries li) name of
        None \<Rightarrow> (False, li)
      | Some _ \<Rightarrow> (True, li\<lparr>li_entries := AList.delete name (li_entries li),
          li_pending_removes := List.insert name (li_pending_removes li),
          li_pending_adds := AList.delete name (li_pending_adds li), li_modified := True\<rparr>))"

definition find_entry :: "string \<Rightarrow> local_index \<Rightarrow> index_entry option" where
  "find_entry name li =
     (case map_of (li_entries li) name of None \<Rightarrow> None | Some [] \<Rightarrow> None | Some (e # _) \<Rightarrow> Some e)"

definition find_all_entries :: "string \<Rightarrow> local_index \<Rightarrow> index_entry list option" where
  "find_all_entries name li = map_of (li_entries li) name"

text \<open>Appending creates the file when it does not exist.\<close>

definition append_file :: "bool \<Rightarrow> bytes \<Rightarrow> bytes option \<Rightarrow> bytes option" where
  "append_file can_open bs f = (if can_open then Some ((case f of None \<Rightarrow> [] | Some c \<Rightarrow> c) @ bs) else f)"

definition add_record_bytes :: "idx_codec \<Rightarrow> string \<times> index_entry list \<Rightarrow> bytes" where
  "add_record_bytes c r = write_header ADD (length (enc_add c r)) @ enc_add c r"

definition append_add :: "idx_codec \<Rightarrow> bool \<Rightarrow> string \<times> index_entry list \<Rightarrow> bytes option \<Rightarrow> bytes option" where
  "append_add c can_open r = append_file can_open (add_record_bytes c r)"

definition append_remove :: "idx_codec \<Rightarrow> bool \<Rightarrow> string \<Rightarrow> bytes option \<Rightarrow> bytes option" where
  "append_remove c can_open name =
     append_file can_open (write_header REMOVE (length (enc_add c (name, []))) @ enc_add c (name, []))"

definition append_marker :: "bool \<Rightarrow> idx_op_type \<Rightarrow> local_index \<Rightarrow> local_index" where
  "append_marker can_open op li = li\<lparr>li_file := append_file can_open (write_header op 0) (li_file li)\<rparr>"

definition mark_begin :: "bool \<Rightarrow> local_index \<Rightarrow> local_index" where
  "mark_begin can_open = append_marker can_open BEGIN"

definition mark_end :: "bool \<Rightarrow> local_index \<Rightarrow> local_index" where
  "mark_end can_open = append_marker can_open END"

definition mark_abort :: "bool \<Rightarrow> local_index \<Rightarrow> local_index" where
  "mark_abort can_open = append_marker can_open ABORT"

definition save_index :: "idx_codec \<Rightarrow> bool \<Rightarrow> local_index \<Rightarrow> local_index" where
  "save_index c can_open li =
     (if \<not> li_modified li then li
      else
        li\<lparr>li_file := fold (append_remove c can_open) (li_pending_removes li)
                       (fold (append_add c can_open) (li_pending_adds li) (li_file li)),
           li_pending_adds := [], li_pending_removes := [], li_modified := False\<rparr>)"

definition save_legacy :: "idx_codec \<Rightarrow> bool \<Rightarrow> local_index \<Rightarrow> local_index" where
  "save_legacy c can_open li =
     (if \<not> can_open then li
      else
        let bytes = enc_index c (li_entries li)
        in li\<lparr>li_file := Some (le64 (word_of_nat (length bytes)) @ bytes), li_modified := False\<rparr>)"

text \<open>The state of the replay loop of \<open>load\<close>.\<close>

record load_state =
  ls_entries :: entry_map
  ls_pending :: entry_map
  ls_in_segment :: bool

definition load_init :: load_state where
  "load_init = \<lparr>ls_entries = [], ls_pending = [], ls_in_segment = False\<rparr>"

definition load_op :: "idx_codec \<Rightarrow> byte \<Rightarrow> bytes \<Rightarrow> load_state \<Rightarrow> load_state" where
  "load_op c op body st =
     (if op = idx_op_code ADD then
        (case dec_add c body of
           None \<Rightarrow> st
         | Some (name, es) \<Rightarrow>
             if ls_in_segment st then st\<lparr>ls_pending := AList.update name es (ls_pending st)\<rparr>
             else st\<lparr>ls_entries := AList.update name es (ls_entries st)\<rparr>)
      else if op = idx_op_code REMOVE then
        (case dec_add c body of
           None \<Rightarrow> st
         | Some (name, _) \<Rightarrow> st\<lparr>ls_entries := AList.delete name (ls_entries st),
             ls_pending := AList.delete name (ls_pending st)\<rparr>)
      else if op = idx_op_code BEGIN then st\<lparr>ls_in_segment := True, ls_pending := []\<rparr>
      else if op = idx_op_code END then
        st\<lparr>ls_entries := fold (\<lambda>(k, v). AList.update k v) (ls_pending st) (ls_entries st),
           ls_pending := [], ls_in_segment := False\<rparr>
      else if op = idx_op_code ABORT then st\<lparr>ls_pending := [], ls_in_segment := False\<rparr>
      else st)"

function load_loop :: "idx_codec \<Rightarrow> bytes \<Rightarrow> load_state \<Rightarrow> load_state" where
  "load_loop c bs st =
     (case read_header bs of
        None \<Rightarrow> st
      | Some (op, body_size, rest) \<Rightarrow>
          if length rest < body_size then st
          else load_loop c (drop body_size rest) (load_op c op (take body_size rest) st))"
  by pat_completeness auto
termination
  by (relation "measure (\<lambda>(c, bs, st). length bs)") (auto simp: read_header_def split: if_splits)

declare load_loop.simps [simp del]

definition is_new_format :: "byte \<Rightarrow> bool" where
  "is_new_format b \<longleftrightarrow> b = idx_op_code ADD \<or> b = idx_op_code REMOVE \<or> b = idx_op_code BEGIN \<or>
     b = idx_op_code END \<or> b = idx_op_code ABORT"

definition load_legacy :: "idx_codec \<Rightarrow> bytes \<Rightarrow> entry_map" where
  "load_legacy c bs =
     (let legacy_size = sint (rd_le64 (take 8 bs))
      in if 0 < legacy_size \<and> 8 + legacy_size \<le> int (length bs)
         then (case dec_index c (take (nat legacy_size) (drop 8 bs)) of None \<Rightarrow> [] | Some m \<Rightarrow> m)
         else [])"

text \<open>\<open>can_open\<close> is whether an existing file can be opened for reading.\<close>

definition load_index :: "idx_codec \<Rightarrow> bool \<Rightarrow> local_index \<Rightarrow> local_index" where
  "load_index c can_open li =
     (let cleared = li\<lparr>li_entries := [], li_pending_adds := [], li_pending_removes := [],
                       li_unclosed := False, li_modified := False\<rparr>
      in case li_file li of
           None \<Rightarrow> cleared
         | Some bs \<Rightarrow>
             if \<not> can_open \<or> bs = [] then cleared
             else if \<not> is_new_format (hd bs) then cleared\<lparr>li_entries := load_legacy c bs\<rparr>
             else
               let st = load_loop c bs load_init
               in cleared\<lparr>li_entries := ls_entries st, li_unclosed := ls_in_segment st \<and> ls_pending st \<noteq> []\<rparr>)"

definition compact :: "idx_codec \<Rightarrow> bool \<Rightarrow> local_index \<Rightarrow> local_index" where
  "compact c can_open li =
     (if \<not> can_open then li
      else li\<lparr>li_file := Some (concat (map (add_record_bytes c) (li_entries li)))\<rparr>)"

definition entry_count :: "local_index \<Rightarrow> int" where
  "entry_count li = sum_list (map (\<lambda>(k, es). int (length es)) (li_entries li))"

definition get_all_entries :: "local_index \<Rightarrow> index_entry list" where
  "get_all_entries li = concat (map snd (li_entries li))"

definition had_unclosed_segment :: "local_index \<Rightarrow> bool" where
  "had_unclosed_segment li = li_unclosed li"


section \<open>The log as a sequence of records\<close>

datatype log_rec = LAdd string "index_entry list" | LRem string | LBegin | LEnd | LAbort

fun rec_bytes :: "idx_codec \<Rightarrow> log_rec \<Rightarrow> bytes" where
  "rec_bytes c (LAdd n es) = add_record_bytes c (n, es)"
| "rec_bytes c (LRem n) = write_header REMOVE (length (enc_add c (n, []))) @ enc_add c (n, [])"
| "rec_bytes c LBegin = write_header BEGIN 0"
| "rec_bytes c LEnd = write_header END 0"
| "rec_bytes c LAbort = write_header ABORT 0"

definition log_bytes :: "idx_codec \<Rightarrow> log_rec list \<Rightarrow> bytes" where
  "log_bytes c rs = concat (map (rec_bytes c) rs)"

fun replay_rec :: "log_rec \<Rightarrow> load_state \<Rightarrow> load_state" where
  "replay_rec (LAdd n es) st =
     (if ls_in_segment st then st\<lparr>ls_pending := AList.update n es (ls_pending st)\<rparr>
      else st\<lparr>ls_entries := AList.update n es (ls_entries st)\<rparr>)"
| "replay_rec (LRem n) st =
     st\<lparr>ls_entries := AList.delete n (ls_entries st), ls_pending := AList.delete n (ls_pending st)\<rparr>"
| "replay_rec LBegin st = st\<lparr>ls_in_segment := True, ls_pending := []\<rparr>"
| "replay_rec LEnd st =
     st\<lparr>ls_entries := fold (\<lambda>(k, v). AList.update k v) (ls_pending st) (ls_entries st),
        ls_pending := [], ls_in_segment := False\<rparr>"
| "replay_rec LAbort st = st\<lparr>ls_pending := [], ls_in_segment := False\<rparr>"

definition replay :: "log_rec list \<Rightarrow> load_state" where
  "replay rs = fold replay_rec rs load_init"

text \<open>
  What bitsery promises: a record body decodes to what was encoded.  The length field of a record
  has seven bytes, so the results are about logs of less than \<open>2 ^ 56\<close> bytes.
\<close>

definition codec_ok :: "idx_codec \<Rightarrow> bool" where
  "codec_ok c \<longleftrightarrow> (\<forall>r. dec_add c (enc_add c r) = Some r)"

definition log_fits :: "bytes \<Rightarrow> bool" where
  "log_fits bs \<longleftrightarrow> length bs < 2 ^ 56"

lemma le7_roundtrip:
  assumes "n < 2 ^ 56"
  shows "(le_value (le_bytes 7 (word_of_nat n :: 64 word)) :: 64 word) = word_of_nat n"
proof (rule bit_word_eqI)
  fix k assume k: "k < LENGTH(64)"
  let ?w = "word_of_nat n :: 64 word"
  have "take_bit 56 ?w = ?w" using assms by (simp add: take_bit_of_nat take_bit_nat_eq_self)
  then have "bit ?w k \<Longrightarrow> k < 56" by (metis bit_take_bit_iff)
  moreover have "k < 56 \<Longrightarrow> k div 8 < 7" by simp
  ultimately show "bit (le_value (le_bytes 7 ?w) :: 64 word) k = bit ?w k"
    using k by (auto simp: bit_le_value nth_le_bytes bit_ucast_iff bit_drop_bit_eq)
qed

lemma read_write_header:
  "n < 2 ^ 56 \<Longrightarrow> read_header (write_header op n @ rest) = Some (idx_op_code op, n, rest)"
  by (simp add: read_header_def write_header_def le7_roundtrip unat_of_nat)

lemma write_header_length [simp]: "length (write_header op n) = 8"
  by (simp add: write_header_def)

lemma read_header_short: "length bs < 8 \<Longrightarrow> read_header bs = None"
  by (simp add: read_header_def)

text \<open>Every record is a header and a body of the announced length; the loop applies it.\<close>

lemma rec_shape:
  assumes "codec_ok c" and "log_fits (rec_bytes c r)"
  obtains op body where "rec_bytes c r = write_header op (length body) @ body" "length body < 2 ^ 56"
    "\<And>st. load_op c (idx_op_code op) body st = replay_rec r st"
proof (cases r)
  case (LAdd n es)
  then show ?thesis using that [of ADD "enc_add c (n, es)"] assms
    by (simp add: add_record_bytes_def codec_ok_def load_op_def log_fits_def)
next
  case (LRem n)
  then show ?thesis using that [of REMOVE "enc_add c (n, [])"] assms by (simp add: codec_ok_def load_op_def log_fits_def)
qed (use that [of _ "[]"] in \<open>simp_all add: load_op_def\<close>)

lemma load_loop_rec:
  assumes "codec_ok c" and "log_fits (rec_bytes c r)"
  shows "load_loop c (rec_bytes c r @ rest) st = load_loop c rest (replay_rec r st)"
proof -
  obtain op body where "rec_bytes c r = write_header op (length body) @ body" "length body < 2 ^ 56"
    "\<And>st. load_op c (idx_op_code op) body st = replay_rec r st"
    using rec_shape [OF assms] by blast
  then show ?thesis by (subst load_loop.simps) (simp add: read_write_header)
qed

lemma load_loop_cut:
  assumes "codec_ok c" and "log_fits (rec_bytes c r)" and "k < length (rec_bytes c r)"
  shows "load_loop c (take k (rec_bytes c r)) st = st"
proof -
  obtain op body where b: "rec_bytes c r = write_header op (length body) @ body" "length body < 2 ^ 56"
    by (rule rec_shape [OF assms(1,2)]) blast
  show ?thesis
  proof (cases "k < 8")
    case True
    then show ?thesis by (subst load_loop.simps) (simp add: read_header_short)
  next
    case False
    then have "read_header (take k (rec_bytes c r)) = Some (idx_op_code op, length body, take (k - 8) body)"
      using read_write_header [OF b(2), of op "take (k - 8) body"] by (simp add: b(1))
    then show ?thesis using assms(3) False by (subst load_loop.simps) (simp add: b(1))
  qed
qed

text \<open>The records that are complete within the first \<open>k\<close> bytes.\<close>

fun complete_recs :: "idx_codec \<Rightarrow> nat \<Rightarrow> log_rec list \<Rightarrow> log_rec list" where
  "complete_recs c k [] = []"
| "complete_recs c k (r # rs) =
     (if length (rec_bytes c r) \<le> k then r # complete_recs c (k - length (rec_bytes c r)) rs else [])"

lemma complete_recs_all: "length (log_bytes c rs) \<le> k \<Longrightarrow> complete_recs c k rs = rs"
  by (induction rs arbitrary: k) (auto simp: log_bytes_def)

lemma load_loop_prefix:
  assumes "codec_ok c" and "log_fits (log_bytes c rs)"
  shows "load_loop c (take k (log_bytes c rs)) st = fold replay_rec (complete_recs c k rs) st"
  using assms(2)
proof (induction rs arbitrary: k st)
  case Nil
  then show ?case by (subst load_loop.simps) (simp add: log_bytes_def read_header_short)
next
  case (Cons r rs)
  have l: "log_bytes c (r # rs) = rec_bytes c r @ log_bytes c rs" by (simp add: log_bytes_def)
  then have fits: "log_fits (rec_bytes c r)" "log_fits (log_bytes c rs)" using Cons.prems by (simp_all add: log_fits_def)
  show ?case
  proof (cases "length (rec_bytes c r) \<le> k")
    case True
    then show ?thesis using Cons.IH [OF fits(2)] load_loop_rec [OF assms(1) fits(1)] by (simp add: l)
  next
    case False
    then show ?thesis using load_loop_cut [OF assms(1) fits(1)] by (simp add: l)
  qed
qed

lemma rec_bytes_head [simp]: "rec_bytes c r \<noteq> []" "is_new_format (hd (rec_bytes c r))" "8 \<le> length (rec_bytes c r)"
  by (cases r; simp add: add_record_bytes_def write_header_def is_new_format_def)+

text \<open>Loading any prefix of a log.\<close>

lemma load_index_log:
  assumes "codec_ok c" and "log_fits (log_bytes c rs)" and "li_file li = Some (take k (log_bytes c rs))"
  shows "li_entries (load_index c True li) = ls_entries (replay (complete_recs c k rs))"
    and "li_unclosed (load_index c True li) \<longleftrightarrow>
      (let st = replay (complete_recs c k rs) in ls_in_segment st \<and> ls_pending st \<noteq> [])"
proof -
  let ?bs = "take k (log_bytes c rs)" and ?st = "replay (complete_recs c k rs)"
  have loop: "load_loop c ?bs load_init = ?st" by (simp add: load_loop_prefix [OF assms(1,2)] replay_def)
  have "load_index c True li = li\<lparr>li_entries := ls_entries ?st, li_pending_adds := [], li_pending_removes := [],
      li_unclosed := ls_in_segment ?st \<and> ls_pending ?st \<noteq> [], li_modified := False\<rparr>"
  proof (cases "?bs = []")
    case True
    have "load_loop c [] load_init = load_init" by (subst load_loop.simps) (simp add: read_header_short)
    then have "?st = load_init" using loop unfolding True by simp
    then show ?thesis using True assms(3) by (simp add: load_index_def load_init_def Let_def)
  next
    case False
    then obtain r rs' where rs: "rs = r # rs'" "0 < k" by (cases rs) (auto simp: log_bytes_def)
    then have "hd ?bs = hd (rec_bytes c r)"
      by (simp add: log_bytes_def hd_append)
    then have "is_new_format (hd ?bs)" by simp
    then show ?thesis using False assms(3) loop by (simp add: load_index_def Let_def)
  qed
  then show "li_entries (load_index c True li) = ls_entries ?st"
    "li_unclosed (load_index c True li) \<longleftrightarrow> (let st = ?st in ls_in_segment st \<and> ls_pending st \<noteq> [])"
    by (simp_all add: Let_def)
qed


section \<open>Maps behind the lists\<close>

lemma map_of_fold_update: "map_of (fold (\<lambda>(k, v). AList.update k v) xs m) = map_of m ++ map_of (rev xs)"
  by (induction xs arbitrary: m) (auto simp: map_add_def fun_eq_iff split: option.split)

lemma umap_ok_fold_update: "umap_ok m \<Longrightarrow> umap_ok (fold (\<lambda>(k, v). AList.update k v) xs m)"
  by (induction xs arbitrary: m) auto

lemma map_of_rev_umap: "umap_ok m \<Longrightarrow> map_of (rev m) = map_of m"
  by (simp add: umap_ok_def map_of_inject_set rev_map [symmetric])

definition replay_ok :: "load_state \<Rightarrow> bool" where
  "replay_ok st \<longleftrightarrow> umap_ok (ls_entries st) \<and> umap_ok (ls_pending st) \<and> (\<not> ls_in_segment st \<longrightarrow> ls_pending st = [])"

lemma replay_rec_ok: "replay_ok st \<Longrightarrow> replay_ok (replay_rec r st)"
  by (cases r) (auto simp: replay_ok_def umap_ok_fold_update)

lemma replay_ok: "replay_ok (replay rs)"
proof -
  have "replay_ok st \<Longrightarrow> replay_ok (fold replay_rec rs st)" for st
    by (induction rs arbitrary: st) (auto intro: replay_rec_ok)
  then show ?thesis by (simp add: replay_def load_init_def replay_ok_def)
qed

lemma replay_append: "replay (rs @ rs') = fold replay_rec rs' (replay rs)"
  by (simp add: replay_def)

text \<open>What the log says about a name once the open segment, if any, is committed.\<close>

definition log_view :: "log_rec list \<Rightarrow> string \<rightharpoonup> index_entry list" where
  "log_view rs = map_of (ls_entries (replay rs)) ++ map_of (ls_pending (replay rs))"

lemma log_view_Nil [simp]: "log_view [] = Map.empty"
  by (simp add: log_view_def replay_def load_init_def)

lemma log_view_add [simp]: "log_view (rs @ [LAdd n es]) = (log_view rs)(n \<mapsto> es)"
  using replay_ok [of rs] by (auto simp: log_view_def replay_append replay_ok_def)

lemma log_view_rem [simp]: "log_view (rs @ [LRem n]) = (log_view rs)(n := None)"
  by (auto simp: log_view_def replay_append map_add_def fun_eq_iff split: option.split)

lemma log_view_end [simp]: "log_view (rs @ [LEnd]) = log_view rs"
  using replay_ok [of rs]
  by (simp add: log_view_def replay_append map_of_fold_update map_of_rev_umap replay_ok_def)

lemma log_view_begin: "\<not> ls_in_segment (replay rs) \<Longrightarrow> log_view (rs @ [LBegin]) = log_view rs"
  using replay_ok [of rs] by (simp add: log_view_def replay_append replay_ok_def)

lemma in_segment_append [simp]:
  "ls_in_segment (replay (rs @ [LAdd n es])) = ls_in_segment (replay rs)"
  "ls_in_segment (replay (rs @ [LRem n])) = ls_in_segment (replay rs)"
  "ls_in_segment (replay (rs @ [LBegin]))"
  "\<not> ls_in_segment (replay (rs @ [LEnd]))"
  "\<not> ls_in_segment (replay (rs @ [LAbort]))"
  by (simp_all add: replay_append)

lemma log_view_closed: "\<not> ls_in_segment (replay rs) \<Longrightarrow> log_view rs = map_of (ls_entries (replay rs))"
  using replay_ok [of rs] by (simp add: log_view_def replay_ok_def)

lemma log_view_adds: "log_view (rs @ map (\<lambda>(n, es). LAdd n es) xs) = log_view rs ++ map_of (rev xs)"
proof (induction xs rule: rev_induct)
  case (snoc x xs)
  obtain n es where x: "x = (n, es)" by (cases x)
  have "log_view ((rs @ map (\<lambda>(n, es). LAdd n es) xs) @ [LAdd n es]) = (log_view rs ++ map_of (rev xs))(n \<mapsto> es)"
    unfolding log_view_add snoc ..
  then show ?case by (auto simp: x fun_eq_iff map_add_def split: option.split)
qed simp

lemma log_view_removes: "log_view (rs @ map LRem ns) n = (if n \<in> set ns then None else log_view rs n)"
proof (induction ns rule: rev_induct)
  case (snoc m ns)
  show ?case using snoc log_view_rem [of "rs @ map LRem ns" m] by auto
qed simp

lemma in_segment_adds: "ls_in_segment (replay (rs @ map (\<lambda>(n, es). LAdd n es) xs)) = ls_in_segment (replay rs)"
proof (induction xs rule: rev_induct)
  case (snoc x xs)
  then show ?case
    using in_segment_append(1) [of "rs @ map (\<lambda>(n, es). LAdd n es) xs" "fst x" "snd x"] by (simp add: case_prod_unfold)
qed simp

lemma in_segment_removes: "ls_in_segment (replay (rs @ map LRem ns)) = ls_in_segment (replay rs)"
proof (induction ns rule: rev_induct)
  case (snoc n ns)
  then show ?case using in_segment_append(2) [of "rs @ map LRem ns" n] by simp
qed simp

section \<open>The object behind the log\<close>

datatype index_call =
  AddEntry index_entry | RemoveEntry string | Save | MarkBegin | MarkEnd | Compact

fun index_exec :: "idx_codec \<Rightarrow> index_call \<Rightarrow> local_index \<Rightarrow> local_index option" where
  "index_exec c (AddEntry e) li = Some (add_entry e li)"
| "index_exec c (RemoveEntry n) li = Some (snd (remove_entry n li))"
| "index_exec c Save li = Some (save_index c True li)"
| "index_exec c MarkBegin li = Some (mark_begin True li)"
| "index_exec c MarkEnd li = Some (mark_end True li)"
| "index_exec c Compact li = Some (compact c True li)"

definition file_log :: "local_index \<Rightarrow> bytes" where
  "file_log li = (case li_file li of None \<Rightarrow> [] | Some bs \<Rightarrow> bs)"

definition segment_open :: "idx_codec \<Rightarrow> local_index \<Rightarrow> bool" where
  "segment_open c li \<longleftrightarrow> ls_in_segment (load_loop c (file_log li) load_init)"

text \<open>
  How the writers use the index: an object is added again only while its first entry is not saved
  yet, and segments do not nest.
\<close>

fun index_disciplined :: "idx_codec \<Rightarrow> local_index \<Rightarrow> index_call \<Rightarrow> bool" where
  "index_disciplined c li (AddEntry e) \<longleftrightarrow>
     map_of (li_entries li) (ie_object_name e) = None \<or> map_of (li_pending_adds li) (ie_object_name e) \<noteq> None"
| "index_disciplined c li MarkBegin \<longleftrightarrow> log_fits (file_log li) \<and> \<not> segment_open c li"
| "index_disciplined c li _ \<longleftrightarrow> True"

text \<open>The entries in memory are the log with the unsaved changes on top.\<close>

definition mem_view :: "log_rec list \<Rightarrow> local_index \<Rightarrow> string \<rightharpoonup> index_entry list" where
  "mem_view rs li n =
     (case map_of (li_pending_adds li) n of
        Some es \<Rightarrow> Some es
      | None \<Rightarrow> if n \<in> set (li_pending_removes li) then None else log_view rs n)"

definition index_inv :: "idx_codec \<Rightarrow> local_index \<Rightarrow> bool" where
  "index_inv c li \<longleftrightarrow>
     umap_ok (li_entries li) \<and> umap_ok (li_pending_adds li) \<and>
     (\<not> li_modified li \<longrightarrow> li_pending_adds li = [] \<and> li_pending_removes li = []) \<and>
     (\<forall>n \<in> set (li_pending_removes li). map_of (li_pending_adds li) n = None) \<and>
     (\<exists>rs. file_log li = log_bytes c rs \<and> map_of (li_entries li) = mem_view rs li)"


lemma log_bytes_append [simp]: "log_bytes c (rs @ rs') = log_bytes c rs @ log_bytes c rs'"
  by (simp add: log_bytes_def)

lemma segment_open_log:
  assumes "codec_ok c" "log_fits (file_log li)" "file_log li = log_bytes c rs"
  shows "segment_open c li \<longleftrightarrow> ls_in_segment (replay rs)"
  using load_loop_prefix [of c rs "length (log_bytes c rs)" load_init] assms
  by (simp add: segment_open_def complete_recs_all replay_def)

lemma append_file_log: "(case append_file True bs f of None \<Rightarrow> [] | Some b \<Rightarrow> b) = (case f of None \<Rightarrow> [] | Some b \<Rightarrow> b) @ bs"
  by (simp add: append_file_def)

lemma fold_append_add:
  "(case fold (append_add c True) xs f of None \<Rightarrow> [] | Some b \<Rightarrow> b) =
     (case f of None \<Rightarrow> [] | Some b \<Rightarrow> b) @ log_bytes c (map (\<lambda>(n, es). LAdd n es) xs)"
  by (induction xs arbitrary: f) (simp_all add: append_add_def append_file_log log_bytes_def case_prod_unfold)

lemma fold_append_remove:
  "(case fold (append_remove c True) ns f of None \<Rightarrow> [] | Some b \<Rightarrow> b) =
     (case f of None \<Rightarrow> [] | Some b \<Rightarrow> b) @ log_bytes c (map LRem ns)"
  by (induction ns arbitrary: f) (simp_all add: append_remove_def append_file_log log_bytes_def)

lemma save_index_log:
  "li_modified li \<Longrightarrow> file_log (save_index c True li) =
     file_log li @ log_bytes c (map (\<lambda>(n, es). LAdd n es) (li_pending_adds li) @ map LRem (li_pending_removes li))"
  by (simp add: save_index_def file_log_def fold_append_add fold_append_remove)

lemma mark_log:
  "file_log (mark_begin True li) = file_log li @ log_bytes c [LBegin]"
  "file_log (mark_end True li) = file_log li @ log_bytes c [LEnd]"
  "file_log (mark_abort True li) = file_log li @ log_bytes c [LAbort]"
  by (simp_all add: mark_begin_def mark_end_def mark_abort_def append_marker_def file_log_def append_file_log log_bytes_def)

lemma mark_fields [simp]:
  "li_entries (append_marker b op li) = li_entries li" "li_modified (append_marker b op li) = li_modified li"
  "li_pending_adds (append_marker b op li) = li_pending_adds li"
  "li_pending_removes (append_marker b op li) = li_pending_removes li"
  by (simp_all add: append_marker_def)

lemmas mark_defs = mark_begin_def mark_end_def mark_abort_def

text \<open>Each call keeps the invariant.\<close>

lemma index_inv_add:
  assumes "index_inv c li" "index_disciplined c li (AddEntry e)"
  shows "index_inv c (add_entry e li)"
proof -
  obtain rs where rs: "file_log li = log_bytes c rs" "map_of (li_entries li) = mem_view rs li"
    using assms(1) by (auto simp: index_inv_def)
  have "map_of (li_entries (add_entry e li)) = mem_view rs (add_entry e li)"
  proof
    fix n
    show "map_of (li_entries (add_entry e li)) n = mem_view rs (add_entry e li) n"
      using assms(2) fun_cong [OF rs(2), of n]
      by (auto simp: add_entry_def push_entry_def mem_view_def split: option.splits)
  qed
  moreover have "file_log (add_entry e li) = log_bytes c rs" using rs by (simp add: add_entry_def file_log_def)
  ultimately have "\<exists>rs. file_log (add_entry e li) = log_bytes c rs \<and>
      map_of (li_entries (add_entry e li)) = mem_view rs (add_entry e li)" by blast
  then show ?thesis using assms(1) by (auto simp: index_inv_def add_entry_def push_entry_def)
qed

lemma index_inv_remove:
  assumes "index_inv c li"
  shows "index_inv c (snd (remove_entry n li))"
proof (cases "map_of (li_entries li) n")
  case None
  then show ?thesis using assms by (simp add: remove_entry_def)
next
  case (Some es)
  let ?li = "snd (remove_entry n li)"
  obtain rs where rs: "file_log li = log_bytes c rs" "map_of (li_entries li) = mem_view rs li"
    using assms by (auto simp: index_inv_def)
  have "map_of (li_entries ?li) m = mem_view rs ?li m" for m
    using fun_cong [OF rs(2), of m] by (auto simp: Some remove_entry_def mem_view_def)
  moreover have "file_log ?li = log_bytes c rs" using rs(1) by (simp add: Some remove_entry_def file_log_def)
  ultimately have "\<exists>rs. file_log ?li = log_bytes c rs \<and> map_of (li_entries ?li) = mem_view rs ?li" by blast
  then show ?thesis using assms by (auto simp: index_inv_def remove_entry_def Some)
qed

lemma index_inv_save:
  assumes "index_inv c li"
  shows "index_inv c (save_index c True li)"
proof (cases "li_modified li")
  case False
  then show ?thesis using assms by (simp add: save_index_def)
next
  case True
  let ?li = "save_index c True li"
  obtain rs where rs: "file_log li = log_bytes c rs" "map_of (li_entries li) = mem_view rs li"
    using assms by (auto simp: index_inv_def)
  define rs' where "rs' = (rs @ map (\<lambda>(n, es). LAdd n es) (li_pending_adds li)) @ map LRem (li_pending_removes li)"
  have saved: "li_entries ?li = li_entries li" "li_pending_adds ?li = []" "li_pending_removes ?li = []"
    using True by (simp_all add: save_index_def)
  have view: "log_view rs' n = (if n \<in> set (li_pending_removes li) then None else
      case map_of (li_pending_adds li) n of None \<Rightarrow> log_view rs n | Some es \<Rightarrow> Some es)" for n
    using assms unfolding rs'_def log_view_removes log_view_adds by (simp add: index_inv_def map_of_rev_umap map_add_def)
  have "map_of (li_entries ?li) n = mem_view rs' ?li n" for n
    using assms fun_cong [OF rs(2), of n]
    by (auto simp: saved mem_view_def view index_inv_def split: option.splits)
  moreover have "file_log ?li = log_bytes c rs'" using rs True by (simp add: save_index_log rs'_def)
  ultimately have "\<exists>rs. file_log ?li = log_bytes c rs \<and> map_of (li_entries ?li) = mem_view rs ?li" by blast
  then show ?thesis using assms saved by (auto simp: index_inv_def)
qed

lemma index_inv_mark:
  assumes "index_inv c li" and li': "li_entries li' = li_entries li" "li_modified li' = li_modified li"
    "li_pending_adds li' = li_pending_adds li" "li_pending_removes li' = li_pending_removes li"
    and log: "file_log li' = file_log li @ log_bytes c [r]"
    and view: "\<And>rs. file_log li = log_bytes c rs \<Longrightarrow> log_view (rs @ [r]) = log_view rs"
  shows "index_inv c li'"
proof -
  obtain rs where rs: "file_log li = log_bytes c rs" "map_of (li_entries li) = mem_view rs li"
    using assms(1) by (auto simp: index_inv_def)
  have "mem_view (rs @ [r]) li' = mem_view rs li" using view [OF rs(1)] by (simp add: mem_view_def fun_eq_iff li' split: option.split)
  then have "\<exists>rs. file_log li' = log_bytes c rs \<and> map_of (li_entries li') = mem_view rs li'"
    using rs log by (intro exI [of _ "rs @ [r]"]) (simp add: li')
  then show ?thesis using assms(1) by (simp add: index_inv_def li')
qed

lemma index_inv_compact:
  assumes "index_inv c li"
  shows "index_inv c (compact c True li)"
proof -
  let ?li = "compact c True li" and ?rs = "map (\<lambda>(n, es). LAdd n es) (li_entries li)"
  obtain rs where rs: "map_of (li_entries li) = mem_view rs li" using assms by (auto simp: index_inv_def)
  have "log_view ?rs = map_of (li_entries li)"
    using log_view_adds [of "[]" "li_entries li"] assms by (simp add: index_inv_def map_of_rev_umap)
  then have "map_of (li_entries ?li) n = mem_view ?rs ?li n" for n
    using fun_cong [OF rs, of n] by (auto simp: compact_def mem_view_def split: option.splits)
  moreover have "file_log ?li = log_bytes c ?rs"
    by (simp add: compact_def file_log_def log_bytes_def comp_def case_prod_unfold)
  ultimately have "\<exists>rs. file_log ?li = log_bytes c rs \<and> map_of (li_entries ?li) = mem_view rs ?li" by blast
  then show ?thesis using assms by (simp add: index_inv_def compact_def)
qed

lemma index_exec_inv:
  assumes "codec_ok c" "index_inv c li" "index_disciplined c li call" "index_exec c call li = Some li'"
  shows "index_inv c li'"
proof (cases call)
  case MarkBegin
  then have li': "li' = mark_begin True li" using assms(4) by simp
  show ?thesis unfolding li'
  proof (rule index_inv_mark [OF assms(2)])
    fix rs assume "file_log li = log_bytes c rs"
    then show "log_view (rs @ [LBegin]) = log_view rs"
      using MarkBegin assms(3) segment_open_log [OF assms(1), of li rs] by (simp add: log_view_begin)
  qed (simp_all add: mark_log [of _ c], simp_all add: mark_defs)
next
  case MarkEnd
  then have li': "li' = mark_end True li" using assms(4) by simp
  show ?thesis unfolding li'
    by (rule index_inv_mark [OF assms(2)]) (simp_all add: mark_log [of _ c], simp_all add: mark_defs)
qed (use assms in \<open>auto intro: index_inv_add index_inv_remove index_inv_save index_inv_compact\<close>)

lemma new_index_inv: "index_inv c (new_local_index None)"
  by (auto simp: index_inv_def new_local_index_def file_log_def mem_view_def log_bytes_def fun_eq_iff intro: exI [of _ "[]"])


interpretation idx: component_invariant "index_exec c" "index_disciplined c" "new_local_index None"
  "\<lambda>li. codec_ok c \<longrightarrow> index_inv c li" for c
  by unfold_locales (auto intro: new_index_inv index_exec_inv)

lemma load_entries:
  assumes "codec_ok c" "log_fits (file_log li)" "file_log li = log_bytes c rs"
  shows "li_entries (load_index c True li) = ls_entries (replay rs)"
proof (cases "li_file li")
  case None
  then have "rs = []" using assms(3) by (cases rs) (auto simp: file_log_def log_bytes_def)
  then show ?thesis using None by (simp add: load_index_def replay_def load_init_def Let_def)
next
  case (Some bs)
  then have "li_file li = Some (take (length bs) (log_bytes c rs))" "bs = log_bytes c rs"
    using assms(3) by (simp_all add: file_log_def)
  then show ?thesis using load_index_log(1) [OF assms(1), of rs li "length bs"] assms(2) Some
    by (simp add: complete_recs_all file_log_def)
qed

lemma index_inv_reload:
  assumes "codec_ok c" "index_inv c li" "\<not> li_modified li" "log_fits (file_log li)" "\<not> segment_open c li"
  shows "map_of (li_entries (load_index c True li)) = map_of (li_entries li)"
proof -
  obtain rs where rs: "file_log li = log_bytes c rs" "map_of (li_entries li) = mem_view rs li"
    using assms(2) by (auto simp: index_inv_def)
  then have "map_of (li_entries li) = log_view rs"
    using assms(2,3) by (simp add: index_inv_def mem_view_def fun_eq_iff)
  then show ?thesis
    using load_entries [OF assms(1,4) rs(1)] log_view_closed [of rs] segment_open_log [OF assms(1,4) rs(1)] assms(5) by simp
qed

text \<open>What a load finds depends on the file only.\<close>

lemma load_fresh: "li_entries (load_index c b (new_local_index (li_file li))) = li_entries (load_index c b li)"
  by (simp add: load_index_def new_local_index_def Let_def split: option.split)

lemma load_keeps [simp]:
  "file_log (load_index c b li) = file_log li" "li_pending_adds (load_index c b li) = []"
  "li_pending_removes (load_index c b li) = []"
  by (auto simp: load_index_def Let_def file_log_def split: option.split)

lemma add_save_log:
  assumes "li_pending_adds li = []" "li_pending_removes li = []"
  shows "file_log (save_index c True (add_entry e li)) = file_log li @ log_bytes c [LAdd (ie_object_name e) [e]]"
  using assms by (simp add: save_index_log add_entry_def push_entry_def) (simp add: file_log_def)

text \<open>A log cut inside its last records.\<close>

lemma complete_recs_append:
  "length (log_bytes c rs) \<le> k \<Longrightarrow>
     complete_recs c k (rs @ rs') = rs @ complete_recs c (k - length (log_bytes c rs)) rs'"
  by (induction rs arbitrary: k) (auto simp: log_bytes_def)

lemma complete_recs_prefix: "\<exists>rs'. rs = complete_recs c k rs @ rs'"
  by (induction rs arbitrary: k) auto

lemma complete_recs_strict: "k < length (log_bytes c rs) \<Longrightarrow> complete_recs c k rs \<noteq> rs"
  by (induction rs arbitrary: k) (auto simp: log_bytes_def)

text \<open>A segment is a BEGIN record, records that add or remove objects, and an END record.\<close>

fun is_change :: "log_rec \<Rightarrow> bool" where
  "is_change (LAdd n es) = True"
| "is_change (LRem n) = True"
| "is_change _ = False"

definition segment :: "log_rec list \<Rightarrow> log_rec list" where
  "segment body = LBegin # body @ [LEnd]"

definition removed :: "log_rec list \<Rightarrow> string set" where
  "removed rs = {n. LRem n \<in> set rs}"

fun apply_change :: "log_rec \<Rightarrow> (string \<rightharpoonup> index_entry list) \<Rightarrow> (string \<rightharpoonup> index_entry list)" where
  "apply_change (LAdd n es) M = M(n \<mapsto> es)"
| "apply_change (LRem n) M = M(n := None)"
| "apply_change _ M = M"

text \<open>Before its END record the additions of a segment leave the committed entries alone.\<close>

lemma replay_open_segment:
  assumes "ls_in_segment st"
  shows "ls_entries (fold replay_rec (map (\<lambda>(n, es). LAdd n es) adds) st) = ls_entries st"
  using assms by (induction adds arbitrary: st) (auto simp: case_prod_unfold)

text \<open>Its removals take effect at once.\<close>

lemma replay_open_changes:
  assumes "ls_in_segment st" and "list_all is_change body"
  shows "map_of (ls_entries (fold replay_rec body st)) = map_of (ls_entries st) |` (- removed body)"
  using assms
proof (induction body arbitrary: st)
  case Nil
  show ?case by (simp add: removed_def)
next
  case (Cons r body)
  show ?case
  proof (cases r)
    case (LRem n)
    then show ?thesis using Cons by (auto simp: removed_def restrict_map_def fun_eq_iff)
  qed (use Cons in \<open>auto simp: removed_def\<close>)
qed

lemma prefix_of_segment:
  assumes "segment body = p @ q" "q \<noteq> []" and "list_all is_change body"
  shows "p = [] \<or> (\<exists>body'. p = LBegin # body' \<and> list_all is_change body')"
proof (cases p)
  case (Cons r p')
  then have r: "r = LBegin" and "body @ [LEnd] = p' @ q"
    using assms(1) by (simp_all add: segment_def)
  then have "body = p' @ butlast q" using assms(2) by (metis butlast_append butlast_snoc)
  then show ?thesis using r Cons assms(3) by simp
qed simp

lemma cut_segment_entries:
  assumes "segment body = p @ q" "q \<noteq> []" and "list_all is_change body"
  shows "map_of (ls_entries (replay (rs @ p))) = map_of (ls_entries (replay rs)) |` (- removed p)"
proof (cases "p = []")
  case False
  then obtain body' where "p = LBegin # body'" "list_all is_change body'" using prefix_of_segment [OF assms] by blast
  then show ?thesis
    using replay_open_changes [of "replay_rec LBegin (replay rs)" body'] by (simp add: replay_append removed_def)
qed (simp add: removed_def restrict_map_def)

lemma log_view_changes:
  assumes "list_all is_change body" shows "log_view (rs @ body) = fold apply_change body (log_view rs)"
  using assms
proof (induction body arbitrary: rs)
  case (Cons r body)
  have "log_view (rs @ [r]) = apply_change r (log_view rs)" using Cons.prems by (cases r) simp_all
  then show ?case using Cons.IH [of "rs @ [r]"] Cons.prems by simp
qed simp

lemma whole_segment_entries:
  assumes "\<not> ls_in_segment (replay rs)" and "list_all is_change body"
  shows "map_of (ls_entries (replay (rs @ segment body))) = fold apply_change body (map_of (ls_entries (replay rs)))"
proof -
  let ?open = "(rs @ [LBegin]) @ body"
  have "map_of (ls_entries (replay (?open @ [LEnd]))) = log_view (?open @ [LEnd])"
    by (rule log_view_closed [symmetric]) (simp only: in_segment_append not_False_eq_True)
  also have "\<dots> = fold apply_change body (log_view rs)"
    unfolding log_view_end log_view_changes [OF assms(2)] log_view_begin [OF assms(1)] ..
  finally show ?thesis using log_view_closed [OF assms(1)] by (simp add: segment_def)
qed

section \<open>A concrete codec\<close>

text \<open>
  A codec with the promised property, for evaluating the model: numbers in unary, everything
  else with a length in front.
\<close>

definition demo_nat :: "nat \<Rightarrow> bytes" where
  "demo_nat n = replicate n 1 @ [0]"

fun undemo_nat :: "bytes \<Rightarrow> (nat \<times> bytes) option" where
  "undemo_nat [] = None"
| "undemo_nat (b # bs) = (if b = 0 then Some (0, bs) else map_option (\<lambda>(n, r). (Suc n, r)) (undemo_nat bs))"

definition demo_int :: "int \<Rightarrow> bytes" where
  "demo_int i = demo_nat (if i < 0 then 1 else 0) @ demo_nat (nat \<bar>i\<bar>)"

definition undemo_int :: "bytes \<Rightarrow> (int \<times> bytes) option" where
  "undemo_int bs = Option.bind (undemo_nat bs) (\<lambda>(s, bs).
     Option.bind (undemo_nat bs) (\<lambda>(n, bs). Some (if s = 0 then int n else - int n, bs)))"

definition demo_string :: "string \<Rightarrow> bytes" where
  "demo_string s = demo_nat (length s) @ map (\<lambda>c. word_of_nat (of_char c)) s"

definition undemo_string :: "bytes \<Rightarrow> (string \<times> bytes) option" where
  "undemo_string bs = Option.bind (undemo_nat bs) (\<lambda>(n, bs).
     Some (map (\<lambda>b. char_of (unat b)) (take n bs), drop n bs))"

definition demo_entry :: "index_entry \<Rightarrow> bytes" where
  "demo_entry e = demo_string (ie_object_name e) @ demo_string (ie_file_name e) @ demo_int (ie_offset e) @
     demo_int (ie_size e) @ demo_nat (if ie_is_large e then 1 else 0) @ demo_int (ie_block_count e) @
     demo_string (ie_host e) @ demo_string (ie_write_context_hash e)"

definition undemo_entry :: "bytes \<Rightarrow> (index_entry \<times> bytes) option" where
  "undemo_entry bs =
     Option.bind (undemo_string bs) (\<lambda>(n, bs). Option.bind (undemo_string bs) (\<lambda>(f, bs).
     Option.bind (undemo_int bs) (\<lambda>(off, bs). Option.bind (undemo_int bs) (\<lambda>(sz, bs).
     Option.bind (undemo_nat bs) (\<lambda>(l, bs). Option.bind (undemo_int bs) (\<lambda>(bc, bs).
     Option.bind (undemo_string bs) (\<lambda>(h, bs). Option.bind (undemo_string bs) (\<lambda>(w, bs).
       Some (\<lparr>ie_object_name = n, ie_file_name = f, ie_offset = off, ie_size = sz, ie_is_large = (l = 1),
         ie_block_count = bc, ie_host = h, ie_write_context_hash = w\<rparr>, bs)))))))))"

fun undemo_entries :: "nat \<Rightarrow> bytes \<Rightarrow> index_entry list option" where
  "undemo_entries 0 bs = Some []"
| "undemo_entries (Suc n) bs = Option.bind (undemo_entry bs) (\<lambda>(e, bs).
     map_option (\<lambda>es. e # es) (undemo_entries n bs))"

definition demo_codec :: idx_codec where
  "demo_codec = \<lparr>
     enc_add = \<lambda>(n, es). demo_string n @ demo_nat (length es) @ concat (map demo_entry es),
     dec_add = \<lambda>bs. Option.bind (undemo_string bs) (\<lambda>(n, bs). Option.bind (undemo_nat bs) (\<lambda>(k, bs).
       map_option (\<lambda>es. (n, es)) (undemo_entries k bs))),
     enc_index = \<lambda>m. [], dec_index = \<lambda>bs. None\<rparr>"

lemma undemo_nat [simp]: "undemo_nat (demo_nat n @ bs) = Some (n, bs)"
  by (induction n) (simp_all add: demo_nat_def)

lemma undemo_int [simp]: "undemo_int (demo_int i @ bs) = Some (i, bs)"
  by (simp add: demo_int_def undemo_int_def)

lemma undemo_string [simp]: "undemo_string (demo_string s @ bs) = Some (s, bs)"
proof -
  have "(of_char c :: nat) < 256" for c by (rule nat_of_char_less_256)
  then show ?thesis by (simp add: demo_string_def undemo_string_def comp_def unat_of_nat)
qed

lemma undemo_entry [simp]: "undemo_entry (demo_entry e @ bs) = Some (e, bs)"
  by (simp add: demo_entry_def undemo_entry_def)

lemma undemo_entries [simp]: "undemo_entries (length es) (concat (map demo_entry es)) = Some es"
  by (induction es) simp_all

lemma demo_codec_ok: "codec_ok demo_codec"
  by (simp add: codec_ok_def demo_codec_def case_prod_unfold)

definition demo_index_entry :: "string \<Rightarrow> index_entry" where
  "demo_index_entry n = \<lparr>ie_object_name = n, ie_file_name = ''d'', ie_offset = 0, ie_size = 2, ie_is_large = False,
     ie_block_count = 1, ie_host = [], ie_write_context_hash = []\<rparr>"

lemmas demo_log = demo_codec_def demo_string_def demo_nat_def demo_int_def demo_entry_def demo_index_entry_def
  add_record_bytes_def log_bytes_def log_fits_def


section \<open>Properties\<close>

text \<open>
  Loading a log that was cut at any byte, as a crash during an append leaves it, gives exactly
  the effect of the records that are complete in the file, and reports an unclosed segment exactly
  when those records end inside a segment with additions.
\<close>

theorem index_crash_prefix:
  assumes "codec_ok c" and "log_fits (log_bytes c rs)" and "li_file li = Some (take k (log_bytes c rs))"
  shows "li_entries (load_index c True li) = ls_entries (replay (complete_recs c k rs)) \<and>
    (had_unclosed_segment (load_index c True li) \<longleftrightarrow>
       ls_in_segment (replay (complete_recs c k rs)) \<and> ls_pending (replay (complete_recs c k rs)) \<noteq> [])"
  using load_index_log [OF assms] by (simp add: had_unclosed_segment_def Let_def)

theorem index_crash_prefix_witness:
  "had_unclosed_segment (load_index demo_codec True
     (new_local_index (Some (take 23 (log_bytes demo_codec [LBegin, LAdd ''a'' [], LEnd])))))"
  using index_crash_prefix [of demo_codec "[LBegin, LAdd ''a'' [], LEnd]"
      "new_local_index (Some (take 23 (log_bytes demo_codec [LBegin, LAdd ''a'' [], LEnd])))" 23]
  by (simp add: demo_codec_ok new_local_index_def) (simp add: demo_log replay_def load_init_def)

text \<open>
  C20: The additions of a segment are atomic, its removals are not.  Take a log whose last segment adds
  and removes objects, and cut it anywhere at or after the start of the segment.  As long as one byte
  of the segment is missing, loading gives the state before the segment without the objects whose
  REMOVE records are complete in the file: no addition is visible, and when nothing is removed it is
  exactly the state before the segment.  Once the segment is complete, loading gives the state before
  it with all its additions and removals applied in order.
\<close>

theorem segment_atomic:
  assumes "codec_ok c" and "log_fits (log_bytes c (rs @ segment body))" and "\<not> ls_in_segment (replay rs)"
    and "list_all is_change body" and "length (log_bytes c rs) \<le> k"
    and "li_file li = Some (take k (log_bytes c (rs @ segment body)))"
  shows "map_of (li_entries (load_index c True li)) =
    (if k < length (log_bytes c (rs @ segment body))
     then map_of (ls_entries (replay rs)) |` (- removed (complete_recs c (k - length (log_bytes c rs)) (segment body)))
     else fold apply_change body (map_of (ls_entries (replay rs))))"
proof -
  let ?k = "k - length (log_bytes c rs)"
  have load: "li_entries (load_index c True li) = ls_entries (replay (rs @ complete_recs c ?k (segment body)))"
    using load_index_log(1) [OF assms(1,2,6)] assms(5) by (simp add: complete_recs_append)
  show ?thesis
  proof (cases "k < length (log_bytes c (rs @ segment body))")
    case True
    then have "complete_recs c ?k (segment body) \<noteq> segment body" using assms(5) by (intro complete_recs_strict) simp
    moreover obtain q where "segment body = complete_recs c ?k (segment body) @ q" using complete_recs_prefix by blast
    ultimately have "map_of (ls_entries (replay (rs @ complete_recs c ?k (segment body)))) =
        map_of (ls_entries (replay rs)) |` (- removed (complete_recs c ?k (segment body)))"
      by (intro cut_segment_entries [of body _ q] assms(4)) auto
    then show ?thesis using True load by simp
  next
    case False
    then have "complete_recs c ?k (segment body) = segment body" using assms(5) by (intro complete_recs_all) simp
    then show ?thesis using False load whole_segment_entries [OF assms(3,4)] by simp
  qed
qed

lemma demo_segment_length:
  "length (log_bytes demo_codec (segment [LAdd ''a'' [], LAdd ''b'' []])) = 40"
  by (simp add: demo_log segment_def)

theorem segment_atomic_witness:
  "map_of (li_entries (load_index demo_codec True
     (new_local_index (Some (take 35 (log_bytes demo_codec (segment [LAdd ''a'' [], LAdd ''b'' []]))))))) = Map.empty"
  using segment_atomic [of demo_codec "[]" "[LAdd ''a'' [], LAdd ''b'' []]" 35
      "new_local_index (Some (take 35 (log_bytes demo_codec (segment [LAdd ''a'' [], LAdd ''b'' []]))))"] demo_segment_length
  by (simp add: demo_codec_ok new_local_index_def replay_def load_init_def log_fits_def) (simp add: log_bytes_def)

text \<open>
  C19: What is in memory is what a restart finds.  For any sequence of additions, removals, saves,
  compactions and segments in which an object is added again only before its addition is saved and
  segments do not nest, once everything is saved and the segment is closed, loading the file gives
  the entries held in memory.
\<close>

theorem index_persisted:
  assumes "codec_ok c"
    and "run_ops (index_exec c) (index_disciplined c) calls (new_local_index None) = Some li"
    and "\<not> li_modified li" and "log_fits (file_log li)" and "\<not> segment_open c li"
  shows "map_of (li_entries (load_index c True li)) = map_of (li_entries li)"
proof -
  have "index_inv c li" using idx.run_inv [OF assms(2)] assms(1) by blast
  then show ?thesis using index_inv_reload assms(1,3-5) by blast
qed


definition demo_calls :: "index_call list" where
  "demo_calls = [AddEntry (demo_index_entry ''a''), MarkBegin, AddEntry (demo_index_entry ''b''), Save, MarkEnd,
     RemoveEntry ''a'', Save]"

definition demo_index :: "local_index option" where
  "demo_index = run_ops (index_exec demo_codec) (index_disciplined demo_codec) demo_calls (new_local_index None)"

lemma demo_index_run:
  "demo_index = Some \<lparr>li_file = Some (log_bytes demo_codec
       [LBegin, LAdd ''a'' [demo_index_entry ''a''], LAdd ''b'' [demo_index_entry ''b''], LEnd, LRem ''a'']),
     li_entries = [(''b'', [demo_index_entry ''b''])], li_pending_adds = [], li_pending_removes = [],
     li_modified = False, li_unclosed = False\<rparr>"
proof -
  have n: "ie_object_name (demo_index_entry x) = x" for x by (simp add: demo_index_entry_def)
  have "\<not> ls_in_segment (load_loop c [] load_init)" for c
    by (subst load_loop.simps) (simp add: read_header_short load_init_def)
  then show ?thesis
    by (simp add: demo_index_def demo_calls_def new_local_index_def add_entry_def push_entry_def n segment_open_def
        file_log_def log_fits_def mark_defs append_marker_def append_file_def save_index_def append_add_def
        append_remove_def remove_entry_def log_bytes_def)
qed

theorem index_persisted_witness:
  "map_of (li_entries (load_index demo_codec True (the demo_index))) = [''b'' \<mapsto> [demo_index_entry ''b'']]"
proof -
  let ?rs = "[LBegin, LAdd ''a'' [demo_index_entry ''a''], LAdd ''b'' [demo_index_entry ''b''], LEnd, LRem ''a'']"
  have log: "file_log (the demo_index) = log_bytes demo_codec ?rs" by (simp add: demo_index_run file_log_def)
  moreover have fits: "log_fits (log_bytes demo_codec ?rs)" by (simp add: demo_log)
  ultimately have "\<not> segment_open demo_codec (the demo_index)"
    using segment_open_log [OF demo_codec_ok, of "the demo_index" ?rs] by (simp add: replay_def)
  then show ?thesis
    using index_persisted [OF demo_codec_ok, of demo_calls "the demo_index"] demo_index_run log fits
    by (simp add: demo_index_def)
qed

text \<open>
  Aborting a segment takes back its additions but not its removals.  Whatever additions and
  removals were saved in the segment, after the abort a restart finds the state before the segment
  without the objects removed in it.
\<close>

theorem aborted_segment:
  assumes "codec_ok c" and "log_fits (file_log li)" and "\<not> ls_in_segment (replay rs)"
    and "file_log li = log_bytes c (rs @ [LBegin] @ map (\<lambda>(n, es). LAdd n es) adds @ map LRem removes @ [LAbort])"
  shows "map_of (li_entries (load_index c True li)) = map_of (ls_entries (replay rs)) |` (- set removes)"
proof -
  let ?add = "fold replay_rec (map (\<lambda>(n, es). LAdd n es) adds)" and ?rem = "fold replay_rec (map LRem removes)"
  have rem: "map_of (ls_entries (?rem st)) = map_of (ls_entries st) |` (- set removes)" for st
  proof (induction removes arbitrary: st)
    case (Cons n removes)
    show ?case by (simp add: Cons) (auto simp: restrict_map_def)
  qed (simp add: restrict_map_def)
  have "li_entries (load_index c True li) = ls_entries (?rem (?add (replay_rec LBegin (replay rs))))"
    using load_entries [OF assms(1,2,4)] by (simp add: replay_append)
  then show ?thesis by (simp add: rem replay_open_segment)
qed

theorem aborted_segment_witness:
  "map_of (li_entries (load_index demo_codec True (new_local_index
     (Some (log_bytes demo_codec [LAdd ''a'' [], LBegin, LAdd ''b'' [], LRem ''a'', LAbort]))))) = Map.empty"
  using aborted_segment [of demo_codec "new_local_index
      (Some (log_bytes demo_codec [LAdd ''a'' [], LBegin, LAdd ''b'' [], LRem ''a'', LAbort]))"
      "[LAdd ''a'' []]" "[(''b'', [])]" "[''a'']"]
  by (simp add: demo_codec_ok new_local_index_def file_log_def replay_def load_init_def restrict_map_def fun_eq_iff)
     (simp add: demo_log)

text \<open>
  A segment that a crash left open is never closed in the file.  After the restart that drops
  it, an object written and saved outside any segment is found in memory but is again dropped by
  the next restart.
\<close>

theorem unclosed_segment_swallows:
  assumes "codec_ok c" and "file_log li = log_bytes c rs" and "ls_in_segment (replay rs)"
    and "ie_object_name e \<notin> set (map fst (ls_entries (replay rs)))"
    and "li' = save_index c True (add_entry e (load_index c True li))" and "log_fits (file_log li')"
  shows "find_entry (ie_object_name e) li' = Some e \<and>
    find_entry (ie_object_name e) (load_index c True li') = None"
proof -
  let ?n = "ie_object_name e" and ?li = "load_index c True li"
  have log: "file_log li' = log_bytes c (rs @ [LAdd ?n [e]])" by (simp add: assms(2,5) add_save_log)
  have "log_fits (file_log li)" using assms(2,6) log by (simp add: log_fits_def)
  then have entries: "li_entries ?li = ls_entries (replay rs)" using load_entries [OF assms(1) _ assms(2)] by blast
  have none: "map_of (ls_entries (replay rs)) ?n = None" using assms(4) by (simp add: map_of_eq_None_iff)
  have "li_entries (load_index c True li') = ls_entries (replay rs)"
    using load_entries [OF assms(1,6) log] assms(3) by (simp add: replay_append)
  moreover have "map_of (li_entries li') ?n = Some [e]"
    using entries none by (simp add: assms(5) save_index_def add_entry_def push_entry_def)
  ultimately show ?thesis using none by (simp add: find_entry_def)
qed

theorem unclosed_segment_swallows_witness:
  "let li = new_local_index (Some (log_bytes demo_codec [LBegin]));
       li' = save_index demo_codec True (add_entry (demo_index_entry ''a'') (load_index demo_codec True li))
   in find_entry ''a'' li' = Some (demo_index_entry ''a'') \<and> find_entry ''a'' (load_index demo_codec True li') = None"
proof -
  define li where "li = new_local_index (Some (log_bytes demo_codec [LBegin]))"
  define li' where "li' = save_index demo_codec True (add_entry (demo_index_entry ''a'') (load_index demo_codec True li))"
  have n: "ie_object_name (demo_index_entry ''a'') = ''a''" by (simp add: demo_index_entry_def)
  have "file_log li' = log_bytes demo_codec [LBegin, LAdd ''a'' [demo_index_entry ''a'']]"
    by (simp add: li'_def li_def add_save_log n) (simp add: new_local_index_def file_log_def log_bytes_def)
  then have "log_fits (file_log li')" by (simp add: demo_log)
  then show ?thesis
    using unclosed_segment_swallows [of demo_codec li "[LBegin]" "demo_index_entry ''a''" li', unfolded n]
    by (simp add: demo_codec_ok li_def [symmetric] li'_def [symmetric])
       (simp add: li_def new_local_index_def file_log_def replay_def load_init_def)
qed

end
