(* ===== verification/Data_Writer.thy ===== *)
theory Data_Writer
  imports Local_Index "HOL-Library.Signed_Division"
begin

text \<open>
  The record files of src/storage/cpp/data_writer.h, data_writer.cpp and data_reader.cpp, on top of the
  index of \<open>Local_Index\<close>.  The file system is the field \<open>dw_store\<close>, a map from paths to contents.
  A data file is only ever written at its end, so the stream is a path with its error flags, and
  bytes written to it are in the file at once (the code flushes before it truncates or reads).
  Whether a file can be opened, how much of a write reaches the disk and whether files can be removed
  or cut are arguments.  A short write sets the error flag of the stream in the call that writes; the
  buffered stream of the code may report it only at a later flush, which is not modelled.
\<close>

section \<open>Model\<close>

type_synonym file_store = "string \<rightharpoonup> bytes"

definition path_join :: "string \<Rightarrow> string \<Rightarrow> string" where
  "path_join dir name = dir @ ''/'' @ name"

text \<open>Printing a number to an \<open>ostringstream\<close>, without and with width three and fill 0.\<close>

fun dec_string :: "nat \<Rightarrow> string" where
  "dec_string n = (if n < 10 then [char_of (48 + n)] else dec_string (n div 10) @ [char_of (48 + n mod 10)])"

declare dec_string.simps [simp del]

definition dec3 :: "nat \<Rightarrow> string" where
  "dec3 n = replicate (3 - length (dec_string n)) (CHR ''0'') @ dec_string n"

record out_stream =
  os_file :: "string option"
  os_fail :: bool
  os_bad :: bool

record rollback_point =
  rp_file_index :: nat
  rp_file_offset :: int
  rp_active :: bool

record data_writer =
  dw_db_path :: string
  dw_data_path :: string
  dw_writer_id :: string
  dw_host :: string
  dw_threshold :: int
  dw_temp :: bool
  dw_current_file :: string
  dw_file_index :: nat
  dw_current_size :: int
  dw_stream :: out_stream
  dw_index :: local_index
  dw_total :: int
  dw_closed :: bool
  dw_segment :: rollback_point
  dw_inc_offset :: int
  dw_inc_file :: string
  dw_store :: file_store

text \<open>What the operating system answers during one call.\<close>

record dw_io =
  io_open :: bool
  io_short :: "nat option"
  io_idx :: bool
  io_remove :: "nat \<Rightarrow> bool"
  io_resize :: bool

definition io_good :: dw_io where
  "io_good = \<lparr>io_open = True, io_short = None, io_idx = True, io_remove = (\<lambda>_. True), io_resize = True\<rparr>"

subsection \<open>Streams\<close>

definition stream_close :: "out_stream \<Rightarrow> out_stream" where
  "stream_close st = st\<lparr>os_file := None\<rparr>"

text \<open>Opening clears the error flags when it succeeds and sets the fail flag otherwise.\<close>

definition stream_open :: "bool \<Rightarrow> string \<Rightarrow> out_stream \<Rightarrow> out_stream" where
  "stream_open can p st =
     (if can then \<lparr>os_file = Some p, os_fail = False, os_bad = False\<rparr> else st\<lparr>os_fail := True\<rparr>)"

definition stream_good :: "out_stream \<Rightarrow> bool" where
  "stream_good st \<longleftrightarrow> \<not> os_fail st \<and> \<not> os_bad st"

definition append_store :: "string \<Rightarrow> bytes \<Rightarrow> file_store \<Rightarrow> file_store" where
  "append_store p bs s = s(p \<mapsto> (case s p of None \<Rightarrow> [] | Some old \<Rightarrow> old) @ bs)"

definition stream_write :: "nat option \<Rightarrow> bytes \<Rightarrow> out_stream \<Rightarrow> file_store \<Rightarrow> out_stream \<times> file_store" where
  "stream_write short bs st s =
     (if \<not> stream_good st then (st, s)
      else case os_file st of
          None \<Rightarrow> (st\<lparr>os_bad := True\<rparr>, s)
        | Some p \<Rightarrow>
            (case short of
               None \<Rightarrow> (st, append_store p bs s)
             | Some n \<Rightarrow> (st\<lparr>os_bad := True\<rparr>, append_store p (take n bs) s)))"

definition tellp :: "out_stream \<Rightarrow> file_store \<Rightarrow> int" where
  "tellp st s =
     (if \<not> stream_good st then -1
      else case os_file st of
          None \<Rightarrow> -1
        | Some p \<Rightarrow> (case s p of None \<Rightarrow> 0 | Some bs \<Rightarrow> int (length bs)))"

subsection \<open>Files of a writer\<close>

definition write_dir :: "data_writer \<Rightarrow> string" where
  "write_dir dw = (if dw_temp dw \<or> dw_data_path dw = [] then dw_db_path dw else dw_data_path dw)"

definition get_file_name :: "bool \<Rightarrow> string \<Rightarrow> nat \<Rightarrow> string" where
  "get_file_name temp wid i = (if temp then ''.temp.data_'' else ''data_'') @ wid @ ''_'' @ dec3 i @ ''.dat''"

abbreviation dw_file_name :: "data_writer \<Rightarrow> nat \<Rightarrow> string" where
  "dw_file_name dw \<equiv> get_file_name (dw_temp dw) (dw_writer_id dw)"

abbreviation dw_path :: "data_writer \<Rightarrow> nat \<Rightarrow> string" where
  "dw_path dw i \<equiv> path_join (write_dir dw) (dw_file_name dw i)"

definition create_new_file :: "dw_io \<Rightarrow> data_writer \<Rightarrow> data_writer" where
  "create_new_file io dw =
     (let name = dw_file_name dw (dw_file_index dw);
          p = path_join (write_dir dw) name;
          st = stream_open (io_open io) p (stream_close (dw_stream dw))
      in if io_open io
         then dw\<lparr>dw_current_file := name, dw_stream := st, dw_store := (dw_store dw)(p \<mapsto> []), dw_current_size := 0\<rparr>
         else dw\<lparr>dw_current_file := name, dw_stream := st, dw_closed := True\<rparr>)"

text \<open>The search for the first file number that is not taken.\<close>

partial_function (option) next_free :: "(nat \<Rightarrow> bool) \<Rightarrow> nat \<Rightarrow> nat option" where
  "next_free taken i = (if taken i then next_free taken (i + 1) else Some i)"

text \<open>
  The constructor.  \<open>generated\<close> is what \<open>generate_writer_id\<close> returns and \<open>idx\<close> the content of the
  index file.  The search uses the names of ordinary data files in both modes.
\<close>

definition new_data_writer ::
  "idx_codec \<Rightarrow> dw_io \<Rightarrow> string \<Rightarrow> string \<Rightarrow> string \<Rightarrow> string \<Rightarrow> int \<Rightarrow> string \<Rightarrow> bool \<Rightarrow> bytes option
   \<Rightarrow> file_store \<Rightarrow> data_writer option" where
  "new_data_writer c io db data given generated threshold host temp idx s =
     (let wid = (if given = [] then generated else given);
          dw = \<lparr>dw_db_path = db, dw_data_path = data, dw_writer_id = wid, dw_host = host, dw_threshold = threshold,
                dw_temp = temp, dw_current_file = [], dw_file_index = 1, dw_current_size = 0,
                dw_stream = \<lparr>os_file = None, os_fail = False, os_bad = False\<rparr>,
                dw_index = (if idx = None then new_local_index idx else load_index c (io_idx io) (new_local_index idx)),
                dw_total = 0, dw_closed = False,
                dw_segment = \<lparr>rp_file_index = 1, rp_file_offset = 0, rp_active = False\<rparr>,
                dw_inc_offset = -1, dw_inc_file = [], dw_store = s\<rparr>
      in case next_free (\<lambda>i. s (path_join (write_dir dw) (get_file_name False wid i)) \<noteq> None) 1 of
           None \<Rightarrow> None
         | Some i \<Rightarrow> Some (create_new_file io (dw\<lparr>dw_file_index := i\<rparr>)))"

subsection \<open>Writing\<close>

definition write_record :: "dw_io \<Rightarrow> string \<Rightarrow> int \<Rightarrow> int \<Rightarrow> bytes \<Rightarrow> string \<Rightarrow> data_writer \<Rightarrow> data_writer" where
  "write_record io name original_size chunk_count rec hash dw =
     (if dw_closed dw then dw
      else
        let dw = (if dw_threshold dw < dw_current_size dw + int (length rec) \<and> 0 < dw_current_size dw
                  then create_new_file io (dw\<lparr>dw_file_index := dw_file_index dw + 1\<rparr>) else dw);
            offset = dw_current_size dw;
            (st, s) = stream_write (io_short io) rec (dw_stream dw) (dw_store dw);
            end_pos = tellp st s;
            entry = \<lparr>ie_object_name = name, ie_file_name = dw_current_file dw, ie_offset = offset,
                     ie_size = end_pos - offset, ie_is_large = False, ie_block_count = chunk_count,
                     ie_host = dw_host dw, ie_write_context_hash = hash\<rparr>
        in dw\<lparr>dw_stream := st, dw_store := s, dw_current_size := end_pos,
              dw_index := add_entry entry (dw_index dw), dw_total := dw_total dw + original_size\<rparr>)"


definition dw_flush :: "idx_codec \<Rightarrow> dw_io \<Rightarrow> data_writer \<Rightarrow> data_writer" where
  "dw_flush c io dw = dw\<lparr>dw_index := save_index c (io_idx io) (dw_index dw)\<rparr>"


definition begin_incremental :: "dw_io \<Rightarrow> data_writer \<Rightarrow> int \<times> data_writer" where
  "begin_incremental io dw =
     (if dw_closed dw then (-1, dw)
      else
        let dw = (if dw_threshold dw sdiv 2 < dw_current_size dw \<and> 0 < dw_current_size dw
                  then create_new_file io (dw\<lparr>dw_file_index := dw_file_index dw + 1\<rparr>) else dw)
        in (dw_current_size dw, dw\<lparr>dw_inc_offset := dw_current_size dw, dw_inc_file := dw_current_file dw\<rparr>))"

definition append_incremental :: "dw_io \<Rightarrow> bytes \<Rightarrow> data_writer \<Rightarrow> data_writer" where
  "append_incremental io bs dw =
     (if dw_inc_offset dw < 0 then dw
      else
        let (st, s) = stream_write (io_short io) bs (dw_stream dw) (dw_store dw)
        in dw\<lparr>dw_stream := st, dw_store := s, dw_current_size := dw_current_size dw + int (length bs)\<rparr>)"

definition finish_incremental :: "string \<Rightarrow> int \<Rightarrow> int \<Rightarrow> string \<Rightarrow> data_writer \<Rightarrow> data_writer" where
  "finish_incremental name original_size chunk_count hash dw =
     (if dw_inc_offset dw < 0 then dw
      else
        let entry = \<lparr>ie_object_name = name, ie_file_name = dw_inc_file dw, ie_offset = dw_inc_offset dw,
                     ie_size = dw_current_size dw - dw_inc_offset dw, ie_is_large = False,
                     ie_block_count = chunk_count, ie_host = dw_host dw, ie_write_context_hash = hash\<rparr>
        in dw\<lparr>dw_index := add_entry entry (dw_index dw), dw_total := dw_total dw + original_size,
              dw_inc_offset := -1, dw_inc_file := []\<rparr>)"

definition dw_close :: "idx_codec \<Rightarrow> dw_io \<Rightarrow> data_writer \<Rightarrow> data_writer" where
  "dw_close c io dw =
     (if dw_closed dw then dw
      else dw\<lparr>dw_stream := stream_close (dw_stream dw), dw_index := save_index c (io_idx io) (dw_index dw),
              dw_closed := True\<rparr>)"

subsection \<open>Segments\<close>

definition dw_mark_begin :: "dw_io \<Rightarrow> data_writer \<Rightarrow> data_writer" where
  "dw_mark_begin io dw =
     dw\<lparr>dw_segment := \<lparr>rp_file_index = dw_file_index dw, rp_file_offset = dw_current_size dw, rp_active = True\<rparr>,
        dw_index := mark_begin (io_idx io) (dw_index dw)\<rparr>"

definition dw_mark_end :: "dw_io \<Rightarrow> data_writer \<Rightarrow> data_writer" where
  "dw_mark_end io dw =
     dw\<lparr>dw_segment := (dw_segment dw)\<lparr>rp_active := False\<rparr>, dw_index := mark_end (io_idx io) (dw_index dw)\<rparr>"

definition segment_active :: "data_writer \<Rightarrow> bool" where
  "segment_active dw = rp_active (dw_segment dw)"

text \<open>
  The loop that deletes the files started since the rollback point; \<open>can i\<close> says whether file \<open>i\<close> can be
  removed, and a failure is ignored.
\<close>

fun remove_newer :: "(nat \<Rightarrow> bool) \<Rightarrow> (nat \<Rightarrow> string) \<Rightarrow> nat \<Rightarrow> nat \<Rightarrow> file_store \<Rightarrow> nat \<times> file_store" where
  "remove_newer can path stop i s =
     (if stop < i then remove_newer can path stop (i - 1) (if can i then s(path i := None) else s) else (i, s))"

declare remove_newer.simps [simp del]

text \<open>
  \<open>resize_file\<close> cuts or fills with zero bytes; it fails, and changes nothing, when there is no file or
  the system refuses (\<open>can\<close>); the code logs a failure and goes on.  A negative offset, which a failed
  write leaves behind, becomes a size that no file can have.
\<close>

definition resize_file :: "bool \<Rightarrow> string \<Rightarrow> nat \<Rightarrow> file_store \<Rightarrow> file_store" where
  "resize_file can p n s =
     (if \<not> can then s
      else case s p of None \<Rightarrow> s | Some bs \<Rightarrow> s(p \<mapsto> take n bs @ replicate (n - length bs) 0))"

text \<open>Opening for appending creates the file when it is missing.\<close>

definition open_append :: "bool \<Rightarrow> string \<Rightarrow> file_store \<Rightarrow> file_store" where
  "open_append can p s = (if can \<and> s p = None then s(p \<mapsto> []) else s)"

definition rollback_data_file :: "dw_io \<Rightarrow> data_writer \<Rightarrow> data_writer" where
  "rollback_data_file io dw =
     (let rp = dw_segment dw;
          st = stream_close (dw_stream dw);
          (i, s) = remove_newer (io_remove io) (dw_path dw) (rp_file_index rp) (dw_file_index dw) (dw_store dw);
          p = dw_path dw (rp_file_index rp);
          s = (if rp_file_offset rp < 0 then s else resize_file (io_resize io) p (nat (rp_file_offset rp)) s)
      in dw\<lparr>dw_file_index := i, dw_current_file := dw_file_name dw (rp_file_index rp),
            dw_current_size := rp_file_offset rp, dw_stream := stream_open (io_open io) p st,
            dw_store := open_append (io_open io) p s\<rparr>)"

definition abort_segment :: "dw_io \<Rightarrow> data_writer \<Rightarrow> data_writer" where
  "abort_segment io dw =
     (if \<not> rp_active (dw_segment dw) then dw
      else
        let dw = rollback_data_file io (dw\<lparr>dw_index := mark_abort (io_idx io) (dw_index dw)\<rparr>)
        in dw\<lparr>dw_segment := (dw_segment dw)\<lparr>rp_active := False\<rparr>\<rparr>)"

subsection \<open>Queries\<close>

definition total_bytes_written :: "data_writer \<Rightarrow> int" where
  "total_bytes_written dw = dw_total dw"

definition file_count :: "data_writer \<Rightarrow> nat" where
  "file_count dw = dw_file_index dw"

definition get_last_entry :: "string \<Rightarrow> data_writer \<Rightarrow> index_entry option" where
  "get_last_entry name dw = find_entry name (dw_index dw)"

definition dw_all_entries :: "string \<Rightarrow> data_writer \<Rightarrow> index_entry list option" where
  "dw_all_entries name dw = find_all_entries name (dw_index dw)"

definition dw_remove_entry :: "string \<Rightarrow> data_writer \<Rightarrow> bool \<times> data_writer" where
  "dw_remove_entry name dw =
     (let (r, li) = remove_entry name (dw_index dw) in (r, dw\<lparr>dw_index := li\<rparr>))"

subsection \<open>Reading\<close>

record data_reader =
  dr_db_path :: string
  dr_data_path :: string
  dr_index :: local_index

definition new_data_reader :: "idx_codec \<Rightarrow> bool \<Rightarrow> string \<Rightarrow> string \<Rightarrow> bytes option \<Rightarrow> data_reader" where
  "new_data_reader c can_open db data idx =
     \<lparr>dr_db_path = db, dr_data_path = data,
      dr_index = (if idx = None then new_local_index idx else load_index c can_open (new_local_index idx))\<rparr>"

text \<open>The empty path stands for a file that was not found; it cannot be opened.\<close>

definition find_file_path :: "string \<Rightarrow> string \<Rightarrow> string \<Rightarrow> file_store \<Rightarrow> string" where
  "find_file_path name db data s =
     (if data \<noteq> [] \<and> s (path_join data name) \<noteq> None then path_join data name
      else if s (path_join db name) \<noteq> None then path_join db name
      else if s (db @ ''.merged_data/'' @ name) \<noteq> None then db @ ''.merged_data/'' @ name
      else [])"

text \<open>A negative size becomes a huge buffer, whose allocation throws.\<close>

datatype read_out = ReadThrows | ReadNull | ReadBytes bytes

definition read_from_file :: "string \<Rightarrow> int \<Rightarrow> int \<Rightarrow> file_store \<Rightarrow> read_out" where
  "read_from_file p offset n s =
     (case s p of
        None \<Rightarrow> ReadNull
      | Some bs \<Rightarrow>
          if n < 0 then ReadThrows
          else if offset < 0 \<or> (0 < n \<and> int (length bs) < offset + n) then ReadNull
          else ReadBytes (take (nat n) (drop (nat offset) bs)))"

definition read_raw_from_entry :: "index_entry \<Rightarrow> string \<Rightarrow> string \<Rightarrow> file_store \<Rightarrow> read_out" where
  "read_raw_from_entry e db data s =
     read_from_file (find_file_path (ie_file_name e) db data s) (ie_offset e) (ie_size e) s"

definition dr_exists :: "string \<Rightarrow> data_reader \<Rightarrow> bool" where
  "dr_exists name dr \<longleftrightarrow> find_entry name (dr_index dr) \<noteq> None"

definition read_raw_bytes :: "string \<Rightarrow> data_reader \<Rightarrow> file_store \<Rightarrow> read_out" where
  "read_raw_bytes name dr s =
     (case find_entry name (dr_index dr) of
        None \<Rightarrow> ReadNull
      | Some e \<Rightarrow> read_from_file (find_file_path (ie_file_name e) (dr_db_path dr) (dr_data_path dr) s)
          (ie_offset e) (ie_size e) s)"


section \<open>File names\<close>

definition dec_value :: "string \<Rightarrow> nat" where
  "dec_value s = foldl (\<lambda>v c. 10 * v + (of_char c - 48)) 0 s"

lemma dec_value_dec_string [simp]: "dec_value (dec_string n) = n"
proof (induction n rule: dec_string.induct)
  case (1 n)
  show ?case
  proof (cases "n < 10")
    case True
    then show ?thesis by (subst dec_string.simps) (simp add: dec_value_def)
  next
    case False
    then show ?thesis using 1 by (subst dec_string.simps) (simp add: dec_value_def)
  qed
qed

lemma dec_value_zeros [simp]: "dec_value (replicate k (CHR ''0'') @ s) = dec_value s"
proof -
  have "foldl (\<lambda>v c. 10 * v + (of_char c - 48)) 0 (replicate k (CHR ''0'')) = (0 :: nat)" by (induction k) simp_all
  then show ?thesis by (simp add: dec_value_def)
qed

lemma dec3_inject: "dec3 i = dec3 j \<longleftrightarrow> i = j"
  using dec_value_zeros [of _ "dec_string i"] dec_value_zeros [of _ "dec_string j"] unfolding dec3_def
  by (metis dec_value_dec_string)

lemma get_file_name_inject [simp]: "get_file_name temp wid i = get_file_name temp wid j \<longleftrightarrow> i = j"
  by (simp add: get_file_name_def dec3_inject)

lemma path_join_inject [simp]: "path_join d n = path_join d m \<longleftrightarrow> n = m"
  by (simp add: path_join_def)

text \<open>The search for a free number ends in a finite directory, at the first free number.\<close>

lemma next_free_finite:
  assumes "finite {i. taken i}"
  obtains j where "next_free taken i = Some j" "i \<le> j" "\<not> taken j"
proof -
  have "\<exists>j. next_free taken i = Some j \<and> i \<le> j \<and> \<not> taken j"
    using assms
  proof (induction "card {j. taken j \<and> i \<le> j}" arbitrary: i rule: less_induct)
    case less
    show ?case
    proof (cases "taken i")
      case True
      have "i \<in> {j. taken j \<and> i \<le> j}" "i \<notin> {j. taken j \<and> i + 1 \<le> j}"
        "{j. taken j \<and> i + 1 \<le> j} \<subseteq> {j. taken j \<and> i \<le> j}" using True by auto
      then have "{j. taken j \<and> i + 1 \<le> j} \<subset> {j. taken j \<and> i \<le> j}" by blast
      then have "card {j. taken j \<and> i + 1 \<le> j} < card {j. taken j \<and> i \<le> j}"
        using less.prems by (intro psubset_card_mono) auto
      then obtain j where "next_free taken (i + 1) = Some j" "i + 1 \<le> j" "\<not> taken j" using less by blast
      then show ?thesis using True by (subst next_free.simps) auto
    qed (subst next_free.simps, simp)
  qed
  then show ?thesis using that by blast
qed

section \<open>Rolling back\<close>

lemma remove_newer_step:
  "stop < i \<Longrightarrow> remove_newer can path stop i s =
     remove_newer can path stop (i - 1) (if can i then s(path i := None) else s)"
  "\<not> stop < i \<Longrightarrow> remove_newer can path stop i s = (i, s)"
  by (subst remove_newer.simps, simp)+

lemma remove_newer_spec:
  assumes "\<And>i. can i"
  shows "remove_newer can path stop i s = (min stop i, \<lambda>p. if p \<in> path ` {stop<..i} then None else s p)"
proof (induction "i - stop" arbitrary: i s)
  case 0
  then have "i \<le> stop" "{stop<..i} = {}" by auto
  then show ?case using remove_newer_step(2) [of stop i can path s] by simp
next
  case (Suc d)
  then have less: "stop < i" and d: "d = i - 1 - stop" by auto
  have upto: "{stop<..i} = insert i {stop<..i - 1}" using less by auto
  have "(if p \<in> path ` {stop<..i - 1} then None else (s(path i := None)) p) =
      (if p \<in> path ` {stop<..i} then None else s p)" for p unfolding upto by simp
  moreover have "min stop (i - 1) = min stop i" using less by simp
  ultimately show ?case unfolding remove_newer_step(1) [OF less] if_P [OF assms] Suc(1) [OF d] by (simp only:)
qed

text \<open>
  What holds on disk between the start of a segment, with files \<open>s0\<close> and current number \<open>n0\<close>, and any
  later point, with files \<open>s\<close>, current number \<open>n\<close> and the stream on file \<open>f\<close>: the file of the rollback
  point still starts with its old content, files outside the numbers of the segment are untouched,
  and the stream is on one of its files.
\<close>

definition seg_store :: "(nat \<Rightarrow> string) \<Rightarrow> nat \<Rightarrow> nat \<Rightarrow> string option \<Rightarrow> file_store \<Rightarrow> file_store \<Rightarrow> bool" where
  "seg_store path n0 n f s0 s \<longleftrightarrow> n0 \<le> n \<and>
     (\<forall>p. f = Some p \<longrightarrow> p \<in> path ` {n0..n}) \<and>
     (\<forall>p. p \<notin> path ` {n0..n} \<longrightarrow> s p = s0 p) \<and>
     (\<exists>old new. s0 (path n0) = Some old \<and> s (path n0) = Some (old @ new))"

lemma seg_store_create:
  assumes "seg_store path n0 n f s0 s" "inj path"
  shows "seg_store path n0 (n + 1) (Some (path (n + 1))) s0 (s(path (n + 1) \<mapsto> []))"
    and "seg_store path n0 (n + 1) None s0 s"
proof -
  have sub: "path ` {n0..n} \<subseteq> path ` {n0..n + 1}" by auto
  have new: "path (n + 1) \<noteq> path n0" "path (n + 1) \<in> path ` {n0..n + 1}"
    using assms by (auto simp: seg_store_def inj_eq)
  then have "(s(path (n + 1) \<mapsto> [])) p = s0 p" if "p \<notin> path ` {n0..n + 1}" for p
    using assms(1) sub that unfolding seg_store_def by (metis fun_upd_apply subsetD)
  then show "seg_store path n0 (n + 1) (Some (path (n + 1))) s0 (s(path (n + 1) \<mapsto> []))"
    using assms(1) new unfolding seg_store_def by simp
  have "\<forall>p. p \<notin> path ` {n0..n + 1} \<longrightarrow> s p = s0 p" using assms(1) sub unfolding seg_store_def by blast
  then show "seg_store path n0 (n + 1) None s0 s" using assms(1) unfolding seg_store_def by simp
qed

lemma seg_store_append:
  assumes "seg_store path n0 n (Some p) s0 s"
  shows "seg_store path n0 n (Some p) s0 (append_store p bs s)"
proof -
  have "\<exists>old new. s0 (path n0) = Some old \<and> append_store p bs s (path n0) = Some (old @ new)"
    using assms by (auto simp: seg_store_def append_store_def)
  then show ?thesis using assms by (auto simp: seg_store_def append_store_def)
qed

lemma seg_store_write:
  assumes "seg_store path n0 n (os_file st) s0 s"
  shows "seg_store path n0 n (os_file (fst (stream_write sh bs st s))) s0 (snd (stream_write sh bs st s))"
  using assms by (auto simp: stream_write_def intro: seg_store_append split: option.split)

text \<open>Rolling such a store back gives the store at the start.\<close>

lemma seg_store_rollback:
  assumes "seg_store path n0 n f s0 s" "inj path" "s0 (path n0) = Some old" "\<And>i. n0 < i \<Longrightarrow> s0 (path i) = None"
    and can: "\<And>i. can i"
  shows "fst (remove_newer can path n0 n s) = n0"
    and "resize_file True (path n0) (length old) (snd (remove_newer can path n0 n s)) = s0"
proof -
  obtain new where new: "s (path n0) = Some (old @ new)" using assms(1,3) by (auto simp: seg_store_def)
  show "fst (remove_newer can path n0 n s) = n0" using assms(1) by (simp add: remove_newer_spec [OF can] seg_store_def)
  show "resize_file True (path n0) (length old) (snd (remove_newer can path n0 n s)) = s0"
  proof
    fix p
    consider "p = path n0" | i where "n0 < i" "i \<le> n" "p = path i" | "p \<notin> path ` {n0..n}"
      by (metis atLeastAtMost_iff image_iff le_neq_implies_less)
    then show "resize_file True (path n0) (length old) (snd (remove_newer can path n0 n s)) p = s0 p"
    proof cases
      case 1
      have "path n0 \<notin> path ` {n0<..n}" using assms(2) by (simp add: inj_image_mem_iff)
      then have "snd (remove_newer can path n0 n s) (path n0) = Some (old @ new)" using new by (simp add: remove_newer_spec [OF can])
      then show ?thesis using 1 assms(3) by (simp add: resize_file_def)
    next
      case 2
      then have "snd (remove_newer can path n0 n s) p = None" "p \<noteq> path n0"
        using assms(2) by (auto simp: remove_newer_spec [OF can] inj_eq)
      then show ?thesis using 2 assms(4) by (simp add: resize_file_def split: option.split)
    next
      case 3
      then have "p \<noteq> path n0" "snd (remove_newer can path n0 n s) p = s0 p"
        using assms(1) by (auto simp: seg_store_def remove_newer_spec [OF can])
      then show ?thesis by (simp add: resize_file_def split: option.split)
    qed
  qed
qed

definition since_begin :: "data_writer \<Rightarrow> data_writer \<Rightarrow> bool" where
  "since_begin dw0 dw \<longleftrightarrow>
     dw_temp dw = dw_temp dw0 \<and> dw_writer_id dw = dw_writer_id dw0 \<and> write_dir dw = write_dir dw0 \<and>
     dw_segment dw = \<lparr>rp_file_index = dw_file_index dw0, rp_file_offset = dw_current_size dw0, rp_active = True\<rparr> \<and>
     seg_store (dw_path dw0) (dw_file_index dw0) (dw_file_index dw) (os_file (dw_stream dw)) (dw_store dw0) (dw_store dw)"

text \<open>A writer between two calls: its stream is at the end of its current file.\<close>

definition dw_ready :: "data_writer \<Rightarrow> bool" where
  "dw_ready dw \<longleftrightarrow> \<not> dw_closed dw \<and> dw_current_file dw = dw_file_name dw (dw_file_index dw) \<and>
     dw_stream dw = \<lparr>os_file = Some (dw_path dw (dw_file_index dw)), os_fail = False, os_bad = False\<rparr> \<and>
     (\<exists>bs. dw_store dw (dw_path dw (dw_file_index dw)) = Some bs \<and> dw_current_size dw = int (length bs))"

lemma write_dir_update [simp]:
  "write_dir (dw\<lparr>dw_file_index := i\<rparr>) = write_dir dw" "write_dir (dw\<lparr>dw_current_file := f\<rparr>) = write_dir dw"
  "write_dir (dw\<lparr>dw_current_size := n\<rparr>) = write_dir dw" "write_dir (dw\<lparr>dw_stream := st\<rparr>) = write_dir dw"
  "write_dir (dw\<lparr>dw_index := li\<rparr>) = write_dir dw" "write_dir (dw\<lparr>dw_total := t\<rparr>) = write_dir dw"
  "write_dir (dw\<lparr>dw_closed := b\<rparr>) = write_dir dw" "write_dir (dw\<lparr>dw_segment := rp\<rparr>) = write_dir dw"
  "write_dir (dw\<lparr>dw_inc_offset := n\<rparr>) = write_dir dw" "write_dir (dw\<lparr>dw_inc_file := f\<rparr>) = write_dir dw"
  "write_dir (dw\<lparr>dw_store := s\<rparr>) = write_dir dw"
  by (simp_all add: write_dir_def)

lemma since_begin_init: "dw_ready dw \<Longrightarrow> since_begin dw (dw_mark_begin io dw)"
  by (auto simp: since_begin_def seg_store_def dw_mark_begin_def dw_ready_def)

lemma inj_path_join: "inj (\<lambda>i. path_join d (get_file_name temp wid i))"
  by (simp add: inj_def)

lemma since_begin_create:
  assumes "since_begin dw0 dw"
  shows "since_begin dw0 (create_new_file io (dw\<lparr>dw_file_index := dw_file_index dw + 1\<rparr>))"
  using assms seg_store_create [OF _ inj_path_join]
  by (auto simp: since_begin_def create_new_file_def Let_def stream_open_def stream_close_def)




lemma since_begin_record:
  assumes "since_begin dw0 dw"
  shows "since_begin dw0 (write_record io n os cc rec h dw)"
proof -
  define dw1 where "dw1 = (if dw_threshold dw < dw_current_size dw + int (length rec) \<and> 0 < dw_current_size dw
    then create_new_file io (dw\<lparr>dw_file_index := dw_file_index dw + 1\<rparr>) else dw)"
  have "since_begin dw0 dw1" using assms since_begin_create by (simp add: dw1_def)
  then show ?thesis using assms seg_store_write
    by (simp add: write_record_def dw1_def [symmetric] Let_def case_prod_unfold since_begin_def)
qed



section \<open>Records stay readable\<close>

text \<open>The files only grow: every numbered file keeps its content as a prefix.\<close>

definition grows :: "data_writer \<Rightarrow> data_writer \<Rightarrow> bool" where
  "grows dw dw' \<longleftrightarrow> dw_db_path dw' = dw_db_path dw \<and> dw_data_path dw' = dw_data_path dw \<and>
     dw_temp dw' = dw_temp dw \<and> dw_writer_id dw' = dw_writer_id dw \<and> dw_file_index dw \<le> dw_file_index dw' \<and>
     (\<forall>i bs. i \<le> dw_file_index dw \<longrightarrow> dw_store dw (dw_path dw i) = Some bs \<longrightarrow>
        (\<exists>new. dw_store dw' (dw_path dw i) = Some (bs @ new)))"

lemma grows_write_dir: "grows dw dw' \<Longrightarrow> write_dir dw' = write_dir dw"
  by (simp add: grows_def write_dir_def)

lemma grows_refl [simp]: "grows dw dw"
  by (simp add: grows_def)

lemma grows_trans [trans]:
  assumes "grows dw dw'" "grows dw' dw''"
  shows "grows dw dw''"
proof -
  have "\<exists>new. dw_store dw'' (dw_path dw i) = Some (bs @ new)"
    if i: "i \<le> dw_file_index dw" and bs: "dw_store dw (dw_path dw i) = Some bs" for i bs
  proof -
    obtain new where "dw_store dw' (dw_path dw i) = Some (bs @ new)" using assms(1) i bs unfolding grows_def by blast
    moreover have "dw_path dw' i = dw_path dw i" using assms(1) by (simp add: grows_def write_dir_def)
    moreover have "i \<le> dw_file_index dw'" using assms(1) i by (simp add: grows_def)
    ultimately obtain new' where "dw_store dw'' (dw_path dw i) = Some ((bs @ new) @ new')"
      using assms(2) unfolding grows_def by metis
    then show ?thesis by simp
  qed
  then show ?thesis using assms by (auto simp: grows_def)
qed

text \<open>An entry that names a range inside one of the writer's files.\<close>

definition entry_ok :: "data_writer \<Rightarrow> index_entry \<Rightarrow> bool" where
  "entry_ok dw e \<longleftrightarrow> (\<exists>i bs. i \<le> dw_file_index dw \<and> ie_file_name e = dw_file_name dw i \<and>
     dw_store dw (dw_path dw i) = Some bs \<and> 0 \<le> ie_offset e \<and> 0 \<le> ie_size e \<and>
     ie_offset e + ie_size e \<le> int (length bs))"

definition read_entry :: "data_writer \<Rightarrow> index_entry \<Rightarrow> read_out" where
  "read_entry dw e = read_raw_from_entry e (dw_db_path dw) (dw_data_path dw) (dw_store dw)"

lemma read_own_file:
  assumes "\<not> dw_temp dw" "ie_file_name e = dw_file_name dw i" "dw_store dw (dw_path dw i) = Some bs"
    "0 \<le> ie_offset e" "0 \<le> ie_size e" "ie_offset e + ie_size e \<le> int (length bs)"
  shows "read_entry dw e = ReadBytes (take (nat (ie_size e)) (drop (nat (ie_offset e)) bs))"
  using assms
  by (auto simp: read_entry_def read_raw_from_entry_def find_file_path_def write_dir_def read_from_file_def split: if_splits)

lemma entry_ok_grows:
  assumes "grows dw dw'" "entry_ok dw e" "\<not> dw_temp dw"
  shows "entry_ok dw' e \<and> read_entry dw' e = read_entry dw e"
proof -
  obtain i bs where i: "i \<le> dw_file_index dw" "ie_file_name e = dw_file_name dw i"
      "dw_store dw (dw_path dw i) = Some bs" "0 \<le> ie_offset e" "0 \<le> ie_size e" "ie_offset e + ie_size e \<le> int (length bs)"
    using assms(2) by (auto simp: entry_ok_def)
  obtain new where new: "dw_store dw' (dw_path dw i) = Some (bs @ new)" using assms(1) i(1,3) unfolding grows_def by blast
  have same: "dw_file_name dw' i = dw_file_name dw i" "dw_path dw' i = dw_path dw i" "\<not> dw_temp dw'" "i \<le> dw_file_index dw'"
    using assms(1,3) i(1) by (simp_all add: grows_def write_dir_def)
  have "nat (ie_offset e) + nat (ie_size e) \<le> length bs" using i(4-6) by linarith
  then have "read_entry dw' e = read_entry dw e"
    using read_own_file [OF assms(3) i(2-6)] read_own_file [of dw' e i "bs @ new"] same i new by simp
  moreover have "entry_ok dw' e" unfolding entry_ok_def
    using same i new by (intro exI [of _ i] exI [of _ "bs @ new"]) simp
  ultimately show ?thesis by blast
qed


lemma grows_same_store:
  assumes "dw_db_path dw' = dw_db_path dw" "dw_data_path dw' = dw_data_path dw" "dw_temp dw' = dw_temp dw"
    "dw_writer_id dw' = dw_writer_id dw" "dw_file_index dw' = dw_file_index dw" "dw_store dw' = dw_store dw"
  shows "grows dw dw'"
  using assms by (simp add: grows_def)

text \<open>Starting a new file.\<close>

lemma roll_ready:
  assumes "dw_ready dw"
  shows "dw_ready (create_new_file io_good (dw\<lparr>dw_file_index := dw_file_index dw + 1\<rparr>))"
    and "grows dw (create_new_file io_good (dw\<lparr>dw_file_index := dw_file_index dw + 1\<rparr>))"
  using assms
  by (auto simp: dw_ready_def grows_def create_new_file_def io_good_def Let_def stream_open_def stream_close_def)

text \<open>Appending bytes to the current file.\<close>

definition appended :: "bytes \<Rightarrow> data_writer \<Rightarrow> data_writer" where
  "appended bs dw = dw\<lparr>dw_store := append_store (dw_path dw (dw_file_index dw)) bs (dw_store dw),
     dw_current_size := dw_current_size dw + int (length bs)\<rparr>"

lemma appended_ready:
  assumes "dw_ready dw"
  shows "dw_ready (appended bs dw)" and "grows dw (appended bs dw)"
    and "\<exists>old. dw_store dw (dw_path dw (dw_file_index dw)) = Some old \<and> dw_current_size dw = int (length old) \<and>
      dw_store (appended bs dw) (dw_path dw (dw_file_index dw)) = Some (old @ bs)"
  using assms by (auto simp: dw_ready_def grows_def appended_def append_store_def)

lemma stream_write_ready:
  assumes "dw_ready dw"
  shows "stream_write None bs (dw_stream dw) (dw_store dw) =
     (dw_stream dw, append_store (dw_path dw (dw_file_index dw)) bs (dw_store dw))"
    and "tellp (dw_stream dw) (append_store (dw_path dw (dw_file_index dw)) bs (dw_store dw)) =
     dw_current_size dw + int (length bs)"
  using assms by (auto simp: dw_ready_def stream_write_def stream_good_def tellp_def append_store_def)

text \<open>The two ways to write a record come to the same: bytes at the end of a file, and an entry for them.\<close>

definition entry_for :: "string \<Rightarrow> nat \<Rightarrow> int \<Rightarrow> string \<Rightarrow> data_writer \<Rightarrow> index_entry" where
  "entry_for name n cc h dw =
     \<lparr>ie_object_name = name, ie_file_name = dw_current_file dw, ie_offset = dw_current_size dw, ie_size = int n,
      ie_is_large = False, ie_block_count = cc, ie_host = dw_host dw, ie_write_context_hash = h\<rparr>"

definition recorded :: "string \<Rightarrow> int \<Rightarrow> int \<Rightarrow> bytes \<Rightarrow> string \<Rightarrow> data_writer \<Rightarrow> data_writer" where
  "recorded name os cc bs h dw =
     (appended bs dw)\<lparr>dw_index := add_entry (entry_for name (length bs) cc h dw) (dw_index dw), dw_total := dw_total dw + os\<rparr>"

definition maybe_roll :: "bool \<Rightarrow> data_writer \<Rightarrow> data_writer" where
  "maybe_roll b dw = (if b then create_new_file io_good (dw\<lparr>dw_file_index := dw_file_index dw + 1\<rparr>) else dw)"

lemma maybe_roll_ready:
  assumes "dw_ready dw"
  shows "dw_ready (maybe_roll b dw)" "grows dw (maybe_roll b dw)" "dw_index (maybe_roll b dw) = dw_index dw"
    "dw_segment (maybe_roll b dw) = dw_segment dw"
proof -
  show "dw_ready (maybe_roll b dw)" "grows dw (maybe_roll b dw)" using roll_ready [OF assms] assms by (simp_all add: maybe_roll_def)
  show "dw_index (maybe_roll b dw) = dw_index dw" "dw_segment (maybe_roll b dw) = dw_segment dw"
    by (simp_all add: maybe_roll_def create_new_file_def Let_def)
qed

lemma write_record_recorded:
  assumes "dw_ready dw"
  shows "\<exists>b. write_record io_good name os cc rec h dw = recorded name os cc rec h (maybe_roll b dw)"
proof -
  define b where "b \<longleftrightarrow> dw_threshold dw < dw_current_size dw + int (length rec) \<and> 0 < dw_current_size dw"
  have ready: "dw_ready (maybe_roll b dw)" using maybe_roll_ready(1) [OF assms] .
  have "\<not> dw_closed dw" "io_short io_good = None" using assms by (simp_all add: dw_ready_def io_good_def)
  then have "write_record io_good name os cc rec h dw = recorded name os cc rec h (maybe_roll b dw)"
    using stream_write_ready [OF ready, of rec]
    unfolding write_record_def recorded_def appended_def entry_for_def
    by (simp add: b_def [symmetric] maybe_roll_def [symmetric] Let_def)
  then show ?thesis by blast
qed

lemma append_incremental_ready:
  assumes "dw_ready dw" "0 \<le> dw_inc_offset dw"
  shows "append_incremental io_good bs dw = appended bs dw"
  using assms stream_write_ready [OF assms(1), of bs] by (simp add: append_incremental_def appended_def io_good_def)

lemma append_all_ready:
  assumes "dw_ready dw" "0 \<le> dw_inc_offset dw"
  shows "fold (append_incremental io_good) parts dw = appended (concat parts) dw"
  using assms
proof (induction parts arbitrary: dw)
  case Nil
  then obtain old where "dw_store dw (dw_path dw (dw_file_index dw)) = Some old" by (auto simp: dw_ready_def)
  then have "append_store (dw_path dw (dw_file_index dw)) [] (dw_store dw) = dw_store dw"
    by (simp add: append_store_def fun_upd_idem)
  then show ?case by (intro data_writer.equality) (simp_all add: appended_def)
next
  case (Cons bs parts)
  have "dw_ready (appended bs dw)" "0 \<le> dw_inc_offset (appended bs dw)"
    using appended_ready(1) [OF Cons.prems(1)] Cons.prems(2) by (simp_all add: appended_def)
  then show ?case using Cons by (simp add: append_incremental_ready) (simp add: appended_def append_store_def)
qed

definition write_incremental ::
  "string \<Rightarrow> int \<Rightarrow> int \<Rightarrow> bytes list \<Rightarrow> string \<Rightarrow> data_writer \<Rightarrow> data_writer" where
  "write_incremental name os cc parts h dw =
     finish_incremental name os cc h (fold (append_incremental io_good) parts (snd (begin_incremental io_good dw)))"

lemma write_incremental_recorded:
  assumes "dw_ready dw"
  shows "\<exists>b. write_incremental name os cc parts h dw =
     (recorded name os cc (concat parts) h (maybe_roll b dw))\<lparr>dw_inc_offset := -1, dw_inc_file := []\<rparr>"
proof -
  define b where "b \<longleftrightarrow> dw_threshold dw sdiv 2 < dw_current_size dw \<and> 0 < dw_current_size dw"
  define d where "d = maybe_roll b dw"
  define d' where "d' = d\<lparr>dw_inc_offset := dw_current_size d, dw_inc_file := dw_current_file d\<rparr>"
  have ready: "dw_ready d" using maybe_roll_ready(1) [OF assms] by (simp add: d_def)
  then have "0 \<le> dw_current_size d" by (auto simp: dw_ready_def)
  then have off: "dw_ready d'" "0 \<le> dw_inc_offset d'" using ready by (simp_all add: d'_def dw_ready_def)
  have "\<not> dw_closed dw" using assms by (simp add: dw_ready_def)
  then have "snd (begin_incremental io_good dw) = d'"
    by (simp add: begin_incremental_def b_def [symmetric] maybe_roll_def [symmetric] d_def [symmetric] d'_def Let_def)
  then have "write_incremental name os cc parts h dw = finish_incremental name os cc h (appended (concat parts) d')"
    using append_all_ready [OF off] by (simp add: write_incremental_def)
  also have "\<dots> = (recorded name os cc (concat parts) h d)\<lparr>dw_inc_offset := -1, dw_inc_file := []\<rparr>"
    using off(2) by (simp add: finish_incremental_def recorded_def appended_def entry_for_def d'_def Let_def)
  finally show ?thesis unfolding d_def by blast
qed


section \<open>The writer as a store of records\<close>

datatype writer_op =
    PutRecord string int int bytes string
  | PutStream string int int "bytes list" string
  | FlushIndex
  | BeginSegment
  | EndSegment

fun writer_exec :: "idx_codec \<Rightarrow> writer_op \<Rightarrow> data_writer \<Rightarrow> data_writer option" where
  "writer_exec c (PutRecord n os cc rec h) dw = Some (write_record io_good n os cc rec h dw)"
| "writer_exec c (PutStream n os cc parts h) dw = Some (write_incremental n os cc parts h dw)"
| "writer_exec c FlushIndex dw = Some (dw_flush c io_good dw)"
| "writer_exec c BeginSegment dw = Some (dw_mark_begin io_good dw)"
| "writer_exec c EndSegment dw = Some (dw_mark_end io_good dw)"

text \<open>The discipline of the index: a name is written again only before its first entry is saved.\<close>

fun writer_disciplined :: "idx_codec \<Rightarrow> data_writer \<Rightarrow> writer_op \<Rightarrow> bool" where
  "writer_disciplined c dw (PutRecord n os cc rec h) \<longleftrightarrow>
     map_of (li_entries (dw_index dw)) n = None \<or> map_of (li_pending_adds (dw_index dw)) n \<noteq> None"
| "writer_disciplined c dw (PutStream n os cc parts h) \<longleftrightarrow>
     map_of (li_entries (dw_index dw)) n = None \<or> map_of (li_pending_adds (dw_index dw)) n \<noteq> None"
| "writer_disciplined c dw BeginSegment \<longleftrightarrow> index_disciplined c (dw_index dw) MarkBegin"
| "writer_disciplined c dw _ \<longleftrightarrow> True"

text \<open>The abstract store: for every name the records written under it, in order.\<close>

definition put :: "string \<Rightarrow> bytes \<Rightarrow> (string \<rightharpoonup> read_out list) \<Rightarrow> (string \<rightharpoonup> read_out list)" where
  "put n bs m = m(n \<mapsto> (case m n of None \<Rightarrow> [] | Some rs \<Rightarrow> rs) @ [ReadBytes bs])"

fun writer_spec :: "writer_op \<Rightarrow> (string \<rightharpoonup> read_out list) \<Rightarrow> (string \<rightharpoonup> read_out list)" where
  "writer_spec (PutRecord n os cc rec h) m = put n rec m"
| "writer_spec (PutStream n os cc parts h) m = put n (concat parts) m"
| "writer_spec _ m = m"

definition held :: "data_writer \<Rightarrow> string \<rightharpoonup> read_out list" where
  "held dw n = map_option (map (read_entry dw)) (map_of (li_entries (dw_index dw)) n)"

definition writer_inv :: "idx_codec \<Rightarrow> data_writer \<Rightarrow> bool" where
  "writer_inv c dw \<longleftrightarrow> dw_ready dw \<and> \<not> dw_temp dw \<and> index_inv c (dw_index dw) \<and>
     (\<forall>n es. map_of (li_entries (dw_index dw)) n = Some es \<longrightarrow> list_all (entry_ok dw) es)"

lemma recorded_entry:
  assumes "dw_ready dw" "\<not> dw_temp dw"
  shows "entry_ok (recorded n os cc bs h dw) (entry_for n (length bs) cc h dw)"
    and "read_entry (recorded n os cc bs h dw) (entry_for n (length bs) cc h dw) = ReadBytes bs"
proof -
  let ?dw = "recorded n os cc bs h dw" and ?e = "entry_for n (length bs) cc h dw" and ?i = "dw_file_index dw"
  obtain old where old: "dw_current_size dw = int (length old)" "dw_store ?dw (dw_path ?dw ?i) = Some (old @ bs)"
    using appended_ready(3) [OF assms(1), of bs] by (auto simp: recorded_def appended_def)
  have same: "\<not> dw_temp ?dw" "ie_file_name ?e = dw_file_name ?dw ?i" "?i \<le> dw_file_index ?dw"
    using assms by (simp_all add: recorded_def appended_def entry_for_def dw_ready_def)
  have range: "0 \<le> ie_offset ?e" "0 \<le> ie_size ?e" "ie_offset ?e + ie_size ?e \<le> int (length (old @ bs))"
    using old(1) by (simp_all add: entry_for_def)
  show "entry_ok ?dw ?e" unfolding entry_ok_def using same old(2) range by blast
  show "read_entry ?dw ?e = ReadBytes bs"
    using read_own_file [OF same(1,2) old(2) range] old(1) by (simp add: entry_for_def)
qed

lemma recorded_ready:
  assumes "dw_ready dw"
  shows "dw_ready (recorded n os cc bs h dw)" "grows dw (recorded n os cc bs h dw)"
  using appended_ready [OF assms, of bs] by (simp_all add: recorded_def dw_ready_def grows_def)

text \<open>Writing one record, up to the bookkeeping of incremental writes.\<close>

lemma writer_inv_put:
  assumes inv: "writer_inv c dw" and disc: "writer_disciplined c dw (PutRecord n os cc bs h)"
    and dw': "dw' = recorded n os cc bs h (maybe_roll b dw)"
  shows "writer_inv c dw' \<and> held dw' = put n bs (held dw)"
proof -
  let ?d = "maybe_roll b dw" and ?li = "dw_index dw" and ?e = "entry_for n (length bs) cc h (maybe_roll b dw)"
  have ready: "dw_ready dw" "\<not> dw_temp dw" and idx: "index_inv c ?li"
    using inv by (simp_all add: writer_inv_def)
  note roll = maybe_roll_ready [OF ready(1), of b]
  have temp: "\<not> dw_temp ?d" using roll(2) ready(2) by (simp add: grows_def)
  have grow: "grows dw dw'" using grows_trans [OF roll(2)] recorded_ready(2) [OF roll(1)] by (simp add: dw')
  have keep: "entry_ok dw' e \<and> read_entry dw' e = read_entry dw e" if "entry_ok dw e" for e
    using entry_ok_grows [OF grow that ready(2)] .
  have new: "entry_ok dw' ?e" "read_entry dw' ?e = ReadBytes bs"
    using recorded_entry [OF roll(1) temp] by (simp_all add: dw')
  have li': "dw_index dw' = add_entry ?e ?li" using roll(3) by (simp add: dw' recorded_def)
  have name: "ie_object_name ?e = n" by (simp add: entry_for_def)
  have entries: "map_of (li_entries (dw_index dw')) =
      (map_of (li_entries ?li))(n \<mapsto> (case map_of (li_entries ?li) n of None \<Rightarrow> [] | Some es \<Rightarrow> es) @ [?e])"
    by (simp add: li' add_entry_def push_entry_def name)
  have old: "list_all (entry_ok dw) es" if "map_of (li_entries ?li) m = Some es" for m es
    using inv that by (simp add: writer_inv_def)
  have "index_inv c (dw_index dw')" unfolding li' using disc name by (intro index_inv_add [OF idx]) simp
  moreover have "list_all (entry_ok dw') es" if "map_of (li_entries (dw_index dw')) m = Some es" for m es
    using that old keep new(1) by (auto simp: entries list_all_iff split: if_splits option.splits)
  moreover have "held dw' m = put n bs (held dw) m" for m
  proof -
    have "map (read_entry dw') es = map (read_entry dw) es" if "map_of (li_entries ?li) m = Some es" for es
      using old [OF that] keep by (simp add: list_all_iff)
    then show ?thesis using new(2) by (cases "map_of (li_entries ?li) m") (auto simp: held_def put_def entries)
  qed
  ultimately show ?thesis
    using recorded_ready(1) [OF roll(1)] temp by (auto simp: writer_inv_def dw' recorded_def appended_def)
qed

lemma held_inc: "held (dw\<lparr>dw_inc_offset := a, dw_inc_file := f\<rparr>) = held dw"
  by (simp add: held_def read_entry_def [abs_def] fun_eq_iff)

lemma writer_inv_inc: "writer_inv c (dw\<lparr>dw_inc_offset := a, dw_inc_file := f\<rparr>) = writer_inv c dw"
  by (simp add: writer_inv_def dw_ready_def entry_ok_def [abs_def])

lemma writer_inv_same:
  assumes "writer_inv c dw" "index_inv c li" "map_of (li_entries li) = map_of (li_entries (dw_index dw))"
  shows "writer_inv c (dw\<lparr>dw_index := li\<rparr>)" "held (dw\<lparr>dw_index := li\<rparr>) = held dw"
    "writer_inv c (dw\<lparr>dw_segment := rp, dw_index := li\<rparr>)" "held (dw\<lparr>dw_segment := rp, dw_index := li\<rparr>) = held dw"
  using assms
  by (auto simp: writer_inv_def dw_ready_def held_def read_entry_def [abs_def] entry_ok_def [abs_def] fun_eq_iff)

lemma writer_step:
  assumes "codec_ok c" "writer_inv c dw" "writer_disciplined c dw op" "writer_exec c op dw = Some dw'"
  shows "writer_inv c dw' \<and> held dw' = writer_spec op (held dw)"
proof (cases op)
  case (PutRecord n os cc rec h)
  obtain b where "dw' = recorded n os cc rec h (maybe_roll b dw)"
    using write_record_recorded [of dw n os cc rec h] assms(2,4) PutRecord by (auto simp: writer_inv_def)
  then show ?thesis using writer_inv_put assms(2,3) PutRecord by simp
next
  case (PutStream n os cc parts h)
  obtain b where dw': "dw' = (recorded n os cc (concat parts) h (maybe_roll b dw))\<lparr>dw_inc_offset := -1, dw_inc_file := []\<rparr>"
    using write_incremental_recorded [of dw n os cc parts h] assms(2,4) PutStream by (auto simp: writer_inv_def)
  let ?d = "recorded n os cc (concat parts) h (maybe_roll b dw)"
  have "writer_inv c ?d \<and> held ?d = put n (concat parts) (held dw)"
    using writer_inv_put [OF assms(2)] assms(3) PutStream by simp
  then show ?thesis using PutStream dw' by (simp add: held_inc writer_inv_inc)
next
  case FlushIndex
  then show ?thesis
    using assms index_inv_save writer_inv_same(1,2) [OF assms(2), of "save_index c True (dw_index dw)"]
    by (auto simp: dw_flush_def io_good_def writer_inv_def save_index_def)
next
  case BeginSegment
  have "index_inv c (mark_begin True (dw_index dw))"
    using index_exec_inv [OF assms(1), of "dw_index dw" MarkBegin] assms(2,3) BeginSegment by (simp add: writer_inv_def)
  then show ?thesis
    using assms(2,4) BeginSegment writer_inv_same(3,4) [OF assms(2), of "mark_begin True (dw_index dw)"]
    by (auto simp: dw_mark_begin_def io_good_def mark_defs)
next
  case EndSegment
  have "index_inv c (mark_end True (dw_index dw))"
    using index_exec_inv [OF assms(1), of "dw_index dw" MarkEnd] assms(2) by (simp add: writer_inv_def)
  then show ?thesis
    using assms(2,4) EndSegment writer_inv_same(3,4) [OF assms(2), of "mark_end True (dw_index dw)"]
    by (auto simp: dw_mark_end_def io_good_def mark_defs)
qed


text \<open>A new writer is ready, on a file that did not exist.\<close>

lemma new_data_writer_ordinary:
  assumes "new_data_writer c io_good db data given gen thr host False None s = Some dw"
  shows "dw_ready dw" "dw_index dw = new_local_index None" "\<not> dw_temp dw" "dw_db_path dw = db" "dw_data_path dw = data"
  using assms
  by (auto simp: new_data_writer_def Let_def create_new_file_def io_good_def stream_open_def dw_ready_def write_dir_def split: option.splits)

lemma new_data_writer_inv:
  assumes "new_data_writer c io_good db data given gen thr host False None s = Some dw"
  shows "writer_inv c dw" "held dw = Map.empty"
proof -
  have "li_entries (dw_index dw) = []" "index_inv c (dw_index dw)"
    using new_data_writer_ordinary(2) [OF assms] new_index_inv by (simp_all add: new_local_index_def)
  then show "writer_inv c dw" "held dw = Map.empty"
    using new_data_writer_ordinary [OF assms] by (simp_all add: writer_inv_def held_def fun_eq_iff)
qed

lemma writer_run:
  assumes "codec_ok c" "new_data_writer c io_good db data given gen thr host False None s = Some dw0"
    "run_ops (writer_exec c) (writer_disciplined c) ops dw0 = Some dw"
  shows "writer_inv c dw" "held dw = fold writer_spec ops Map.empty"
  using run_ops_simulation [OF assms(3), of "writer_inv c" held Map.empty writer_spec]
    new_data_writer_inv [OF assms(2)] writer_step [OF assms(1)] by blast+

lemma writer_run_paths:
  assumes "run_ops (writer_exec c) (writer_disciplined c) ops dw0 = Some dw"
  shows "dw_db_path dw = dw_db_path dw0 \<and> dw_data_path dw = dw_data_path dw0"
proof -
  have fold_append: "dw_db_path (fold (append_incremental io) parts dw) = dw_db_path dw \<and>
      dw_data_path (fold (append_incremental io) parts dw) = dw_data_path dw" for io parts and dw :: data_writer
    by (induction parts arbitrary: dw) (simp_all add: append_incremental_def case_prod_unfold Let_def)
  have step: "dw_db_path dw' = dw_db_path dw \<and> dw_data_path dw' = dw_data_path dw"
    if "writer_exec c op dw = Some dw'" for op dw dw'
    using that fold_append
    by (cases op) (auto simp: write_record_def write_incremental_def finish_incremental_def begin_incremental_def
        create_new_file_def dw_flush_def dw_mark_begin_def dw_mark_end_def case_prod_unfold Let_def split: if_splits)
  show ?thesis using assms
  proof (induction ops arbitrary: dw0)
    case (Cons op ops)
    then show ?case using step by (auto split: if_splits option.splits)
  qed simp
qed

section \<open>Properties\<close>

text \<open>
  C21: The data writer is a store of records.  After any sequence of record writes, incremental
  writes, flushes and segments, with any number of file changes in between, reading the index
  entries of a name back from the files gives exactly the records written under that name, in
  the order of writing.
\<close>

theorem writer_keeps_records:
  assumes "codec_ok c" and "new_data_writer c io_good db data given gen thr host False None s = Some dw0"
    and "run_ops (writer_exec c) (writer_disciplined c) ops dw0 = Some dw"
  shows "held dw = fold writer_spec ops Map.empty"
  by (rule writer_run(2) [OF assms])

definition demo_writer_ops :: "writer_op list" where
  "demo_writer_ops = [PutRecord ''a'' 2 1 [1, 2] [], PutStream ''b'' 3 1 [[3], [4, 5]] [], PutRecord ''a'' 1 1 [6] [], FlushIndex]"

definition demo_dw :: data_writer where
  "demo_dw = create_new_file io_good
     \<lparr>dw_db_path = ''db'', dw_data_path = [], dw_writer_id = ''w'', dw_host = [], dw_threshold = 4, dw_temp = False,
      dw_current_file = [], dw_file_index = 1, dw_current_size = 0,
      dw_stream = \<lparr>os_file = None, os_fail = False, os_bad = False\<rparr>, dw_index = new_local_index None, dw_total = 0,
      dw_closed = False, dw_segment = \<lparr>rp_file_index = 1, rp_file_offset = 0, rp_active = False\<rparr>,
      dw_inc_offset = -1, dw_inc_file = [], dw_store = Map.empty\<rparr>"

lemma demo_open: "new_data_writer demo_codec io_good ''db'' [] ''w'' [] 4 [] False None Map.empty = Some demo_dw"
proof -
  have "next_free (\<lambda>i. False) 1 = Some 1" by (subst next_free.simps) simp
  then show ?thesis by (simp add: demo_dw_def new_data_writer_def Let_def)
qed

text \<open>The discipline looks at the index only.\<close>

lemma put_index:
  assumes "dw_ready dw"
  shows "\<exists>e. ie_object_name e = n \<and> dw_index (write_record io_good n os cc rec h dw) = add_entry e (dw_index dw) \<and>
      dw_ready (write_record io_good n os cc rec h dw)"
    and "\<exists>e. ie_object_name e = n \<and> dw_index (write_incremental n os cc parts h dw) = add_entry e (dw_index dw) \<and>
      dw_ready (write_incremental n os cc parts h dw)"
proof -
  have rec: "ie_object_name (entry_for n (length bs) cc h (maybe_roll b dw)) = n \<and>
      dw_index (recorded n os cc bs h (maybe_roll b dw)) =
        add_entry (entry_for n (length bs) cc h (maybe_roll b dw)) (dw_index dw) \<and>
      dw_ready (recorded n os cc bs h (maybe_roll b dw))" for b bs
  proof (intro conjI)
    show "dw_ready (recorded n os cc bs h (maybe_roll b dw))"
      by (rule recorded_ready(1) [OF maybe_roll_ready(1) [OF assms]])
  qed (simp_all add: recorded_def entry_for_def maybe_roll_ready(3) [OF assms])
  obtain b where b: "write_record io_good n os cc rec h dw = recorded n os cc rec h (maybe_roll b dw)"
    using write_record_recorded [OF assms] by blast
  show "\<exists>e. ie_object_name e = n \<and> dw_index (write_record io_good n os cc rec h dw) = add_entry e (dw_index dw) \<and>
      dw_ready (write_record io_good n os cc rec h dw)"
    unfolding b using rec [where bs = rec and b = b] by blast
  obtain b' where b': "write_incremental n os cc parts h dw =
      (recorded n os cc (concat parts) h (maybe_roll b' dw))\<lparr>dw_inc_offset := -1, dw_inc_file := []\<rparr>"
    using write_incremental_recorded [OF assms] by blast
  have "dw_ready (dw'\<lparr>dw_inc_offset := -1, dw_inc_file := []\<rparr>) = dw_ready dw'" for dw'
    by (simp add: dw_ready_def)
  then show "\<exists>e. ie_object_name e = n \<and> dw_index (write_incremental n os cc parts h dw) = add_entry e (dw_index dw) \<and>
      dw_ready (write_incremental n os cc parts h dw)"
    unfolding b' using rec [where bs = "concat parts" and b = b']
    by (intro exI [of _ "entry_for n (length (concat parts)) cc h (maybe_roll b' dw)"]) simp
qed

lemma demo_writer_some:
  "run_ops (writer_exec demo_codec) (writer_disciplined demo_codec) demo_writer_ops demo_dw \<noteq> None"
proof -
  note i0 = new_data_writer_ordinary(2,1) [OF demo_open]
  define dw1 where "dw1 = write_record io_good ''a'' 2 1 [1, 2] [] demo_dw"
  obtain e1 where e1: "ie_object_name e1 = ''a''" "dw_index dw1 = add_entry e1 (dw_index demo_dw)" "dw_ready dw1"
    using put_index(1) [OF i0(2)] unfolding dw1_def by blast
  define dw2 where "dw2 = write_incremental ''b'' 3 1 [[3], [4, 5]] [] dw1"
  obtain e2 where e2: "ie_object_name e2 = ''b''" "dw_index dw2 = add_entry e2 (dw_index dw1)"
    using put_index(2) [OF e1(3)] unfolding dw2_def by blast
  note idx = i0(1) e1(1,2) e2 new_local_index_def add_entry_def push_entry_def
  show ?thesis by (simp add: demo_writer_ops_def dw1_def [symmetric] dw2_def [symmetric]) (simp add: idx)
qed

theorem writer_keeps_records_witness:
  "held (the (run_ops (writer_exec demo_codec) (writer_disciplined demo_codec) demo_writer_ops demo_dw)) =
     [''a'' \<mapsto> [ReadBytes [1, 2], ReadBytes [6]], ''b'' \<mapsto> [ReadBytes [3, 4, 5]]]"
proof -
  have "fold writer_spec demo_writer_ops Map.empty =
      [''a'' \<mapsto> [ReadBytes [1, 2], ReadBytes [6]], ''b'' \<mapsto> [ReadBytes [3, 4, 5]]]"
    by (simp add: demo_writer_ops_def put_def fun_upd_twist)
  then show ?thesis using writer_keeps_records [OF demo_codec_ok demo_open] demo_writer_some by fastforce
qed

text \<open>
  C22: A reader in another process finds the records.  Once the index is saved and no segment is
  open, a reader that loads the index file and looks a name up gets the first record written under
  the name, and nothing for a name that was never written.
\<close>

theorem reader_finds_records:
  assumes "codec_ok c" and "new_data_writer c io_good db data given gen thr host False None s = Some dw0"
    and "run_ops (writer_exec c) (writer_disciplined c) ops dw0 = Some dw"
    and "\<not> li_modified (dw_index dw)" and "log_fits (file_log (dw_index dw))" and "\<not> segment_open c (dw_index dw)"
  shows "read_raw_bytes n (new_data_reader c True db data (li_file (dw_index dw))) (dw_store dw) =
    (case fold writer_spec ops Map.empty n of Some (r # rs) \<Rightarrow> r | _ \<Rightarrow> ReadNull)"
proof -
  let ?dr = "new_data_reader c True db data (li_file (dw_index dw))" and ?li = "dw_index dw"
  have inv: "writer_inv c dw" and held: "held dw = fold writer_spec ops Map.empty" using writer_run [OF assms(1-3)] by blast+
  have "li_entries (dr_index ?dr) = li_entries (load_index c True ?li)"
    by (simp add: new_data_reader_def load_fresh) (simp add: load_index_def new_local_index_def)
  moreover have "map_of (li_entries (load_index c True ?li)) = map_of (li_entries ?li)"
    using index_inv_reload assms(1,4-6) inv by (simp add: writer_inv_def)
  ultimately have entries: "map_of (li_entries (dr_index ?dr)) = map_of (li_entries ?li)" by simp
  have paths: "dw_db_path dw = db" "dw_data_path dw = data"
    using writer_run_paths [OF assms(3)] new_data_writer_ordinary(4,5) [OF assms(2)] by simp_all
  have dr: "dr_db_path ?dr = db" "dr_data_path ?dr = data" by (simp_all add: new_data_reader_def)
  show ?thesis unfolding held [symmetric]
    by (simp add: read_raw_bytes_def find_entry_def entries held_def read_entry_def read_raw_from_entry_def paths dr
        split: option.split list.split)
qed

definition demo_put :: "writer_op list" where
  "demo_put = [PutRecord ''b'' 3 1 [3, 4, 5] [], FlushIndex]"

definition demo_put_entry :: index_entry where
  "demo_put_entry = \<lparr>ie_object_name = ''b'', ie_file_name = get_file_name False ''w'' 1, ie_offset = 0, ie_size = 3,
     ie_is_large = False, ie_block_count = 1, ie_host = [], ie_write_context_hash = []\<rparr>"

lemma demo_put_run: "\<exists>dw. run_ops (writer_exec demo_codec) (writer_disciplined demo_codec) demo_put demo_dw = Some dw \<and>
  \<not> li_modified (dw_index dw) \<and> file_log (dw_index dw) = log_bytes demo_codec [LAdd ''b'' [demo_put_entry]]"
  by (simp add: demo_dw_def create_new_file_def io_good_def Let_def demo_put_def new_local_index_def write_record_def stream_open_def
      stream_close_def stream_write_def stream_good_def append_store_def tellp_def write_dir_def dw_flush_def save_index_def
      add_entry_def push_entry_def append_add_def append_file_def file_log_def log_bytes_def demo_put_entry_def)

lemma demo_put_fits: "log_fits (log_bytes demo_codec [LAdd ''b'' [demo_put_entry]])"
  by (simp add: demo_log demo_put_entry_def get_file_name_def dec3_def dec_string.simps)

theorem reader_finds_records_witness:
  "let dw = the (run_ops (writer_exec demo_codec) (writer_disciplined demo_codec) demo_put demo_dw)
   in read_raw_bytes ''b'' (new_data_reader demo_codec True ''db'' [] (li_file (dw_index dw))) (dw_store dw) = ReadBytes [3, 4, 5]"
proof -
  obtain dw where run: "run_ops (writer_exec demo_codec) (writer_disciplined demo_codec) demo_put demo_dw = Some dw"
      "\<not> li_modified (dw_index dw)" "file_log (dw_index dw) = log_bytes demo_codec [LAdd ''b'' [demo_put_entry]]"
    using demo_put_run by blast
  have "\<not> segment_open demo_codec (dw_index dw)"
    using segment_open_log [OF demo_codec_ok _ run(3)] demo_put_fits run(3) by (simp add: replay_def load_init_def)
  then show ?thesis
    using reader_finds_records [OF demo_codec_ok demo_open run(1,2), of "''b''"] run(3) demo_put_fits
    unfolding run(1) by (simp add: put_def demo_put_def Let_def)
qed

section \<open>Aborting a segment\<close>

lemma abort_fields:
  assumes "since_begin dw0 dw" "dw_ready dw0" "\<And>i. dw_file_index dw0 < i \<Longrightarrow> dw_store dw0 (dw_path dw0 i) = None"
    "io_open io" "io_resize io" "\<And>i. io_remove io i"
  shows "dw_store (abort_segment io dw) = dw_store dw0" "dw_file_index (abort_segment io dw) = dw_file_index dw0"
    "dw_current_file (abort_segment io dw) = dw_current_file dw0" "dw_current_size (abort_segment io dw) = dw_current_size dw0"
    "dw_stream (abort_segment io dw) = dw_stream dw0" "\<not> segment_active (abort_segment io dw)"
    "dw_index (abort_segment io dw) = mark_abort (io_idx io) (dw_index dw)"
    "dw_closed (abort_segment io dw) = dw_closed dw" "write_dir (abort_segment io dw) = write_dir dw0"
    "dw_temp (abort_segment io dw) = dw_temp dw0" "dw_writer_id (abort_segment io dw) = dw_writer_id dw0"
proof -
  obtain old where old: "dw_store dw0 (dw_path dw0 (dw_file_index dw0)) = Some old" "dw_current_size dw0 = int (length old)"
    using assms(2) by (auto simp: dw_ready_def)
  have cfg: "dw_temp dw = dw_temp dw0" "dw_writer_id dw = dw_writer_id dw0" "write_dir dw = write_dir dw0"
      "dw_segment dw = \<lparr>rp_file_index = dw_file_index dw0, rp_file_offset = dw_current_size dw0, rp_active = True\<rparr>"
    using assms(1) by (simp_all add: since_begin_def)
  have seg: "seg_store (dw_path dw0) (dw_file_index dw0) (dw_file_index dw) (os_file (dw_stream dw)) (dw_store dw0) (dw_store dw)"
    using assms(1) by (simp add: since_begin_def)
  note roll = seg_store_rollback [where can = "io_remove io", OF seg inj_path_join old(1) assms(3,6)]
  let ?rm = "remove_newer (io_remove io) (dw_path dw0) (dw_file_index dw0) (dw_file_index dw) (dw_store dw)"
  have res: "resize_file True (dw_path dw0 (dw_file_index dw0)) (nat (dw_current_size dw0)) (snd ?rm) = dw_store dw0"
    using roll(2) old(2) by simp
  show "dw_store (abort_segment io dw) = dw_store dw0" "dw_file_index (abort_segment io dw) = dw_file_index dw0"
    "dw_current_file (abort_segment io dw) = dw_current_file dw0" "dw_current_size (abort_segment io dw) = dw_current_size dw0"
    "dw_stream (abort_segment io dw) = dw_stream dw0" "\<not> segment_active (abort_segment io dw)"
    "dw_index (abort_segment io dw) = mark_abort (io_idx io) (dw_index dw)"
    "dw_closed (abort_segment io dw) = dw_closed dw" "write_dir (abort_segment io dw) = write_dir dw0"
    "dw_temp (abort_segment io dw) = dw_temp dw0" "dw_writer_id (abort_segment io dw) = dw_writer_id dw0"
    using assms(2,4,5) old roll(1) res
    by (simp_all add: abort_segment_def rollback_data_file_def cfg Let_def case_prod_unfold segment_active_def
        open_append_def stream_open_def dw_ready_def)
qed


lemma demo_dw_newer: "dw_file_index demo_dw < i \<Longrightarrow> dw_store demo_dw (dw_path demo_dw i) = None"
  by (simp add: demo_dw_def create_new_file_def io_good_def Let_def write_dir_def)


text \<open>
  When the file cannot be cut, the abort goes on as if it had been: the bytes of the segment stay in the
  file, but the next record gets an entry that starts at the old end of the file and covers them too.
\<close>

lemma failed_cut_misplaces:
  assumes "dw_ready dw" and "dw_store dw (dw_path dw (dw_file_index dw)) = Some old"
    and "dw_current_size dw + int (length r1) \<le> dw_threshold dw" and "dw_current_size dw + int (length r2) \<le> dw_threshold dw"
    and "dw1 = write_record io_good n1 os cc r1 h (dw_mark_begin io_good dw)"
    and "dw2 = abort_segment (io_good\<lparr>io_resize := False\<rparr>) dw1" and "dw3 = write_record io_good n2 os cc r2 h dw2"
  shows "dw_store dw3 (dw_path dw (dw_file_index dw)) = Some (old @ r1 @ r2) \<and>
    (\<exists>e. dw_index dw3 = add_entry e (dw_index dw2) \<and> ie_offset e = int (length old) \<and>
       ie_size e = int (length r1) + int (length r2))"
proof -
  have d: "\<not> dw_closed dw" "dw_current_file dw = dw_file_name dw (dw_file_index dw)"
      "dw_stream dw = \<lparr>os_file = Some (dw_path dw (dw_file_index dw)), os_fail = False, os_bad = False\<rparr>"
      "dw_current_size dw = int (length old)"
    using assms(1,2) by (auto simp: dw_ready_def)
  note io = io_good_def stream_write_def stream_good_def append_store_def tellp_def Let_def
  have 1: "dw_store dw1 = (dw_store dw)(dw_path dw (dw_file_index dw) \<mapsto> old @ r1)" "dw_file_index dw1 = dw_file_index dw"
      "dw_segment dw1 = \<lparr>rp_file_index = dw_file_index dw, rp_file_offset = dw_current_size dw, rp_active = True\<rparr>"
      "dw_temp dw1 = dw_temp dw" "dw_writer_id dw1 = dw_writer_id dw" "write_dir dw1 = write_dir dw" "\<not> dw_closed dw1"
      "dw_threshold dw1 = dw_threshold dw"
    using assms(2,3) d by (simp_all add: assms(5) write_record_def dw_mark_begin_def io)
  have 2: "dw_store dw2 = dw_store dw1" "dw_current_size dw2 = int (length old)" "\<not> dw_closed dw2"
      "dw_stream dw2 = \<lparr>os_file = Some (dw_path dw (dw_file_index dw)), os_fail = False, os_bad = False\<rparr>"
      "dw_threshold dw2 = dw_threshold dw"
    using d(4) by (simp_all add: assms(6) abort_segment_def rollback_data_file_def 1 remove_newer_step(2) resize_file_def
        io open_append_def stream_open_def)
  show ?thesis using assms(4) d(4) by (simp add: assms(7) write_record_def 2 1(1) io) (intro exI conjI, rule refl, simp_all)
qed

text \<open>
  An abort does not undo the index in memory.  When a segment that wrote an object is aborted
  and the object is written again, the writer still lists the aborted entry first, and the entry
  it reports as the last one is the aborted one, with the size of the aborted record.
\<close>

theorem stale_entry_after_abort:
  assumes "dw_ready dw" and "\<And>i. dw_file_index dw < i \<Longrightarrow> dw_store dw (dw_path dw i) = None"
    and "map_of (li_entries (dw_index dw)) n = None"
    and "dw1 = dw_flush c io_good (write_record io_good n os cc r1 h (dw_mark_begin io_good dw))"
    and "dw2 = write_record io_good n os cc r2 h (abort_segment io_good dw1)"
  shows "\<exists>e1 e2. dw_all_entries n dw2 = Some [e1, e2] \<and> get_last_entry n dw2 = Some e1 \<and>
    ie_size e1 = int (length r1) \<and> ie_size e2 = int (length r2)"
proof -
  let ?b = "dw_mark_begin io_good dw"
  have since: "since_begin dw dw1"
    using since_begin_record [OF since_begin_init [OF assms(1)], of io_good n os cc r1 h io_good]
    by (simp add: assms(4) since_begin_def dw_flush_def)
  have b: "dw_ready ?b" "dw_index ?b = mark_begin True (dw_index dw)"
    using assms(1) by (simp_all add: dw_mark_begin_def dw_ready_def io_good_def)
  obtain k where k: "write_record io_good n os cc r1 h ?b = recorded n os cc r1 h (maybe_roll k ?b)"
    using write_record_recorded [OF b(1)] by blast
  note roll = maybe_roll_ready [OF b(1), of k]
  let ?e1 = "entry_for n (length r1) cc h (maybe_roll k ?b)"
  have idx1: "map_of (li_entries (dw_index dw1)) n = Some [?e1]"
    using assms(3) by (simp add: assms(4) dw_flush_def save_index_def k recorded_def roll(3) b(2) add_entry_def push_entry_def
        entry_for_def mark_defs)
  have open1: "\<not> dw_closed dw1" using recorded_ready(1) [OF roll(1)] by (simp add: assms(4) dw_flush_def k dw_ready_def)
  note ab = abort_fields [where io = io_good, OF since assms(1,2)]
  have ready: "dw_ready (abort_segment io_good dw1)"
    using ab assms(1) open1 by (simp add: dw_ready_def io_good_def)
  have idx2: "map_of (li_entries (dw_index (abort_segment io_good dw1))) n = Some [?e1]"
    using ab(7) idx1 by (simp add: io_good_def mark_defs)
  obtain k2 where k2: "dw2 = recorded n os cc r2 h (maybe_roll k2 (abort_segment io_good dw1))"
    using write_record_recorded [OF ready] assms(5) by blast
  let ?e2 = "entry_for n (length r2) cc h (maybe_roll k2 (abort_segment io_good dw1))"
  have "map_of (li_entries (dw_index dw2)) n = Some [?e1, ?e2]"
    using idx2 maybe_roll_ready(3) [OF ready, of k2]
    by (simp add: k2 recorded_def add_entry_def push_entry_def entry_for_def)
  then show ?thesis
    by (intro exI [of _ ?e1] exI [of _ ?e2])
       (simp add: dw_all_entries_def find_all_entries_def get_last_entry_def find_entry_def entry_for_def)
qed

theorem stale_entry_after_abort_witness:
  "map_option ie_size (get_last_entry ''a'' (write_record io_good ''a'' 1 1 [9] [] (abort_segment io_good
     (dw_flush demo_codec io_good (write_record io_good ''a'' 1 1 [1, 2, 3] [] (dw_mark_begin io_good demo_dw)))))) = Some 3"
proof -
  have "map_of (li_entries (dw_index demo_dw)) ''a'' = None"
    using new_data_writer_ordinary(2) [OF demo_open] by (simp add: new_local_index_def)
  from stale_entry_after_abort [OF new_data_writer_ordinary(1) [OF demo_open] demo_dw_newer this refl refl,
      where c = demo_codec and os = 1 and cc = 1 and ?r1.0 = "[1, 2, 3]" and h = "[]" and ?r2.0 = "[9]"]
  show ?thesis by auto
qed

text \<open>
  Opening an ordinary writer in a finite directory succeeds and destroys nothing: the new writer
  appends to an empty file that did not exist before, and every other file is unchanged.
\<close>

theorem open_keeps_files:
  assumes "finite (dom s)"
  shows "\<exists>dw. new_data_writer c io_good db data given gen thr host False idx s = Some dw \<and> dw_ready dw \<and>
    s (dw_path dw (dw_file_index dw)) = None \<and> dw_store dw = s(dw_path dw (dw_file_index dw) \<mapsto> [])"
proof -
  let ?wid = "if given = [] then gen else given" and ?dir = "if data = [] then db else data"
  let ?path = "\<lambda>i. path_join ?dir (get_file_name False ?wid i)"
  have "finite (?path -` dom s)" by (rule finite_vimageI [OF assms inj_path_join])
  then have "finite {i. s (?path i) \<noteq> None}" by (simp add: vimage_def dom_def)
  then obtain j where j: "next_free (\<lambda>i. s (?path i) \<noteq> None) 1 = Some j" "\<not> s (?path j) \<noteq> None"
    by (rule next_free_finite [where i = 1])
  define D where "D = \<lparr>dw_db_path = db, dw_data_path = data, dw_writer_id = ?wid, dw_host = host, dw_threshold = thr,
      dw_temp = False, dw_current_file = [], dw_file_index = 1, dw_current_size = 0,
      dw_stream = \<lparr>os_file = None, os_fail = False, os_bad = False\<rparr>,
      dw_index = (if idx = None then new_local_index idx else load_index c (io_idx io_good) (new_local_index idx)),
      dw_total = 0, dw_closed = False, dw_segment = \<lparr>rp_file_index = 1, rp_file_offset = 0, rp_active = False\<rparr>,
      dw_inc_offset = -1, dw_inc_file = [], dw_store = s\<rparr>"
  have D: "write_dir D = ?dir" "dw_temp D = False" "dw_writer_id D = ?wid" "dw_store D = s" "dw_closed D = False"
    by (simp_all add: D_def write_dir_def)
  have "new_data_writer c io_good db data given gen thr host False idx s = Some (create_new_file io_good (D\<lparr>dw_file_index := j\<rparr>))"
    unfolding new_data_writer_def Let_def D_def [symmetric] D(1) j(1) by simp
  moreover have "dw_ready (create_new_file io_good (D\<lparr>dw_file_index := j\<rparr>))"
    by (simp add: create_new_file_def Let_def io_good_def stream_open_def dw_ready_def D)
  moreover have "dw_path (create_new_file io_good (D\<lparr>dw_file_index := j\<rparr>)) j = ?path j"
      "dw_file_index (create_new_file io_good (D\<lparr>dw_file_index := j\<rparr>)) = j"
      "dw_store (create_new_file io_good (D\<lparr>dw_file_index := j\<rparr>)) = s(?path j \<mapsto> [])"
    by (simp_all add: create_new_file_def Let_def io_good_def D)
  ultimately show ?thesis using j(2) by simp
qed

theorem open_keeps_files_witness:
  "\<exists>dw. new_data_writer demo_codec io_good ''db'' [] ''w'' [] 4 [] False None
       [path_join ''db'' (get_file_name False ''w'' 1) \<mapsto> [1, 2]] = Some dw \<and>
     dw_store dw (path_join ''db'' (get_file_name False ''w'' 1)) = Some [1, 2]"
  using open_keeps_files [of "[path_join ''db'' (get_file_name False ''w'' 1) \<mapsto> [1, 2]]" demo_codec "''db''" "[]" "''w''" "[]" 4 "[]" None]
  by (fastforce split: if_splits)

text \<open>
  A temp writer looks for a free number among the names of ordinary files but writes under the
  temp name, so reopening it can truncate its own data: when there is no ordinary file with number
  1, the temp file with number 1 is emptied, whatever it held.
\<close>

theorem temp_open_truncates:
  assumes "wid \<noteq> []" and "s (path_join db (get_file_name False wid 1)) = None"
  shows "\<exists>dw. new_data_writer c io_good db data wid gen thr host True idx s = Some dw \<and>
    dw_store dw (path_join db (get_file_name True wid 1)) = Some []"
proof -
  have "next_free (\<lambda>i. s (path_join db (get_file_name False wid i)) \<noteq> None) 1 = Some 1"
    using assms(2) by (subst next_free.simps) simp
  then show ?thesis using assms(1)
    by (simp add: new_data_writer_def Let_def write_dir_def create_new_file_def io_good_def)
qed

theorem temp_open_truncates_witness:
  "\<exists>dw. new_data_writer demo_codec io_good ''db'' [] ''w'' [] 4 [] True None
      [path_join ''db'' (get_file_name True ''w'' 1) \<mapsto> [1, 2]] = Some dw \<and>
     dw_store dw (path_join ''db'' (get_file_name True ''w'' 1)) = Some []"
  using temp_open_truncates [of "''w''" "[path_join ''db'' (get_file_name True ''w'' 1) \<mapsto> [1, 2]]" "''db''"]
  by (simp add: path_join_def get_file_name_def)

end
