(* ===== verification/Write_Back_Queue.thy ===== *)
theory Write_Back_Queue
  imports Fly_Prelude
begin

text \<open>
  The write-back queue of src/storage/cpp/write_back_queue.h and write_back_queue.cpp: producers
  enqueue write requests, one worker thread executes them in order, other threads drain, clear or
  stop the queue.  Threads interleave at the critical sections of the mutex, so the model is a step
  relation whose steps are the critical sections and the parts of the worker loop between them.  What
  the callbacks of a request do is left to the environment: an attempt succeeds, fails or throws.
\<close>

section \<open>Model\<close>

text \<open>
  Where the worker thread is: not running, waiting for a request, in its attempt \<open>k\<close> to execute a
  request, about to call \<open>on_complete_\<close> or \<open>on_error_\<close>, or inside \<open>_exit\<close>, from which the process
  does not return.
\<close>

datatype 'r wb_worker =
  WIdle | WWaiting | WTrying 'r nat | WCompleting 'r | WFailing 'r | WExiting 'r

text \<open>
  \<open>wq_joinable\<close> says whether the thread object stands for a thread that was not joined yet, and
  \<open>wq_joining\<close> whether a caller of \<open>stop\<close> is about to join it.  \<open>wq_blocked\<close> holds the requests of the
  producers that wait inside \<open>enqueue\<close>.  The last two fields are a history that the code does not have:
  the requests accepted and not cleared, and those finished.
\<close>

record 'r wbq =
  wq_high :: nat
  wq_queue :: "'r list"
  wq_running :: bool
  wq_pending :: nat
  wq_worker :: "'r wb_worker"
  wq_joinable :: bool
  wq_joining :: bool
  wq_blocked :: "'r list"
  wq_accepted :: "'r list"
  wq_finished :: "'r list"

definition kMaxWriteBackRetries :: nat where
  "kMaxWriteBackRetries = 3"

definition new_wbq :: "nat \<Rightarrow> 'r wbq" where
  "new_wbq high = \<lparr>wq_high = high, wq_queue = [], wq_running = False, wq_pending = 0, wq_worker = WIdle,
     wq_joinable = False, wq_joining = False, wq_blocked = [], wq_accepted = [], wq_finished = []\<rparr>"

text \<open>\<open>None\<close>: a thread object that was not joined is overwritten, which terminates the process.\<close>

definition wq_start :: "'r wbq \<Rightarrow> 'r wbq option" where
  "wq_start q =
     (if wq_running q then Some q
      else if wq_joinable q then None
      else Some (q\<lparr>wq_running := True, wq_worker := WWaiting, wq_joinable := True\<rparr>))"

text \<open>The two parts of \<open>stop\<close>; the join waits until the worker has left its loop.\<close>

definition wq_stop :: "'r wbq \<Rightarrow> 'r wbq" where
  "wq_stop q = (if \<not> wq_running q then q else q\<lparr>wq_running := False, wq_joining := True\<rparr>)"

definition wq_join :: "'r wbq \<Rightarrow> 'r wbq option" where
  "wq_join q =
     (if wq_joining q \<and> wq_worker q = WIdle then Some (q\<lparr>wq_joining := False, wq_joinable := False\<rparr>) else None)"

definition wq_push :: "'r \<Rightarrow> 'r wbq \<Rightarrow> 'r wbq" where
  "wq_push r q = q\<lparr>wq_queue := wq_queue q @ [r], wq_pending := wq_pending q + 1, wq_accepted := wq_accepted q @ [r]\<rparr>"

text \<open>\<open>enqueue\<close>: at once, or going to sleep, or waking up because the queue is empty.\<close>

definition wq_must_wait :: "'r wbq \<Rightarrow> bool" where
  "wq_must_wait q \<longleftrightarrow> wq_high q < length (wq_queue q)"

definition wq_enqueue :: "'r \<Rightarrow> 'r wbq \<Rightarrow> 'r wbq" where
  "wq_enqueue r q = (if wq_must_wait q then q\<lparr>wq_blocked := r # wq_blocked q\<rparr> else wq_push r q)"

definition wq_wake :: "'r \<Rightarrow> 'r wbq \<Rightarrow> 'r wbq option" where
  "wq_wake r q =
     (if r \<in> set (wq_blocked q) \<and> wq_queue q = []
      then Some (wq_push r (q\<lparr>wq_blocked := remove1 r (wq_blocked q)\<rparr>)) else None)"

definition wq_drained :: "'r wbq \<Rightarrow> bool" where
  "wq_drained q \<longleftrightarrow> wq_queue q = [] \<and> wq_pending q = 0"

definition wq_clear_pending :: "'r wbq \<Rightarrow> 'r wbq" where
  "wq_clear_pending q =
     (let dropped = length (wq_queue q)
      in q\<lparr>wq_queue := [], wq_pending := (if dropped \<le> wq_pending q then wq_pending q - dropped else 0),
           wq_accepted := take (length (wq_accepted q) - dropped) (wq_accepted q)\<rparr>)"

text \<open>The top of the worker loop: take a request, or leave, or sleep (\<open>None\<close>).\<close>

definition wq_take :: "'r wbq \<Rightarrow> 'r wbq option" where
  "wq_take q =
     (case wq_queue q of
        [] \<Rightarrow> if wq_running q then None else Some (q\<lparr>wq_worker := WIdle\<rparr>)
      | r # rs \<Rightarrow> Some (q\<lparr>wq_queue := rs, wq_worker := WTrying r 0\<rparr>))"

datatype attempt = Succeeds | Fails | Throws

definition wq_attempt :: "'r \<Rightarrow> nat \<Rightarrow> attempt \<Rightarrow> 'r wbq \<Rightarrow> 'r wbq" where
  "wq_attempt r k a q = q\<lparr>wq_worker :=
     (case a of
        Succeeds \<Rightarrow> WCompleting r
      | Fails \<Rightarrow> if k < kMaxWriteBackRetries then WTrying r (k + 1) else WFailing r
      | Throws \<Rightarrow> WFailing r)\<rparr>"

definition wq_finish :: "'r \<Rightarrow> 'r wbq \<Rightarrow> 'r wbq" where
  "wq_finish r q = q\<lparr>wq_pending := wq_pending q - 1, wq_worker := WWaiting, wq_finished := wq_finished q @ [r]\<rparr>"

text \<open>
  The steps of the worker.  After a failed write the worker calls \<open>graceful_exit\<close>, which ends the
  process unless another thread has initiated the exit already; then it returns and the loop goes on.
\<close>

inductive worker_step :: "'r wbq \<Rightarrow> 'r wbq \<Rightarrow> bool" where
  ws_take: "\<lbrakk>wq_worker q = WWaiting; wq_take q = Some q'\<rbrakk> \<Longrightarrow> worker_step q q'"
| ws_attempt: "wq_worker q = WTrying r k \<Longrightarrow> worker_step q (wq_attempt r k a q)"
| ws_complete: "wq_worker q = WCompleting r \<Longrightarrow> worker_step q (wq_finish r q)"
| ws_exit: "wq_worker q = WFailing r \<Longrightarrow> worker_step q (q\<lparr>wq_worker := WExiting r\<rparr>)"
| ws_exit_again: "wq_worker q = WFailing r \<Longrightarrow> worker_step q (wq_finish r q)"

text \<open>The steps of the other threads.\<close>

inductive client_step :: "'r wbq \<Rightarrow> 'r wbq \<Rightarrow> bool" where
  cs_start: "wq_start q = Some q' \<Longrightarrow> client_step q q'"
| cs_stop: "client_step q (wq_stop q)"
| cs_join: "wq_join q = Some q' \<Longrightarrow> client_step q q'"
| cs_enqueue: "client_step q (wq_enqueue r q)"
| cs_wake: "wq_wake r q = Some q' \<Longrightarrow> client_step q q'"
| cs_clear: "client_step q (wq_clear_pending q)"

definition wbq_step :: "'r wbq \<Rightarrow> 'r wbq \<Rightarrow> bool" where
  "wbq_step q q' \<longleftrightarrow> worker_step q q' \<or> client_step q q'"

definition wbq_reachable :: "nat \<Rightarrow> 'r wbq \<Rightarrow> bool" where
  "wbq_reachable high = wbq_step\<^sup>*\<^sup>* (new_wbq high)"

inductive_cases worker_stepE: "worker_step q q'"
inductive_cases client_stepE: "client_step q q'"

section \<open>Accounting\<close>

text \<open>The request the worker has taken and not finished.\<close>

fun in_flight :: "'r wb_worker \<Rightarrow> 'r list" where
  "in_flight (WTrying r k) = [r]"
| "in_flight (WCompleting r) = [r]"
| "in_flight (WFailing r) = [r]"
| "in_flight (WExiting r) = [r]"
| "in_flight _ = []"

definition wbq_inv :: "'r wbq \<Rightarrow> bool" where
  "wbq_inv q \<longleftrightarrow>
     wq_accepted q = wq_finished q @ in_flight (wq_worker q) @ wq_queue q \<and>
     wq_pending q = length (in_flight (wq_worker q)) + length (wq_queue q) \<and>
     length (wq_queue q) \<le> wq_high q + 1 \<and>
     (wq_running q \<longrightarrow> wq_worker q \<noteq> WIdle) \<and> (wq_worker q \<noteq> WIdle \<longrightarrow> wq_joinable q)"

lemma wbq_inv_new: "wbq_inv (new_wbq high)"
  by (simp add: wbq_inv_def new_wbq_def)

lemma wbq_inv_worker:
  assumes "wbq_inv q" "worker_step q q'"
  shows "wbq_inv q'"
  using assms(2,1)
  by cases (auto simp: wbq_inv_def wq_take_def wq_attempt_def wq_finish_def split: list.splits attempt.splits if_splits)

lemma wbq_inv_client:
  assumes "wbq_inv q" "client_step q q'"
  shows "wbq_inv q'"
  using assms(2,1)
  by cases (auto simp: wbq_inv_def wq_start_def wq_stop_def wq_join_def wq_enqueue_def wq_wake_def wq_push_def wq_must_wait_def
      wq_clear_pending_def Let_def split: if_splits)

lemma step_high: "wbq_step q q' \<Longrightarrow> wq_high q' = wq_high q"
  by (auto simp: wbq_step_def wq_start_def wq_stop_def wq_join_def wq_enqueue_def wq_wake_def wq_push_def wq_clear_pending_def
      wq_take_def wq_attempt_def wq_finish_def Let_def elim!: worker_stepE client_stepE split: if_splits list.splits)

lemma wbq_reachable_inv:
  assumes "wbq_reachable high q"
  shows "wbq_inv q \<and> wq_high q = high"
  using assms unfolding wbq_reachable_def
proof (induction rule: rtranclp_induct)
  case base
  then show ?case by (simp add: wbq_inv_new) (simp add: new_wbq_def)
next
  case (step q q')
  have "wbq_inv q'" using step wbq_inv_worker wbq_inv_client unfolding wbq_step_def by blast
  then show ?case using step step_high [of q q'] by simp
qed

section \<open>Progress of the worker\<close>

text \<open>An upper bound on the number of steps the worker can still take on its own.\<close>

fun phase_steps :: "'r wb_worker \<Rightarrow> nat" where
  "phase_steps WIdle = 0"
| "phase_steps WWaiting = 1"
| "phase_steps (WTrying r k) = 4 + (kMaxWriteBackRetries - k)"
| "phase_steps (WCompleting r) = 2"
| "phase_steps (WFailing r) = 3"
| "phase_steps (WExiting r) = 0"

definition worker_bound :: "'r wbq \<Rightarrow> nat" where
  "worker_bound q = phase_steps (wq_worker q) + (kMaxWriteBackRetries + 5) * length (wq_queue q)"

lemma worker_step_bound: "worker_step q q' \<Longrightarrow> worker_bound q' < worker_bound q"
  by (erule worker_stepE)
     (auto simp: worker_bound_def wq_take_def wq_attempt_def wq_finish_def kMaxWriteBackRetries_def
       split: list.splits attempt.splits if_splits)

lemma worker_steps_bound:
  assumes "(worker_step ^^ n) q q'"
  shows "n + worker_bound q' \<le> worker_bound q"
  using assms
proof (induction n arbitrary: q')
  case (Suc n)
  then obtain p where "(worker_step ^^ n) q p" "worker_step p q'" by auto
  then show ?case using Suc.IH [of p] worker_step_bound [of p q'] by linarith
qed simp

text \<open>A worker that cannot step is out of work, or the process is exiting.\<close>

lemma worker_stuck:
  assumes "\<nexists>q'. worker_step q q'"
  shows "wq_worker q = WIdle \<or> (\<exists>r. wq_worker q = WExiting r) \<or> (wq_worker q = WWaiting \<and> wq_queue q = [] \<and> wq_running q)"
proof (cases "wq_worker q")
  case WWaiting
  then have "wq_take q = None" using assms ws_take by (cases "wq_take q") blast+
  then show ?thesis using WWaiting by (auto simp: wq_take_def split: list.splits if_splits)
next
  case (WTrying r k)
  then show ?thesis using assms ws_attempt [of q r k Succeeds] by blast
next
  case (WCompleting r)
  then show ?thesis using assms ws_complete [of q r] by blast
next
  case (WFailing r)
  then show ?thesis using assms ws_exit [of q r] by blast
qed simp_all

lemma idle_stays: "worker_step\<^sup>*\<^sup>* q q' \<Longrightarrow> wq_worker q \<noteq> WIdle \<Longrightarrow> wq_worker q' = WIdle \<Longrightarrow> wq_queue q' = []"
proof (induction rule: rtranclp_induct)
  case (step p q')
  then show ?case
    by (auto simp: wq_take_def wq_attempt_def wq_finish_def elim!: worker_stepE split: list.splits attempt.splits if_splits)
qed simp

section \<open>Properties\<close>

text \<open>
  C24: In every reachable state of every interleaving, the pending counter is the number of queued
  requests plus the one the worker is processing (so it never underflows), at most one request more
  than the high watermark is queued, and the accepted requests are, in order, those finished, the one in
  process and those queued.  When a drain returns, every accepted request is finished.
\<close>

theorem wbq_accounting:
  assumes "wbq_reachable high q"
  shows "wq_pending q = length (in_flight (wq_worker q)) + length (wq_queue q) \<and>
    length (wq_queue q) \<le> high + 1 \<and>
    wq_accepted q = wq_finished q @ in_flight (wq_worker q) @ wq_queue q \<and>
    (wq_drained q \<longrightarrow> wq_finished q = wq_accepted q)"
  using wbq_reachable_inv [OF assms] by (auto simp: wbq_inv_def wq_drained_def)

theorem wbq_accounting_witness:
  "wq_pending (wq_push (2 :: nat) (wq_push 1 (new_wbq 10))) = 2"
proof -
  have "wbq_step (new_wbq 10) (wq_push (1 :: nat) (new_wbq 10))"
    using cs_enqueue [of "new_wbq 10" "1 :: nat"] by (simp add: wbq_step_def wq_enqueue_def wq_must_wait_def new_wbq_def)
  moreover have "wbq_step (wq_push (1 :: nat) (new_wbq 10)) (wq_push 2 (wq_push 1 (new_wbq 10)))"
    using cs_enqueue [of "wq_push (1 :: nat) (new_wbq 10)" 2]
    by (simp add: wbq_step_def wq_enqueue_def wq_must_wait_def wq_push_def new_wbq_def)
  ultimately have "wbq_reachable 10 (wq_push (2 :: nat) (wq_push 1 (new_wbq 10)))"
    unfolding wbq_reachable_def by auto
  from wbq_accounting [OF this] show ?thesis by (simp add: wq_push_def new_wbq_def)
qed

text \<open>
  C25: The worker makes progress.  Left alone, from any reachable state with a worker, it stops after a
  number of steps bounded by the queue length and the retry limit, however its write attempts turn out;
  and when it can go no further, the queue is drained or the process is exiting because a write failed
  for good.
\<close>

theorem worker_drains:
  assumes "wbq_reachable high q" and "wq_worker q \<noteq> WIdle" and "(worker_step ^^ n) q q'"
  shows "n \<le> worker_bound q \<and>
    ((\<nexists>q''. worker_step q' q'') \<longrightarrow> wq_drained q' \<or> (\<exists>r. wq_worker q' = WExiting r))"
proof (intro conjI impI)
  show "n \<le> worker_bound q" using worker_steps_bound [OF assms(3)] by simp
  assume stuck: "\<nexists>q''. worker_step q' q''"
  have steps: "worker_step\<^sup>*\<^sup>* q q'" using assms(3) by (rule relpowp_imp_rtranclp)
  moreover have "wbq_inv q" using wbq_reachable_inv [OF assms(1)] by simp
  ultimately have "wbq_inv q'" by (induction rule: rtranclp_induct) (auto intro: wbq_inv_worker)
  then show "wq_drained q' \<or> (\<exists>r. wq_worker q' = WExiting r)"
    using worker_stuck [OF stuck] idle_stays [OF steps assms(2)] by (auto simp: wq_drained_def wbq_inv_def)
qed

theorem worker_drains_witness:
  "let q = wq_push (1 :: nat) ((new_wbq 10)\<lparr>wq_running := True, wq_worker := WWaiting, wq_joinable := True\<rparr>);
       q' = wq_finish 1 (wq_attempt 1 0 Succeeds (q\<lparr>wq_queue := [], wq_worker := WTrying 1 0\<rparr>))
   in (worker_step ^^ 3) q q' \<and> 3 \<le> worker_bound q \<and> wq_drained q'"
proof -
  define s where "s = (new_wbq 10 :: nat wbq)\<lparr>wq_running := True, wq_worker := WWaiting, wq_joinable := True\<rparr>"
  define q where "q = wq_push (1 :: nat) s"
  define t where "t = q\<lparr>wq_queue := [], wq_worker := WTrying 1 0\<rparr>"
  define q' where "q' = wq_finish 1 (wq_attempt 1 0 Succeeds t)"
  have "wbq_step (new_wbq 10) s" using cs_start [of "new_wbq 10" s] by (simp add: wbq_step_def wq_start_def new_wbq_def s_def)
  moreover have "wbq_step s q"
    using cs_enqueue [of s 1] by (simp add: wbq_step_def wq_enqueue_def wq_must_wait_def q_def s_def new_wbq_def)
  ultimately have reach: "wbq_reachable 10 q" unfolding wbq_reachable_def by auto
  have steps: "worker_step q t" "worker_step t (wq_attempt 1 0 Succeeds t)" "worker_step (wq_attempt 1 0 Succeeds t) q'"
    using ws_take [of q t] ws_attempt [of t 1 0 Succeeds] ws_complete [of "wq_attempt 1 0 Succeeds t" 1]
    by (simp_all add: t_def q'_def q_def s_def wq_push_def wq_take_def wq_attempt_def new_wbq_def)
  then have three: "(worker_step ^^ 3) q q'" by (auto simp: numeral_3_eq_3)
  have w': "wq_worker q' = WWaiting" "wq_queue q' = []" "wq_running q'"
    by (simp_all add: q'_def wq_finish_def wq_attempt_def t_def q_def s_def wq_push_def new_wbq_def)
  have "\<nexists>q''. worker_step q' q''" using w' by (auto simp: wq_take_def elim!: worker_stepE)
  then have "3 \<le> worker_bound q \<and> wq_drained q'"
    using worker_drains [OF reach _ three] w' by (simp add: q_def s_def wq_push_def)
  then show ?thesis using three by (simp add: Let_def q'_def t_def q_def s_def)
qed

text \<open>The steps that neither start nor clear the queue.\<close>

inductive idle_step :: "'r wbq \<Rightarrow> 'r wbq \<Rightarrow> bool" where
  is_worker: "worker_step q q' \<Longrightarrow> idle_step q q'"
| is_stop: "idle_step q (wq_stop q)"
| is_join: "wq_join q = Some q' \<Longrightarrow> idle_step q q'"
| is_enqueue: "idle_step q (wq_enqueue r q)"
| is_wake: "wq_wake r q = Some q' \<Longrightarrow> idle_step q q'"

inductive_cases idle_stepE: "idle_step q q'"

text \<open>What such steps keep once the worker has left and requests are queued.\<close>

definition abandoned :: "'r wbq \<Rightarrow> 'r wbq \<Rightarrow> bool" where
  "abandoned p q \<longleftrightarrow> wq_worker q = WIdle \<and> \<not> wq_running q \<and> wq_queue p \<noteq> [] \<and>
     (\<exists>rs. wq_queue q = wq_queue p @ rs) \<and> set (wq_blocked p) \<subseteq> set (wq_blocked q) \<and> wq_finished q = wq_finished p"

lemma abandoned_step: "abandoned p q \<Longrightarrow> idle_step q q' \<Longrightarrow> abandoned p q'"
  by (erule idle_stepE)
     (auto simp: abandoned_def wq_stop_def wq_join_def wq_enqueue_def wq_wake_def wq_push_def elim!: worker_stepE split: if_splits)

text \<open>
  C26: \<open>enqueue\<close> does not look at the running flag.  A request that is enqueued when the queue is stopped
  and its worker has left is never written: it is taken into the queue, or its producer sleeps in
  \<open>enqueue\<close>, and this stays so whatever producers, stops, joins and the worker do.  Until someone
  starts the queue again or clears it, nothing more is finished and no drain returns.
\<close>

theorem enqueue_after_stop_stuck:
  assumes "wbq_reachable high q" and "wq_worker q = WIdle" and "\<not> wq_running q"
    and "idle_step\<^sup>*\<^sup>* (wq_enqueue r q) q'"
  shows "(if length (wq_queue q) \<le> high then r \<in> set (wq_queue q') else r \<in> set (wq_blocked q')) \<and>
    wq_finished q' = wq_finished q \<and> \<not> wq_drained q'"
proof -
  have high: "wq_high q = high" using wbq_reachable_inv [OF assms(1)] by simp
  have "abandoned (wq_enqueue r q) (wq_enqueue r q)"
    using assms(2,3) by (auto simp: abandoned_def wq_enqueue_def wq_must_wait_def wq_push_def)
  with assms(4) have "abandoned (wq_enqueue r q) q'"
    by (induction rule: rtranclp_induct) (auto intro: abandoned_step)
  then show ?thesis
    using high by (auto simp: abandoned_def wq_drained_def wq_enqueue_def wq_must_wait_def wq_push_def split: if_splits)
qed

definition demo_stopped :: "nat wbq" where
  "demo_stopped = (wq_stop (the (wq_start (new_wbq 10))))\<lparr>wq_worker := WIdle\<rparr>"

lemma demo_stopped_reachable: "wbq_reachable 10 demo_stopped"
proof -
  let ?s = "the (wq_start (new_wbq 10)) :: nat wbq"
  have "wbq_step (new_wbq 10) ?s" using cs_start [of "new_wbq 10" ?s] by (simp add: wbq_step_def wq_start_def new_wbq_def)
  moreover have "wbq_step ?s (wq_stop ?s)" using cs_stop [of ?s] by (simp add: wbq_step_def)
  moreover have "wbq_step (wq_stop ?s) demo_stopped"
    using ws_take [of "wq_stop ?s" demo_stopped]
    by (simp add: wbq_step_def demo_stopped_def wq_take_def wq_stop_def wq_start_def new_wbq_def)
  ultimately show ?thesis unfolding wbq_reachable_def by (meson rtranclp.rtrancl_into_rtrancl rtranclp.rtrancl_refl)
qed

theorem enqueue_after_stop_stuck_witness:
  "let q' = the (wq_join (wq_enqueue 1 demo_stopped)) in 1 \<in> set (wq_queue q') \<and> \<not> wq_drained q'"
proof -
  have q: "wq_worker demo_stopped = WIdle" "\<not> wq_running demo_stopped" "wq_queue demo_stopped = []" "wq_joining demo_stopped"
    by (simp_all add: demo_stopped_def wq_stop_def wq_start_def new_wbq_def)
  then have "wq_join (wq_enqueue 1 demo_stopped) = Some (the (wq_join (wq_enqueue 1 demo_stopped)))"
    by (simp add: wq_join_def wq_enqueue_def wq_push_def wq_must_wait_def)
  then have "idle_step\<^sup>*\<^sup>* (wq_enqueue 1 demo_stopped) (the (wq_join (wq_enqueue 1 demo_stopped)))"
    by (intro r_into_rtranclp is_join)
  from enqueue_after_stop_stuck [OF demo_stopped_reachable q(1,2) this] q(3) show ?thesis by (simp add: Let_def)
qed

end
