(* ===== verification/Object_Cache.thy ===== *)
theory Object_Cache
  imports Fly_Prelude Complex_Main
begin

text \<open>
  The read cache of src/storage/cpp/object_cache.h.  The type-erased value of an entry is a value with a
  type tag.  Times are rational seconds and scores rational numbers where the code uses doubles.  The
  unordered map is an association list; candidates with equal scores are evicted in its order, which
  the code leaves open.  Every method holds the mutex, so operations are atomic; clock readings are
  arguments.
\<close>

section \<open>Model\<close>

record ('t, 'v) cache_entry =
  ce_type :: 't
  ce_value :: 'v
  ce_size :: nat
  ce_last_access :: rat
  ce_created_at :: rat
  ce_read_count :: nat

record cache_stats =
  st_hits :: nat
  st_misses :: nat
  st_puts :: nat
  st_evictions :: nat

definition zero_stats :: cache_stats where
  "zero_stats = \<lparr>st_hits = 0, st_misses = 0, st_puts = 0, st_evictions = 0\<rparr>"

record ('t, 'v) object_cache =
  oc_high :: "(string \<times> ('t, 'v) cache_entry) list"
  oc_bytes :: nat
  oc_max :: nat
  oc_hard :: nat
  oc_stats :: cache_stats

text \<open>\<open>configured\<close> is the value of \<open>read_cache_size\<close>, 0 when it cannot be read.\<close>

definition load_max_bytes :: "nat \<Rightarrow> nat" where
  "load_max_bytes configured = (if 0 < configured then configured else 2 ^ 30)"

definition empty_cache :: "nat \<Rightarrow> ('t, 'v) object_cache" where
  "empty_cache mx = \<lparr>oc_high = [], oc_bytes = 0, oc_max = mx, oc_hard = mx + mx div 2, oc_stats = zero_stats\<rparr>"

definition PROTECTION_SEC :: rat where
  "PROTECTION_SEC = 30"

definition score :: "rat \<Rightarrow> ('t, 'v) cache_entry \<Rightarrow> rat" where
  "score now e =
     (let age = now - ce_last_access e; age = (if age < 1 / 1000 then 1 / 1000 else age)
      in rat_of_nat (ce_read_count e) / age)"

definition touch_entry :: "rat \<Rightarrow> ('t, 'v) cache_entry \<Rightarrow> ('t, 'v) cache_entry" where
  "touch_entry now e = e\<lparr>ce_last_access := now, ce_read_count := ce_read_count e + 1\<rparr>"

definition get_high :: "rat \<Rightarrow> 't \<Rightarrow> string \<Rightarrow> ('t, 'v) object_cache \<Rightarrow> 'v option \<times> ('t, 'v) object_cache" where
  "get_high now t key oc =
     (let miss = oc\<lparr>oc_stats := (oc_stats oc)\<lparr>st_misses := st_misses (oc_stats oc) + 1\<rparr>\<rparr>
      in case map_of (oc_high oc) key of
           None \<Rightarrow> (None, miss)
         | Some e \<Rightarrow>
             if ce_type e \<noteq> t then (None, miss)
             else (Some (ce_value e), oc\<lparr>oc_high := AList.update key (touch_entry now e) (oc_high oc),
                     oc_stats := (oc_stats oc)\<lparr>st_hits := st_hits (oc_stats oc) + 1\<rparr>\<rparr>))"

text \<open>The candidates for eviction and the loop over them in ascending order of score.\<close>

definition candidates :: "rat \<Rightarrow> ('t, 'v) object_cache \<Rightarrow> (string \<times> ('t, 'v) cache_entry) list" where
  "candidates now oc =
     (let old = filter (\<lambda>(k, e). PROTECTION_SEC \<le> now - ce_created_at e) (oc_high oc)
      in if old = [] \<and> oc_hard oc < oc_bytes oc then oc_high oc else old)"

fun evict_loop :: "(string \<times> ('t, 'v) cache_entry) list \<Rightarrow> ('t, 'v) object_cache \<Rightarrow> ('t, 'v) object_cache" where
  "evict_loop [] oc = oc"
| "evict_loop ((k, e) # cs) oc =
     (if oc_bytes oc \<le> oc_max oc then oc
      else evict_loop cs (oc\<lparr>oc_bytes := oc_bytes oc - ce_size e, oc_high := AList.delete k (oc_high oc),
             oc_stats := (oc_stats oc)\<lparr>st_evictions := st_evictions (oc_stats oc) + 1\<rparr>\<rparr>))"

definition evict :: "rat \<Rightarrow> ('t, 'v) object_cache \<Rightarrow> ('t, 'v) object_cache" where
  "evict now oc =
     (if oc_bytes oc \<le> oc_max oc then oc
      else evict_loop (sort_key (\<lambda>(k, e). score now e) (candidates now oc)) oc)"

text \<open>\<open>now\<close> is read for the entry, \<open>now'\<close> for the eviction.\<close>

definition put_high :: "rat \<Rightarrow> rat \<Rightarrow> 't \<Rightarrow> string \<Rightarrow> 'v \<Rightarrow> nat \<Rightarrow> ('t, 'v) object_cache \<Rightarrow> ('t, 'v) object_cache" where
  "put_high now now' t key v sz oc =
     (let e = \<lparr>ce_type = t, ce_value = v, ce_size = sz, ce_last_access = now, ce_created_at = now, ce_read_count = 1\<rparr>;
          bytes = (case map_of (oc_high oc) key of None \<Rightarrow> oc_bytes oc | Some old \<Rightarrow> oc_bytes oc - ce_size old)
      in evict now' (oc\<lparr>oc_high := AList.update key e (oc_high oc), oc_bytes := bytes + sz,
           oc_stats := (oc_stats oc)\<lparr>st_puts := st_puts (oc_stats oc) + 1\<rparr>\<rparr>))"

definition oc_remove :: "string \<Rightarrow> ('t, 'v) object_cache \<Rightarrow> ('t, 'v) object_cache" where
  "oc_remove key oc =
     (case map_of (oc_high oc) key of
        None \<Rightarrow> oc
      | Some e \<Rightarrow> oc\<lparr>oc_bytes := oc_bytes oc - ce_size e, oc_high := AList.delete key (oc_high oc)\<rparr>)"

definition oc_clear :: "('t, 'v) object_cache \<Rightarrow> ('t, 'v) object_cache" where
  "oc_clear oc = oc\<lparr>oc_high := [], oc_bytes := 0, oc_stats := zero_stats\<rparr>"

definition reset_for_test :: "nat \<Rightarrow> ('t, 'v) object_cache \<Rightarrow> ('t, 'v) object_cache" where
  "reset_for_test mx oc = oc\<lparr>oc_high := [], oc_bytes := 0, oc_max := mx, oc_hard := mx + mx div 2, oc_stats := zero_stats\<rparr>"

definition high_hit_rate :: "('t, 'v) object_cache \<Rightarrow> rat" where
  "high_hit_rate oc =
     (let h = st_hits (oc_stats oc); tot = h + st_misses (oc_stats oc)
      in if tot = 0 then 0 else rat_of_nat h / rat_of_nat tot)"

section \<open>Invariant\<close>

definition total_size :: "(string \<times> ('t, 'v) cache_entry) list \<Rightarrow> nat" where
  "total_size m = sum_list (map (ce_size \<circ> snd) m)"

definition cache_inv :: "('t, 'v) object_cache \<Rightarrow> bool" where
  "cache_inv oc \<longleftrightarrow> umap_ok (oc_high oc) \<and> oc_bytes oc = total_size (oc_high oc) \<and>
     oc_hard oc = oc_max oc + oc_max oc div 2"

lemma total_size_delete:
  assumes "umap_ok m" "map_of m k = Some e"
  shows "total_size (AList.delete k m) + ce_size e = total_size m"
  using assms
proof (induction m)
  case (Cons x m)
  obtain k' e' where x: "x = (k', e')" by (cases x)
  show ?case
  proof (cases "k' = k")
    case True
    then have "k \<notin> fst ` set m" "e' = e" using Cons.prems x by (auto simp: umap_ok_def)
    then show ?thesis using True x by (simp add: total_size_def delete_conv filter_id_conv rev_image_eqI)
  next
    case False
    then show ?thesis using Cons x by (simp add: total_size_def umap_ok_def)
  qed
qed simp

lemma total_size_update:
  assumes "umap_ok m"
  shows "total_size (AList.update k e m) =
    (case map_of m k of None \<Rightarrow> total_size m | Some old \<Rightarrow> total_size m - ce_size old) + ce_size e"
  using assms
proof (induction m)
  case (Cons x m)
  obtain k' e' where x: "x = (k', e')" by (cases x)
  show ?case
  proof (cases "k' = k")
    case True
    then show ?thesis using x by (simp add: total_size_def)
  next
    case False
    have "ce_size old \<le> total_size m" if "map_of m k = Some old" for old
      using total_size_delete [of m k old] Cons.prems that by (simp add: umap_ok_def)
    then show ?thesis using Cons False x by (auto simp: total_size_def umap_ok_def split: option.splits)
  qed
qed (simp add: total_size_def)

text \<open>Deleting an entry as the eviction loop and \<open>remove\<close> do.\<close>

lemma cache_inv_delete:
  assumes "cache_inv oc" "map_of (oc_high oc) k = Some e"
  shows "cache_inv (oc\<lparr>oc_bytes := oc_bytes oc - ce_size e, oc_high := AList.delete k (oc_high oc), oc_stats := st\<rparr>)"
  using assms total_size_delete [of "oc_high oc" k e] by (auto simp: cache_inv_def)

definition from_cache :: "(string \<times> ('t, 'v) cache_entry) list \<Rightarrow> ('t, 'v) object_cache \<Rightarrow> bool" where
  "from_cache cs oc \<longleftrightarrow> distinct (map fst cs) \<and> (\<forall>(k, e) \<in> set cs. map_of (oc_high oc) k = Some e)"

definition evicts :: "(string \<times> ('t, 'v) cache_entry) list \<Rightarrow> ('t, 'v) object_cache \<Rightarrow> ('t, 'v) object_cache \<Rightarrow> bool" where
  "evicts cs oc oc' \<longleftrightarrow> cache_inv oc' \<and> map_of (oc_high oc') \<subseteq>\<^sub>m map_of (oc_high oc) \<and> oc_max oc' = oc_max oc \<and>
     (oc_max oc < oc_bytes oc' \<longrightarrow> (\<forall>k \<in> fst ` set cs. map_of (oc_high oc') k = None))"

lemma evict_loop_evicts:
  assumes "cache_inv oc" "from_cache cs oc"
  shows "evicts cs oc (evict_loop cs oc)"
  using assms
proof (induction cs arbitrary: oc)
  case (Cons x cs)
  obtain k e where x: "x = (k, e)" by (cases x)
  let ?oc = "oc\<lparr>oc_bytes := oc_bytes oc - ce_size e, oc_high := AList.delete k (oc_high oc),
    oc_stats := (oc_stats oc)\<lparr>st_evictions := st_evictions (oc_stats oc) + 1\<rparr>\<rparr>"
  have e: "map_of (oc_high oc) k = Some e" using Cons.prems x by (simp add: from_cache_def)
  show ?case
  proof (cases "oc_bytes oc \<le> oc_max oc")
    case True
    then show ?thesis using Cons.prems x by (simp add: evicts_def)
  next
    case False
    have "cache_inv ?oc" by (rule cache_inv_delete [OF Cons.prems(1) e])
    moreover have "from_cache cs ?oc" using Cons.prems(2) x by (force simp: from_cache_def)
    ultimately have ih: "evicts cs ?oc (evict_loop cs ?oc)" by (rule Cons.IH)
    then have sub: "map_of (oc_high (evict_loop cs ?oc)) \<subseteq>\<^sub>m (map_of (oc_high oc))(k := None)" by (simp add: evicts_def)
    then have "map_of (oc_high (evict_loop cs ?oc)) k = None" by (auto simp: map_le_def dom_def)
    moreover have "map_of (oc_high (evict_loop cs ?oc)) \<subseteq>\<^sub>m map_of (oc_high oc)"
      using map_le_trans [OF sub] by (simp add: map_le_def)
    ultimately show ?thesis using ih False x by (simp add: evicts_def)
  qed
qed (simp add: evicts_def)

lemma candidates_from_cache:
  assumes "cache_inv oc"
  shows "from_cache (sort_key f (candidates now oc)) oc"
proof -
  have "distinct (map fst (sort_key f xs)) \<longleftrightarrow> distinct (map fst xs)" for xs :: "(string \<times> ('a, 'b) cache_entry) list" and f
    by (metis distinct_map distinct_sort inj_on_def set_sort)
  moreover have "distinct (map fst (candidates now oc))" "set (candidates now oc) \<subseteq> set (oc_high oc)"
    using assms by (auto simp: candidates_def Let_def cache_inv_def umap_ok_def intro: distinct_map_filter)
  ultimately show ?thesis using assms by (auto simp: from_cache_def cache_inv_def umap_ok_def)
qed

lemma evict_evicts: "cache_inv oc \<Longrightarrow> evicts (if oc_bytes oc \<le> oc_max oc then [] else candidates now oc) oc (evict now oc)"
  using evict_loop_evicts [OF _ candidates_from_cache, of oc] by (auto simp: evict_def evicts_def)

lemma cache_inv_insert:
  assumes "cache_inv oc"
  shows "cache_inv (oc\<lparr>oc_high := AList.update k e (oc_high oc),
    oc_bytes := (case map_of (oc_high oc) k of None \<Rightarrow> oc_bytes oc | Some old \<Rightarrow> oc_bytes oc - ce_size old) + ce_size e,
    oc_stats := st\<rparr>)"
  using assms total_size_update [of "oc_high oc" k e] umap_ok_update [of "oc_high oc" k e]
  by (simp add: cache_inv_def split: option.split)

section \<open>The cache as a component\<close>

datatype ('t, 'v) cache_op =
  GetHigh rat 't string | PutHigh rat rat 't string 'v nat | Remove string | Clear | ResetForTest nat

fun cache_exec :: "('t, 'v) cache_op \<Rightarrow> ('t, 'v) object_cache \<Rightarrow> ('t, 'v) object_cache option" where
  "cache_exec (GetHigh now t k) oc = Some (snd (get_high now t k oc))"
| "cache_exec (PutHigh now now' t k v sz) oc = Some (put_high now now' t k v sz oc)"
| "cache_exec (Remove k) oc = Some (oc_remove k oc)"
| "cache_exec Clear oc = Some (oc_clear oc)"
| "cache_exec (ResetForTest mx) oc = Some (reset_for_test mx oc)"

text \<open>What was last put under a key and not removed since.\<close>

fun last_put :: "('t, 'v) cache_op \<Rightarrow> (string \<rightharpoonup> 't \<times> 'v) \<Rightarrow> (string \<rightharpoonup> 't \<times> 'v)" where
  "last_put (PutHigh now now' t k v sz) m = m(k \<mapsto> (t, v))"
| "last_put (Remove k) m = m(k := None)"
| "last_put Clear m = Map.empty"
| "last_put (ResetForTest mx) m = Map.empty"
| "last_put (GetHigh now t k) m = m"

definition cached :: "('t, 'v) object_cache \<Rightarrow> string \<rightharpoonup> 't \<times> 'v" where
  "cached oc k = map_option (\<lambda>e. (ce_type e, ce_value e)) (map_of (oc_high oc) k)"

lemma map_le_cached: "map_of (oc_high oc) \<subseteq>\<^sub>m map_of (oc_high oc') \<Longrightarrow> cached oc \<subseteq>\<^sub>m cached oc'"
  by (auto simp: map_le_def cached_def dom_def)

lemma put_high_evicts:
  fixes oc :: "('t, 'v) object_cache"
  assumes "cache_inv oc"
  obtains oc1 :: "('t, 'v) object_cache" where "put_high now now' t k v sz oc = evict now' oc1" "cache_inv oc1"
    "cached oc1 = (cached oc)(k \<mapsto> (t, v))" "oc_max oc1 = oc_max oc" "oc_hard oc1 = oc_hard oc"
proof
  define e where "e = \<lparr>ce_type = t, ce_value = v, ce_size = sz, ce_last_access = now, ce_created_at = now, ce_read_count = 1\<rparr>"
  define oc1 where "oc1 = oc\<lparr>oc_high := AList.update k e (oc_high oc),
    oc_bytes := (case map_of (oc_high oc) k of None \<Rightarrow> oc_bytes oc | Some old \<Rightarrow> oc_bytes oc - ce_size old) + ce_size e,
    oc_stats := (oc_stats oc)\<lparr>st_puts := st_puts (oc_stats oc) + 1\<rparr>\<rparr>"
  show "put_high now now' t k v sz oc = evict now' oc1" by (simp add: put_high_def Let_def oc1_def e_def)
  show "cache_inv oc1" unfolding oc1_def by (rule cache_inv_insert [OF assms])
  show "cached oc1 = (cached oc)(k \<mapsto> (t, v))" by (auto simp: cached_def oc1_def e_def)
  show "oc_max oc1 = oc_max oc" "oc_hard oc1 = oc_hard oc" by (simp_all add: oc1_def)
qed

lemma cache_step:
  assumes "cache_inv oc" "cache_exec op oc = Some oc'"
  shows "cache_inv oc' \<and> cached oc' \<subseteq>\<^sub>m last_put op (cached oc)"
proof (cases op)
  case (GetHigh now t k)
  have "cache_inv (oc\<lparr>oc_stats := st\<rparr>)" for st using assms(1) by (simp add: cache_inv_def)
  moreover have "cache_inv (oc\<lparr>oc_high := AList.update k (touch_entry now e) (oc_high oc), oc_stats := st\<rparr>)"
    if "map_of (oc_high oc) k = Some e" for e st
    using assms(1) that total_size_update [of "oc_high oc" k "touch_entry now e"] total_size_delete [of "oc_high oc" k e]
    by (simp add: cache_inv_def touch_entry_def umap_ok_update)
  ultimately show ?thesis using assms(2) GetHigh
    by (auto simp: get_high_def Let_def cached_def touch_entry_def map_le_def split: option.splits if_splits)
next
  case (PutHigh now now' t k v sz)
  obtain oc1 where oc1: "put_high now now' t k v sz oc = evict now' oc1" "cache_inv oc1" "cached oc1 = (cached oc)(k \<mapsto> (t, v))"
    using put_high_evicts [OF assms(1)] by blast
  have "evicts (if oc_bytes oc1 \<le> oc_max oc1 then [] else candidates now' oc1) oc1 (evict now' oc1)"
    by (rule evict_evicts [OF oc1(2)])
  then show ?thesis using assms(2) PutHigh oc1 map_le_cached [of "evict now' oc1" oc1] by (simp add: evicts_def)
next
  case (Remove k)
  have "cache_inv (oc_remove k oc)"
    using assms(1) cache_inv_delete [OF assms(1), of k _ "oc_stats oc"] by (auto simp: oc_remove_def split: option.split)
  moreover have "cached (oc_remove k oc) = (cached oc)(k := None)"
    by (auto simp: oc_remove_def cached_def fun_eq_iff split: option.split)
  ultimately show ?thesis using assms(2) Remove by simp
qed (use assms in \<open>auto simp: cache_inv_def oc_clear_def reset_for_test_def cached_def umap_ok_def total_size_def map_le_def\<close>)

interpretation oc: component_invariant cache_exec any_op "empty_cache mx" cache_inv for mx
proof unfold_locales
  show "cache_inv (empty_cache mx)" by (simp add: empty_cache_def cache_inv_def umap_ok_def total_size_def)
qed (use cache_step in blast)


lemma last_put_mono: "m \<subseteq>\<^sub>m m' \<Longrightarrow> last_put op m \<subseteq>\<^sub>m last_put op m'"
  by (cases op) (auto simp: map_le_def)

lemma run_cached:
  assumes "run_ops cache_exec any_op ops oc = Some oc'" "cache_inv oc" "cached oc \<subseteq>\<^sub>m m"
  shows "cached oc' \<subseteq>\<^sub>m fold last_put ops m"
  using assms
proof (induction ops arbitrary: oc m)
  case (Cons op ops)
  then obtain oc1 where oc1: "cache_exec op oc = Some oc1" "run_ops cache_exec any_op ops oc1 = Some oc'"
    by (auto split: option.splits)
  note st = cache_step [OF Cons.prems(2) oc1(1)]
  have "cached oc1 \<subseteq>\<^sub>m last_put op m" using st last_put_mono [OF Cons.prems(3)] map_le_trans by blast
  then show ?case using Cons.IH [OF oc1(2)] st by simp
qed simp

section \<open>Properties\<close>

text \<open>
  C27: The cache never returns a stale object.  After any sequence of operations a hit returns what was
  last put under the key with that type, and the key was not removed since; and the byte counter is
  the total size of the entries.
\<close>

theorem cache_never_stale:
  assumes "run_ops cache_exec any_op ops (empty_cache mx) = Some oc" and "fst (get_high now t k oc) = Some v"
  shows "fold last_put ops Map.empty k = Some (t, v) \<and> oc_bytes oc = total_size (oc_high oc)"
proof -
  have "cached (empty_cache mx) \<subseteq>\<^sub>m Map.empty" by (auto simp: cached_def empty_cache_def map_le_def)
  then have "cached oc \<subseteq>\<^sub>m fold last_put ops Map.empty" using run_cached [OF assms(1) oc.inv_init] by blast
  moreover have "cached oc k = Some (t, v)"
    using assms(2) by (auto simp: get_high_def cached_def Let_def split: option.splits if_splits)
  ultimately have "fold last_put ops Map.empty k = Some (t, v)" by (auto simp: map_le_def dom_def)
  moreover have "cache_inv oc" by (rule oc.run_inv [OF assms(1)])
  ultimately show ?thesis by (simp add: cache_inv_def)
qed

theorem cache_never_stale_witness:
  "let oc = put_high 1 1 ''T'' ''k'' (7 :: nat) 10 (put_high 0 0 ''T'' ''k'' 5 10 (empty_cache 100))
   in fst (get_high 2 ''T'' ''k'' oc) = Some 7 \<and> oc_bytes oc = total_size (oc_high oc)"
proof -
  define oc where "oc = put_high 1 1 ''T'' ''k'' (7 :: nat) 10 (put_high 0 0 ''T'' ''k'' 5 10 (empty_cache 100))"
  have hit: "fst (get_high 2 ''T'' ''k'' oc) = Some 7"
    by (simp add: oc_def put_high_def evict_def empty_cache_def get_high_def Let_def)
  have "run_ops cache_exec any_op [PutHigh 0 0 ''T'' ''k'' 5 10, PutHigh 1 1 ''T'' ''k'' 7 10] (empty_cache 100) = Some oc"
    by (simp add: oc_def)
  from cache_never_stale [OF this hit] show ?thesis using hit by (simp add: oc_def [symmetric] Let_def)
qed

text \<open>
  After a put the cache fits its limit, or everything left in it is younger than the protection
  window.
\<close>

theorem put_high_limit:
  assumes "cache_inv oc"
  shows "oc_bytes (put_high now now' t k v sz oc) \<le> oc_max oc \<or>
    (\<forall>(key, e) \<in> set (oc_high (put_high now now' t k v sz oc)). now' - ce_created_at e < PROTECTION_SEC)"
proof -
  obtain oc1 where oc1: "put_high now now' t k v sz oc = evict now' oc1" "cache_inv oc1" "oc_max oc1 = oc_max oc"
    using put_high_evicts [OF assms] by blast
  let ?oc = "evict now' oc1"
  have ev: "evicts (if oc_bytes oc1 \<le> oc_max oc1 then [] else candidates now' oc1) oc1 ?oc" by (rule evict_evicts [OF oc1(2)])
  show ?thesis
  proof (cases "oc_bytes ?oc \<le> oc_max oc")
    case False
    then have over: "\<not> oc_bytes oc1 \<le> oc_max oc1" using oc1(3) by (auto simp: evict_def)
    have "now' - ce_created_at e < PROTECTION_SEC" if e: "(key, e) \<in> set (oc_high ?oc)" for key e
    proof (rule ccontr)
      assume "\<not> now' - ce_created_at e < PROTECTION_SEC"
      moreover have "(key, e) \<in> set (oc_high oc1)" and live: "map_of (oc_high ?oc) key = Some e"
        using e ev oc1(2) by (auto simp: evicts_def cache_inv_def umap_mem_iff map_le_def dom_def)
      ultimately have "(key, e) \<in> set (candidates now' oc1)"
        by (auto simp: candidates_def Let_def)
      then have "map_of (oc_high ?oc) key = None"
        using ev over False oc1(3) by (force simp: evicts_def)
      then show False using live by simp
    qed
    then show ?thesis using oc1(1) by auto
  qed (simp add: oc1(1))
qed

theorem put_high_limit_witness:
  "oc_bytes (put_high 40 40 () ''b'' (2 :: nat) 60 (put_high 0 0 () ''a'' 1 60 (empty_cache 100))) \<le> 100 \<or>
    (\<forall>(key, e) \<in> set (oc_high (put_high 40 40 () ''b'' (2 :: nat) 60 (put_high 0 0 () ''a'' 1 60 (empty_cache 100)))).
      40 - ce_created_at e < PROTECTION_SEC)"
proof -
  have "cache_inv (put_high 0 0 () ''a'' (1 :: nat) 60 (empty_cache 100))"
    by (rule oc.run_inv [of "[PutHigh 0 0 () ''a'' 1 60]" 100]) simp
  moreover have "oc_max (put_high 0 0 () ''a'' (1 :: nat) 60 (empty_cache 100)) = 100"
    by (simp add: put_high_def evict_def empty_cache_def Let_def)
  ultimately show ?thesis using put_high_limit by metis
qed

text \<open>
  The hard limit of one and a half times the limit is not enforced.  When one unprotected entry is
  there, only unprotected entries are evicted, and a cache of limit 100 (hard limit 150) is left with
  200 bytes.
\<close>

theorem hard_limit_not_enforced:
  "let oc = put_high 31 31 () ''big'' (2 :: nat) 200 (put_high 0 0 () ''small'' 1 10 (empty_cache 100))
   in oc_hard oc = 150 \<and> oc_bytes oc = 200 \<and> map fst (oc_high oc) = [''big'']"
  by (simp add: put_high_def evict_def candidates_def empty_cache_def PROTECTION_SEC_def score_def Let_def)

end
