(* ===== verification/Remote_Index.thy ===== *)
theory Remote_Index
  imports Object_Cache "HOL-Library.Multiset"
begin

text \<open>
  The remote half of src/storage/cpp/data_service.h and .cpp: which workers hold a copy of an object,
  the registry of worker addresses, the order in which replicas are offered to a reader, and the
  read statistics that lead to a backup suggestion.  The two maps are association lists, in the
  iteration order of the unordered maps.  A method is one step, also
  \<open>update_remote_idx\<close>, which takes the locks of its three tables one after the other, so that another
  thread can see the tables between them; this is not modelled.  Clock readings, settings and the bandwidth score of a host are arguments.
\<close>

section \<open>Object names\<close>

text \<open>
  A full name is \<open>db_path:short_name\<close>, cut at the last colon.  \<open>split_full\<close> is the private helper of
  the service; \<open>split_full_name\<close> is the public one, which gives two empty strings when there is no
  colon.
\<close>

definition split_full :: "string \<Rightarrow> string \<times> string" where
  "split_full full =
     (let short = rev (takeWhile (\<lambda>c. c \<noteq> CHR '':'') (rev full))
      in if length short = length full then ([], full)
         else (take (length full - length short - 1) full, short))"

definition split_full_name :: "string \<Rightarrow> string \<times> string" where
  "split_full_name full = (if CHR '':'' \<notin> set full then ([], []) else split_full full)"

definition full_name :: "string \<Rightarrow> string \<Rightarrow> string" where
  "full_name db short = db @ '':'' @ short"

section \<open>State\<close>

record remote_meta =
  rm_workers :: "worker_id list"
  rm_read_count :: nat
  rm_last_access :: int
  rm_size :: int
  rm_accumulated :: nat
  rm_last_suggest :: int

definition new_meta :: remote_meta where
  "new_meta = \<lparr>rm_workers = [], rm_read_count = 0, rm_last_access = 0, rm_size = 0, rm_accumulated = 0,
     rm_last_suggest = 0\<rparr>"

record remote_info =
  ro_worker :: worker_id
  ro_host :: string
  ro_port :: int
  ro_storage_only :: bool
  ro_alive :: bool

definition no_info :: remote_info where
  "no_info = \<lparr>ro_worker = 0, ro_host = [], ro_port = 0, ro_storage_only = False, ro_alive = True\<rparr>"

record remote_index =
  ri_idx :: "(string \<times> (string \<times> remote_meta) list) list"
  ri_registry :: "(worker_id \<times> remote_info) list"

definition empty_remote_index :: remote_index where
  "empty_remote_index = \<lparr>ri_idx = [], ri_registry = []\<rparr>"

section \<open>Operations\<close>

text \<open>The nested lookup, and the assignment through \<open>operator[]\<close>, which creates missing entries.\<close>

definition find_meta :: "remote_index \<Rightarrow> string \<Rightarrow> remote_meta option" where
  "find_meta ri full =
     (case split_full full of (db, short) \<Rightarrow>
        (case map_of (ri_idx ri) db of None \<Rightarrow> None | Some objs \<Rightarrow> map_of objs short))"

definition at_meta :: "string \<Rightarrow> (remote_meta \<Rightarrow> remote_meta) \<Rightarrow> remote_index \<Rightarrow> remote_index" where
  "at_meta full f ri =
     (case split_full full of (db, short) \<Rightarrow>
        let objs = (case map_of (ri_idx ri) db of None \<Rightarrow> [] | Some objs \<Rightarrow> objs);
            meta = (case map_of objs short of None \<Rightarrow> new_meta | Some meta \<Rightarrow> meta)
        in ri\<lparr>ri_idx := AList.update db (AList.update short (f meta) objs) (ri_idx ri)\<rparr>)"

definition drop_meta :: "string \<Rightarrow> remote_index \<Rightarrow> remote_index" where
  "drop_meta full ri =
     (case split_full full of (db, short) \<Rightarrow>
        ri\<lparr>ri_idx := AList.map_entry db (AList.delete short) (ri_idx ri)\<rparr>)"

definition ds_register_worker :: "worker_id \<Rightarrow> string \<Rightarrow> int \<Rightarrow> bool \<Rightarrow> remote_index \<Rightarrow> remote_index" where
  "ds_register_worker w host port storage_only ri =
     ri\<lparr>ri_registry := AList.update w
       \<lparr>ro_worker = w, ro_host = host, ro_port = port, ro_storage_only = storage_only, ro_alive = True\<rparr> (ri_registry ri)\<rparr>"

definition add_remote_location :: "string \<Rightarrow> worker_id \<Rightarrow> remote_index \<Rightarrow> remote_index" where
  "add_remote_location full w =
     at_meta full (\<lambda>meta. if w \<in> set (rm_workers meta) then meta else meta\<lparr>rm_workers := rm_workers meta @ [w]\<rparr>)"

definition update_remote_idx ::
  "string \<Rightarrow> worker_id \<Rightarrow> string \<Rightarrow> int \<Rightarrow> int \<Rightarrow> bool \<Rightarrow> remote_index \<Rightarrow> remote_index" where
  "update_remote_idx full w host port size_bytes storage_only ri =
     (let ri = add_remote_location full w (ds_register_worker w host port storage_only ri)
      in if 0 < size_bytes then at_meta full (\<lambda>meta. meta\<lparr>rm_size := size_bytes\<rparr>) ri else ri)"

definition get_remote_size :: "remote_index \<Rightarrow> string \<Rightarrow> int" where
  "get_remote_size ri full = (case find_meta ri full of None \<Rightarrow> 0 | Some meta \<Rightarrow> rm_size meta)"

definition remove_remote_location :: "string \<Rightarrow> remote_index \<Rightarrow> remote_index" where
  "remove_remote_location full ri = drop_meta full ri"

text \<open>The replica is dropped in worker processes only: the master keeps the authoritative index.\<close>

definition remove_remote_replica :: "bool \<Rightarrow> string \<Rightarrow> worker_id \<Rightarrow> remote_index \<Rightarrow> remote_index" where
  "remove_remote_replica worker_mode full w ri =
     (if \<not> worker_mode then ri
      else case find_meta ri full of
          None \<Rightarrow> ri
        | Some meta \<Rightarrow>
            let ws = removeAll w (rm_workers meta)
            in if ws = [] then drop_meta full ri else at_meta full (\<lambda>m. m\<lparr>rm_workers := ws\<rparr>) ri)"

definition clear_remote_index_for_db :: "string \<Rightarrow> remote_index \<Rightarrow> remote_index" where
  "clear_remote_index_for_db db ri = ri\<lparr>ri_idx := AList.delete db (ri_idx ri)\<rparr>"

definition remove_remote_index ::
  "string \<Rightarrow> remote_index \<times> ('t, 'v) object_cache \<Rightarrow> remote_index \<times> ('t, 'v) object_cache" where
  "remove_remote_index full = (\<lambda>(ri, oc). (drop_meta full ri, oc_remove full oc))"

definition get_remote_workers :: "remote_index \<Rightarrow> string \<Rightarrow> worker_id list" where
  "get_remote_workers ri full = (case find_meta ri full of None \<Rightarrow> [] | Some meta \<Rightarrow> rm_workers meta)"

definition get_objects_of_worker :: "remote_index \<Rightarrow> worker_id \<Rightarrow> string list" where
  "get_objects_of_worker ri w =
     concat (map (\<lambda>(db, objs). map (\<lambda>(short, meta). full_name db short)
       (filter (\<lambda>(short, meta). w \<in> set (rm_workers meta)) objs)) (ri_idx ri))"

definition get_worker_bytes_batch :: "remote_index \<Rightarrow> worker_id list \<Rightarrow> (worker_id \<times> int) list" where
  "get_worker_bytes_batch ri ws =
     map (\<lambda>w. (w, sum_list (concat (map (\<lambda>(db, objs). concat (map (\<lambda>(short, meta).
       map (\<lambda>_. rm_size meta) (filter (\<lambda>holder. holder = w) (rm_workers meta))) objs)) (ri_idx ri))))) ws"

definition has_remote_location :: "remote_index \<Rightarrow> string \<Rightarrow> bool" where
  "has_remote_location ri full \<longleftrightarrow> get_remote_workers ri full \<noteq> []"

definition set_worker_alive :: "worker_id \<Rightarrow> bool \<Rightarrow> remote_index \<Rightarrow> remote_index" where
  "set_worker_alive w alive ri = ri\<lparr>ri_registry := AList.map_entry w (\<lambda>i. i\<lparr>ro_alive := alive\<rparr>) (ri_registry ri)\<rparr>"

definition is_storage_worker :: "remote_index \<Rightarrow> worker_id \<Rightarrow> bool" where
  "is_storage_worker ri w = (case map_of (ri_registry ri) w of None \<Rightarrow> False | Some i \<Rightarrow> ro_storage_only i)"

definition get_worker_address :: "remote_index \<Rightarrow> worker_id \<Rightarrow> remote_info" where
  "get_worker_address ri w = (case map_of (ri_registry ri) w of None \<Rightarrow> no_info | Some i \<Rightarrow> i)"

definition ds_all_workers :: "remote_index \<Rightarrow> remote_info list" where
  "ds_all_workers ri = map snd (ri_registry ri)"

definition lookup_remote_idx :: "remote_index \<Rightarrow> string \<Rightarrow> remote_info" where
  "lookup_remote_idx ri full =
     (case get_remote_workers ri full of
        [] \<Rightarrow> no_info
      | w # _ \<Rightarrow> (case map_of (ri_registry ri) w of None \<Rightarrow> no_info | Some i \<Rightarrow> i))"

definition replica_rank :: "remote_info \<Rightarrow> nat" where
  "replica_rank r = (if \<not> ro_alive r then 2 else if ro_storage_only r then 0 else 1)"

text \<open>
  The replicas of an object with their addresses, sorted by rank and, when probing is enabled, by
  descending score of the host; the sort is stable.
\<close>

definition registered_replicas :: "remote_index \<Rightarrow> string \<Rightarrow> remote_info list" where
  "registered_replicas ri full = List.map_filter (map_of (ri_registry ri)) (get_remote_workers ri full)"

definition lookup_all_remote_idx :: "bool \<Rightarrow> (string \<Rightarrow> rat) \<Rightarrow> remote_index \<Rightarrow> string \<Rightarrow> remote_info list" where
  "lookup_all_remote_idx probe score_of ri full =
     sort_key (\<lambda>r. (replica_rank r, if probe then - score_of (ro_host r) else 0)) (registered_replicas ri full)"

subsection \<open>Read statistics\<close>

definition at_known_meta :: "string \<Rightarrow> (remote_meta \<Rightarrow> remote_meta) \<Rightarrow> remote_index \<Rightarrow> remote_index" where
  "at_known_meta full f ri = (case find_meta ri full of None \<Rightarrow> ri | Some _ \<Rightarrow> at_meta full f ri)"

definition record_remote_access :: "int \<Rightarrow> string \<Rightarrow> int \<Rightarrow> remote_index \<Rightarrow> remote_index" where
  "record_remote_access now full size_bytes =
     at_known_meta full (\<lambda>m.
       (if 0 < size_bytes then m\<lparr>rm_size := size_bytes, rm_accumulated := rm_accumulated m + nat size_bytes\<rparr> else m)
         \<lparr>rm_read_count := rm_read_count m + 1, rm_last_access := now\<rparr>)"

record suggest_settings =
  auto_backup_enabled :: int
  worker_suggest_cooldown :: int
  worker_suggest_bytes_threshold :: nat
  worker_suggest_count_threshold :: nat

text \<open>The suggestion that is sent (read count, bytes, size) and the new state.\<close>

definition maybe_suggest_backup ::
  "suggest_settings \<Rightarrow> int \<Rightarrow> string \<Rightarrow> remote_index \<Rightarrow> (nat \<times> nat \<times> int) option \<times> remote_index" where
  "maybe_suggest_backup cfg now full ri =
     (if auto_backup_enabled cfg \<noteq> 1 then (None, ri)
      else case find_meta ri full of
          None \<Rightarrow> (None, ri)
        | Some m \<Rightarrow>
            if now - rm_last_suggest m < worker_suggest_cooldown cfg then (None, ri)
            else if rm_accumulated m < worker_suggest_bytes_threshold cfg \<and>
                    rm_read_count m < worker_suggest_count_threshold cfg then (None, ri)
            else (Some (rm_read_count m, rm_accumulated m, rm_size m),
                  at_meta full (\<lambda>m. m\<lparr>rm_read_count := 0, rm_accumulated := 0, rm_last_suggest := now\<rparr>) ri))"

definition get_access_read_count :: "remote_index \<Rightarrow> string \<Rightarrow> nat" where
  "get_access_read_count ri full = (case find_meta ri full of None \<Rightarrow> 0 | Some m \<Rightarrow> rm_read_count m)"


section \<open>Names\<close>

lemma split_full_colon:
  assumes "CHR '':'' \<notin> set short"
  shows "split_full (full_name db short) = (db, short)"
proof -
  have "takeWhile (\<lambda>c. c \<noteq> CHR '':'') (rev short @ CHR '':'' # rev db) = rev short"
    using assms by (subst takeWhile_append2) auto
  then show ?thesis by (simp add: split_full_def full_name_def)
qed

lemma split_full_parts:
  shows split_short_colon: "CHR '':'' \<notin> set (snd (split_full full))"
    and full_name_split: "CHR '':'' \<in> set full \<Longrightarrow> full_name (fst (split_full full)) (snd (split_full full)) = full"
proof -
  define t where "t = takeWhile (\<lambda>c. c \<noteq> CHR '':'') (rev full)"
  define d where "d = dropWhile (\<lambda>c. c \<noteq> CHR '':'') (rev full)"
  have whole: "rev full = t @ d" by (simp add: t_def d_def)
  have t: "CHR '':'' \<notin> set t" unfolding t_def by (auto dest: set_takeWhileD)
  show "CHR '':'' \<notin> set (snd (split_full full))"
  proof (cases "length t = length full")
    case True
    then have "d = []" using whole by (metis append_Nil2 append_eq_append_conv length_append length_rev)
    then have "set full = set t" using whole by (metis append_Nil2 set_rev)
    then show ?thesis using t by (simp add: split_full_def t_def [symmetric] True)
  qed (use t in \<open>simp add: split_full_def t_def [symmetric]\<close>)
  assume colon: "CHR '':'' \<in> set full"
  then have "d \<noteq> []" using whole t by (metis append_Nil2 set_rev)
  then obtain d' where d': "d = CHR '':'' # d'"
    using hd_dropWhile [of "\<lambda>c. c \<noteq> CHR '':''" "rev full"] by (cases d) (auto simp: d_def)
  have full: "full = rev d' @ CHR '':'' # rev t" using whole d' by (metis append.assoc append_Cons append_Nil rev.simps(2) rev_append rev_rev_ident)
  then have "split_full full = (rev d', rev t)"
    using split_full_colon [of "rev t" "rev d'"] t by (simp add: full_name_def)
  then show "full_name (fst (split_full full)) (snd (split_full full)) = full" using full by (simp add: full_name_def)
qed

section \<open>The index as a map\<close>

definition rmap :: "remote_index \<Rightarrow> string \<times> string \<rightharpoonup> remote_meta" where
  "rmap ri k = (case map_of (ri_idx ri) (fst k) of None \<Rightarrow> None | Some objs \<Rightarrow> map_of objs (snd k))"

definition meta_of :: "remote_meta option \<Rightarrow> remote_meta" where
  "meta_of m = (case m of None \<Rightarrow> new_meta | Some meta \<Rightarrow> meta)"

lemma find_meta_rmap: "find_meta ri full = rmap ri (split_full full)"
  by (simp add: find_meta_def rmap_def split_beta)

lemma rmap_at_meta: "rmap (at_meta full f ri) = (rmap ri)(split_full full \<mapsto> f (meta_of (rmap ri (split_full full))))"
  by (rule ext) (auto simp: at_meta_def rmap_def meta_of_def Let_def split_beta prod_eq_iff split: option.splits)

lemma rmap_drop_meta: "rmap (drop_meta full ri) = (rmap ri)(split_full full := None)"
  by (rule ext) (auto simp: drop_meta_def rmap_def split_beta prod_eq_iff map_of_alist_map_entry split: option.splits)

lemma rmap_clear: "rmap (clear_remote_index_for_db db ri) = (\<lambda>k. if fst k = db then None else rmap ri k)"
  by (rule ext) (auto simp: clear_remote_index_for_db_def rmap_def)

lemma registry_idx [simp]:
  "ri_registry (at_meta full f ri) = ri_registry ri" "ri_registry (drop_meta full ri) = ri_registry ri"
  "ri_registry (clear_remote_index_for_db db ri) = ri_registry ri"
  by (simp_all add: at_meta_def drop_meta_def clear_remote_index_for_db_def Let_def split_beta)

lemma rmap_registry [simp]:
  "rmap (ds_register_worker w h p b ri) = rmap ri" "rmap (set_worker_alive w b ri) = rmap ri"
  by (auto simp: fun_eq_iff rmap_def ds_register_worker_def set_worker_alive_def)

subsection \<open>Invariant\<close>

definition idx_inv :: "(string \<times> (string \<times> remote_meta) list) list \<Rightarrow> bool" where
  "idx_inv idx \<longleftrightarrow> umap_ok idx \<and>
     (\<forall>db objs. map_of idx db = Some objs \<longrightarrow> umap_ok objs) \<and>
     (\<forall>db objs short m. map_of idx db = Some objs \<longrightarrow> map_of objs short = Some m \<longrightarrow> CHR '':'' \<notin> set short)"

lemma umap_ok_single [simp]: "umap_ok [x]"
  by (simp add: umap_ok_def)

definition remote_inv :: "remote_index \<Rightarrow> bool" where
  "remote_inv ri \<longleftrightarrow> idx_inv (ri_idx ri) \<and> umap_ok (ri_registry ri) \<and>
     (\<forall>w i. map_of (ri_registry ri) w = Some i \<longrightarrow> ro_worker i = w) \<and>
     (\<forall>k m. rmap ri k = Some m \<longrightarrow> distinct (rm_workers m) \<and> set (rm_workers m) \<subseteq> dom (map_of (ri_registry ri)))"

lemma idx_inv_at: "idx_inv (ri_idx ri) \<Longrightarrow> idx_inv (ri_idx (at_meta full f ri))"
  using split_short_colon [of full]
  unfolding idx_inv_def at_meta_def
  by (simp add: Let_def split_beta split: option.splits) (blast intro: umap_ok_update)

lemma idx_inv_drop: "idx_inv (ri_idx ri) \<Longrightarrow> idx_inv (ri_idx (drop_meta full ri))"
  unfolding idx_inv_def drop_meta_def
  by (auto simp: split_beta map_of_alist_map_entry split: if_splits)

lemma idx_inv_clear: "idx_inv (ri_idx ri) \<Longrightarrow> idx_inv (ri_idx (clear_remote_index_for_db db ri))"
  by (auto simp: idx_inv_def clear_remote_index_for_db_def split: if_splits)


subsection \<open>Operations as a state machine\<close>

datatype remote_op =
    UpdateRemote string worker_id string int int bool
  | RemoveLocation string
  | RemoveReplica bool string worker_id
  | ClearRemote string
  | RegisterAddress worker_id string int bool
  | SetAlive worker_id bool
  | RecordAccess int string int
  | SuggestBackup suggest_settings int string

fun remote_exec :: "remote_op \<Rightarrow> remote_index \<Rightarrow> remote_index option" where
  "remote_exec (UpdateRemote full w host port n storage) ri = Some (update_remote_idx full w host port n storage ri)"
| "remote_exec (RemoveLocation full) ri = Some (remove_remote_location full ri)"
| "remote_exec (RemoveReplica mode full w) ri = Some (remove_remote_replica mode full w ri)"
| "remote_exec (ClearRemote db) ri = Some (clear_remote_index_for_db db ri)"
| "remote_exec (RegisterAddress w host port storage) ri = Some (ds_register_worker w host port storage ri)"
| "remote_exec (SetAlive w b) ri = Some (set_worker_alive w b ri)"
| "remote_exec (RecordAccess now full n) ri = Some (record_remote_access now full n ri)"
| "remote_exec (SuggestBackup cfg now full) ri = Some (snd (maybe_suggest_backup cfg now full ri))"

text \<open>The abstract index: the holders of every object, in the order in which they were registered.\<close>

definition holders :: "remote_index \<Rightarrow> string \<times> string \<Rightarrow> worker_id list" where
  "holders ri k = (case rmap ri k of None \<Rightarrow> [] | Some m \<Rightarrow> rm_workers m)"

fun holders_spec :: "remote_op \<Rightarrow> (string \<times> string \<Rightarrow> worker_id list) \<Rightarrow> (string \<times> string \<Rightarrow> worker_id list)" where
  "holders_spec (UpdateRemote full w host port n storage) h =
     (let k = split_full full in if w \<in> set (h k) then h else h(k := h k @ [w]))"
| "holders_spec (RemoveLocation full) h = h(split_full full := [])"
| "holders_spec (RemoveReplica mode full w) h =
     (if mode then h(split_full full := removeAll w (h (split_full full))) else h)"
| "holders_spec (ClearRemote db) h = (\<lambda>k. if fst k = db then [] else h k)"
| "holders_spec (RegisterAddress w host port storage) h = h"
| "holders_spec (SetAlive w b) h = h"
| "holders_spec (RecordAccess now full n) h = h"
| "holders_spec (SuggestBackup cfg now full) h = h"

lemma workers_meta_of: "rm_workers (meta_of m) = (case m of None \<Rightarrow> [] | Some meta \<Rightarrow> rm_workers meta)"
  by (simp add: meta_of_def new_meta_def split: option.split)

lemma holders_at_meta: "holders (at_meta full f ri) = (holders ri)(split_full full := rm_workers (f (meta_of (rmap ri (split_full full)))))"
  by (auto simp: fun_eq_iff holders_def rmap_at_meta)

lemma holders_drop: "holders (drop_meta full ri) = (holders ri)(split_full full := [])"
  by (auto simp: fun_eq_iff holders_def rmap_drop_meta)

lemma holders_clear: "holders (clear_remote_index_for_db db ri) = (\<lambda>k. if fst k = db then [] else holders ri k)"
  by (auto simp: fun_eq_iff holders_def rmap_clear)

lemma holders_registry [simp]:
  "holders (ds_register_worker w h p b ri) = holders ri" "holders (set_worker_alive w b ri) = holders ri"
  by (simp_all add: holders_def fun_eq_iff)

lemma holders_keep:
  assumes "\<And>m. rm_workers (f m) = rm_workers m"
  shows "holders (at_meta full f ri) = holders ri"
  by (rule ext) (simp add: holders_at_meta assms workers_meta_of holders_def)

lemma holders_exec: "remote_exec op ri = Some ri' \<Longrightarrow> holders ri' = holders_spec op (holders ri)"
proof (cases op)
  case (UpdateRemote full w host port n storage)
  assume "remote_exec op ri = Some ri'"
  moreover have "holders (add_remote_location full w r) = holders_spec op (holders r)" for r
    by (rule ext) (simp add: UpdateRemote add_remote_location_def holders_at_meta workers_meta_of Let_def holders_def)
  ultimately show ?thesis by (auto simp: UpdateRemote update_remote_idx_def Let_def holders_keep)
next
  case (RemoveReplica mode full w)
  assume "remote_exec op ri = Some ri'"
  then show ?thesis
    by (cases "find_meta ri full")
       (auto simp: RemoveReplica remove_remote_replica_def holders_drop holders_at_meta fun_eq_iff find_meta_rmap holders_def
          rmap_drop_meta rmap_at_meta Let_def split: if_splits)
next
  case (RecordAccess now full n)
  assume "remote_exec op ri = Some ri'"
  then show ?thesis
    by (auto simp: RecordAccess record_remote_access_def at_known_meta_def holders_keep split: option.splits)
next
  case (SuggestBackup cfg now full)
  assume "remote_exec op ri = Some ri'"
  then show ?thesis
    by (auto simp: SuggestBackup maybe_suggest_backup_def holders_keep split: option.splits if_splits)
qed (auto simp: remove_remote_location_def holders_drop holders_clear)

subsection \<open>The invariant is kept\<close>

lemma remote_inv_alt:
  "remote_inv ri \<longleftrightarrow> idx_inv (ri_idx ri) \<and> umap_ok (ri_registry ri) \<and>
     (\<forall>w i. map_of (ri_registry ri) w = Some i \<longrightarrow> ro_worker i = w) \<and>
     (\<forall>k. distinct (holders ri k) \<and> set (holders ri k) \<subseteq> dom (map_of (ri_registry ri)))"
proof -
  have "(\<forall>k m. rmap ri k = Some m \<longrightarrow> P (rm_workers m)) \<longleftrightarrow> (\<forall>k. P (holders ri k))" if "P []" for P
    using that by (auto simp: holders_def split: option.splits)
  from this [of "\<lambda>ws. distinct ws \<and> set ws \<subseteq> dom (map_of (ri_registry ri))"]
  show ?thesis by (simp add: remote_inv_def)
qed

lemma idx_inv_exec: "remote_exec op ri = Some ri' \<Longrightarrow> idx_inv (ri_idx ri) \<Longrightarrow> idx_inv (ri_idx ri')"
  by (cases op)
     (auto simp: update_remote_idx_def add_remote_location_def Let_def remove_remote_location_def remove_remote_replica_def
        record_remote_access_def at_known_meta_def maybe_suggest_backup_def ds_register_worker_def set_worker_alive_def
        intro!: idx_inv_at idx_inv_drop idx_inv_clear split: option.splits if_splits)


text \<open>The registry only ever grows, and each address is registered under its own id.\<close>

definition registry_ok :: "remote_index \<Rightarrow> bool" where
  "registry_ok ri \<longleftrightarrow> umap_ok (ri_registry ri) \<and> (\<forall>w i. map_of (ri_registry ri) w = Some i \<longrightarrow> ro_worker i = w)"

definition registry_spec :: "remote_op \<Rightarrow> (worker_id \<times> remote_info) list \<Rightarrow> (worker_id \<times> remote_info) list" where
  "registry_spec op reg =
     (case op of
        UpdateRemote full w host port n storage \<Rightarrow> AList.update w \<lparr>ro_worker = w, ro_host = host, ro_port = port, ro_storage_only = storage, ro_alive = True\<rparr> reg
      | RegisterAddress w host port storage \<Rightarrow> AList.update w \<lparr>ro_worker = w, ro_host = host, ro_port = port, ro_storage_only = storage, ro_alive = True\<rparr> reg
      | SetAlive w b \<Rightarrow> AList.map_entry w (\<lambda>i. i\<lparr>ro_alive := b\<rparr>) reg
      | _ \<Rightarrow> reg)"

lemma registry_step: "remote_exec op ri = Some ri' \<Longrightarrow> ri_registry ri' = registry_spec op (ri_registry ri)"
  by (cases op)
     (auto simp: registry_spec_def update_remote_idx_def add_remote_location_def Let_def remove_remote_location_def
        remove_remote_replica_def record_remote_access_def at_known_meta_def maybe_suggest_backup_def
        ds_register_worker_def set_worker_alive_def split: option.splits)

lemma registry_exec:
  assumes "remote_exec op ri = Some ri'"
  shows "dom (map_of (ri_registry ri)) \<subseteq> dom (map_of (ri_registry ri'))"
    and "registry_ok ri \<Longrightarrow> registry_ok ri'"
    and "\<And>full w host port n storage. op = UpdateRemote full w host port n storage \<Longrightarrow> w \<in> dom (map_of (ri_registry ri'))"
  unfolding registry_step [OF assms] registry_ok_def
  by (cases op; auto simp: registry_spec_def map_of_alist_map_entry)+

lemma holders_spec_step:
  assumes "\<And>k. distinct (h k) \<and> set (h k) \<subseteq> D"
    and "\<And>full w host port n storage. op = UpdateRemote full w host port n storage \<Longrightarrow> w \<in> D"
  shows "distinct (holders_spec op h k) \<and> set (holders_spec op h k) \<subseteq> D"
  using assms(1) [of k] assms(1) [of "split_full (case op of UpdateRemote f _ _ _ _ _ \<Rightarrow> f | RemoveReplica _ f _ \<Rightarrow> f | _ \<Rightarrow> [])"]
    assms(2)
  by (cases op) (auto simp: Let_def distinct_removeAll)

lemma remote_inv_exec:
  assumes "remote_inv ri" "remote_exec op ri = Some ri'"
  shows "remote_inv ri'"
proof -
  have reg: "registry_ok ri'" by (rule registry_exec(2) [OF assms(2)]) (use assms(1) in \<open>unfold remote_inv_def registry_ok_def, blast\<close>)
  have old: "distinct (holders ri k) \<and> set (holders ri k) \<subseteq> dom (map_of (ri_registry ri'))" for k
  proof -
    have "distinct (holders ri k)" "set (holders ri k) \<subseteq> dom (map_of (ri_registry ri))"
      using assms(1) unfolding remote_inv_alt by blast+
    then show ?thesis using registry_exec(1) [OF assms(2)] by (simp add: subset_trans)
  qed
  have "distinct (holders ri' k) \<and> set (holders ri' k) \<subseteq> dom (map_of (ri_registry ri'))" for k
    unfolding holders_exec [OF assms(2)] using old registry_exec(3) [OF assms(2)] by (rule holders_spec_step)
  moreover have "idx_inv (ri_idx ri')" using idx_inv_exec [OF assms(2)] assms(1) by (simp add: remote_inv_def)
  ultimately show ?thesis using reg by (simp only: remote_inv_alt registry_ok_def) blast
qed

interpretation ri_all: component_invariant remote_exec any_op empty_remote_index remote_inv
proof
  show "remote_inv empty_remote_index"
    by (simp add: remote_inv_def idx_inv_def empty_remote_index_def rmap_def)
qed (rule remote_inv_exec)

section \<open>Lookups\<close>

lemma get_remote_workers_holders: "get_remote_workers ri full = holders ri (split_full full)"
  by (simp add: get_remote_workers_def holders_def find_meta_rmap)

lemma rmap_Some_iff:
  "rmap ri (db, short) = Some m \<longleftrightarrow> (\<exists>objs. map_of (ri_idx ri) db = Some objs \<and> map_of objs short = Some m)"
  by (simp add: rmap_def split: option.split)

lemma mem_objects_of_workerI:
  assumes "idx_inv (ri_idx ri)" "rmap ri (db, short) = Some m" "w \<in> set (rm_workers m)"
  shows "full_name db short \<in> set (get_objects_of_worker ri w)"
proof -
  obtain objs where objs: "map_of (ri_idx ri) db = Some objs" "map_of objs short = Some m"
    using assms(2) by (auto simp: rmap_Some_iff)
  then have "(db, objs) \<in> set (ri_idx ri)" "(short, m) \<in> set objs" by (auto dest: map_of_SomeD)
  then show ?thesis using assms(3) unfolding get_objects_of_worker_def by force
qed

lemma mem_objects_of_workerE:
  assumes "idx_inv (ri_idx ri)" "full \<in> set (get_objects_of_worker ri w)"
  obtains db short m where "full = full_name db short" "rmap ri (db, short) = Some m" "w \<in> set (rm_workers m)" "CHR '':'' \<notin> set short"
proof -
  obtain db objs short m where *: "(db, objs) \<in> set (ri_idx ri)" "(short, m) \<in> set objs" "w \<in> set (rm_workers m)" "full = full_name db short"
    using assms(2) by (auto simp: get_objects_of_worker_def)
  then have db: "map_of (ri_idx ri) db = Some objs" using assms(1) by (auto simp: idx_inv_def umap_mem_iff)
  then have short: "map_of objs short = Some m" using assms(1) * by (auto simp: idx_inv_def umap_mem_iff)
  show thesis
    by (rule that [of db short m]) (use * db short assms(1) in \<open>auto simp: rmap_Some_iff idx_inv_def\<close>)
qed

lemma mem_objects_of_worker:
  assumes "remote_inv ri"
  shows "full \<in> set (get_objects_of_worker ri w) \<longleftrightarrow> CHR '':'' \<in> set full \<and> w \<in> set (get_remote_workers ri full)"
proof
  have idx: "idx_inv (ri_idx ri)" using assms by (simp add: remote_inv_def)
  show "CHR '':'' \<in> set full \<and> w \<in> set (get_remote_workers ri full)" if "full \<in> set (get_objects_of_worker ri w)"
    using idx that by (rule mem_objects_of_workerE)
      (auto simp: get_remote_workers_holders holders_def split_full_colon full_name_def [symmetric], simp add: full_name_def)
  show "full \<in> set (get_objects_of_worker ri w)" if *: "CHR '':'' \<in> set full \<and> w \<in> set (get_remote_workers ri full)"
  proof -
    obtain m where "rmap ri (split_full full) = Some m" "w \<in> set (rm_workers m)"
      using * by (cases "rmap ri (split_full full)") (auto simp: get_remote_workers_holders holders_def)
    then show ?thesis
      using mem_objects_of_workerI [OF idx, of "fst (split_full full)" "snd (split_full full)"] full_name_split [of full] * by simp
  qed
qed

lemma registered_replicas_exact:
  assumes "remote_inv ri"
  shows "map ro_worker (registered_replicas ri full) = get_remote_workers ri full"
proof -
  have "map ro_worker (List.map_filter (map_of (ri_registry ri)) ws) = ws"
    if "set ws \<subseteq> dom (map_of (ri_registry ri))" for ws
    using that
  proof (induction ws)
    case (Cons w ws)
    then obtain i where "map_of (ri_registry ri) w = Some i" by auto
    moreover have "ro_worker i = w" using calculation assms by (simp add: remote_inv_def)
    ultimately show ?case using Cons by (simp add: List.map_filter_simps)
  qed (simp add: List.map_filter_simps)
  then show ?thesis using assms unfolding remote_inv_alt registered_replicas_def get_remote_workers_holders by blast
qed

lemma sorted_map_fst:
  fixes xs :: "('a :: linorder \<times> 'b :: linorder) list"
  shows "sorted xs \<Longrightarrow> sorted (map fst xs)"
  by (induction xs) (auto simp: less_eq_prod_def)

lemma sorted_by_rank: "sorted (map replica_rank (lookup_all_remote_idx probe score_of ri full))"
  using sorted_map_fst [of "map (\<lambda>r. (replica_rank r, if probe then - score_of (ro_host r) else 0)) (lookup_all_remote_idx probe score_of ri full)"]
  by (simp add: lookup_all_remote_idx_def comp_def)


section \<open>Properties\<close>

text \<open>
  C28: After any sequence of operations the holders reported for an object are exactly the workers
  registered for it and not dropped since, in order of registration; and the objects reported for a
  worker are exactly the objects that report the worker as a holder.
\<close>

theorem remote_index_refines:
  assumes "run_ops remote_exec any_op ops empty_remote_index = Some ri"
  shows "get_remote_workers ri full = fold holders_spec ops (\<lambda>_. []) (split_full full) \<and>
    (full \<in> set (get_objects_of_worker ri w) \<longleftrightarrow> CHR '':'' \<in> set full \<and> w \<in> set (get_remote_workers ri full))"
proof -
  have "holders empty_remote_index = (\<lambda>_. [])" by (simp add: holders_def rmap_def empty_remote_index_def fun_eq_iff)
  then have "holders ri = fold holders_spec ops (\<lambda>_. [])"
    using run_ops_simulation [OF assms, of "\<lambda>_. True" holders] holders_exec by blast
  then show ?thesis using mem_objects_of_worker [OF ri_all.run_inv [OF assms]] by (simp add: get_remote_workers_holders)
qed

definition demo_remote :: "remote_op list" where
  "demo_remote = [UpdateRemote ''db:x'' 1 ''h1'' 10 0 False, UpdateRemote ''db:x'' 2 ''h2'' 10 0 True,
     UpdateRemote ''db:x'' 3 ''h3'' 10 0 False, SetAlive 1 False]"

lemma split_demo [simp]: "split_full ''db:x'' = (''db'', ''x'')"
  by (simp add: split_full_def)

theorem remote_index_refines_witness:
  "\<exists>ri. run_ops remote_exec any_op demo_remote empty_remote_index = Some ri \<and> get_remote_workers ri ''db:x'' = [1, 2, 3] \<and>
    ''db:x'' \<in> set (get_objects_of_worker ri 2)"
proof -
  obtain ri where ri: "run_ops remote_exec any_op demo_remote empty_remote_index = Some ri" by (simp add: demo_remote_def)
  from remote_index_refines [OF this, of "''db:x''" 2] have "get_remote_workers ri ''db:x'' = [1, 2, 3]"
    by (simp add: demo_remote_def Let_def)
  moreover from this remote_index_refines [OF ri, of "''db:x''" 2] have "''db:x'' \<in> set (get_objects_of_worker ri 2)" by simp
  ultimately show ?thesis using ri by blast
qed

text \<open>
  C29: The replicas offered to a reader are exactly the holders of the object, each once with its
  registered address; storage workers that are alive come first, then the other workers that are
  alive, and dead workers last.
\<close>

theorem lookup_all_exact:
  assumes "run_ops remote_exec any_op ops empty_remote_index = Some ri"
    and rs_def: "rs = lookup_all_remote_idx probe score_of ri full"
  shows "mset (map ro_worker rs) = mset (get_remote_workers ri full) \<and> distinct (map ro_worker rs) \<and>
    (\<forall>r \<in> set rs. map_of (ri_registry ri) (ro_worker r) = Some r) \<and>
    sorted (map replica_rank rs) \<and> (rs \<noteq> [] \<longrightarrow> \<not> ro_alive (hd rs) \<longrightarrow> (\<forall>r \<in> set rs. \<not> ro_alive r))"
proof -
  have inv: "remote_inv ri" by (rule ri_all.run_inv [OF assms(1)])
  have m: "mset rs = mset (registered_replicas ri full)" by (simp add: rs_def lookup_all_remote_idx_def)
  then have ms: "mset (map ro_worker rs) = mset (get_remote_workers ri full)"
    using registered_replicas_exact [OF inv, of full] by (metis mset_map)
  moreover have "distinct (get_remote_workers ri full)"
    using inv unfolding remote_inv_alt get_remote_workers_holders by blast
  ultimately have "distinct (map ro_worker rs)" by (metis mset_eq_imp_distinct_iff)
  moreover have "\<forall>r \<in> set rs. map_of (ri_registry ri) (ro_worker r) = Some r"
  proof
    fix r assume "r \<in> set rs"
    then have "r \<in> set (registered_replicas ri full)" using m by (metis mset_eq_setD)
    then obtain w where "map_of (ri_registry ri) w = Some r" by (auto simp: registered_replicas_def List.map_filter_def)
    then show "map_of (ri_registry ri) (ro_worker r) = Some r" using inv unfolding remote_inv_def by metis
  qed
  moreover have srt: "sorted (map replica_rank rs)" unfolding rs_def by (rule sorted_by_rank)
  moreover have "\<not> ro_alive r" if "rs \<noteq> []" "\<not> ro_alive (hd rs)" "r \<in> set rs" for r
  proof -
    have "replica_rank (hd rs) \<le> replica_rank r" using srt that by (cases rs) auto
    then show ?thesis using that(2) by (auto simp: replica_rank_def split: if_splits)
  qed
  ultimately show ?thesis using ms by blast
qed

theorem lookup_all_exact_witness:
  "\<exists>ri. run_ops remote_exec any_op demo_remote empty_remote_index = Some ri \<and>
    sorted (map replica_rank (lookup_all_remote_idx False (\<lambda>_. 0) ri ''db:x'')) \<and>
    map ro_worker (lookup_all_remote_idx False (\<lambda>_. 0) ri ''db:x'') = [2, 3, 1]"
proof -
  obtain ri where ri: "run_ops remote_exec any_op demo_remote empty_remote_index = Some ri" by (simp add: demo_remote_def)
  have "sorted (map replica_rank (lookup_all_remote_idx False (\<lambda>_. 0) ri ''db:x''))"
    using lookup_all_exact [OF ri refl, where probe = False and score_of = "\<lambda>_. 0" and full = "''db:x''"] by blast
  moreover have "map ro_worker (lookup_all_remote_idx False (\<lambda>_. 0) ri ''db:x'') = [2, 3, 1]"
    using ri
    by (auto simp: demo_remote_def empty_remote_index_def update_remote_idx_def ds_register_worker_def add_remote_location_def
        at_meta_def set_worker_alive_def lookup_all_remote_idx_def registered_replicas_def get_remote_workers_def find_meta_def
        List.map_filter_def new_meta_def replica_rank_def sort_key_def Let_def)
  ultimately show ?thesis using ri by (intro exI [of _ ri] conjI)
qed

text \<open>
  Recording a new location forgets what kind of worker holds it.  \<open>update_remote_idx\<close> registers the
  address again, and the callers in the master leave the storage flag at its default: after a storage
  worker reports an object, it counts as an ordinary worker, and a worker declared dead counts as alive.
\<close>

theorem update_forgets_role:
  "\<not> is_storage_worker (update_remote_idx full w host port n False (ds_register_worker w host port True ri)) w \<and>
   ro_alive (get_worker_address (update_remote_idx full w host port n False (set_worker_alive w False ri)) w)"
  by (simp add: update_remote_idx_def add_remote_location_def ds_register_worker_def is_storage_worker_def get_worker_address_def Let_def)

end
