(* ===== verification/Data_Service.thy ===== *)
theory Data_Service
  imports Data_Writer Remote_Index
begin

text \<open>
  The local half of src/storage/cpp/data_service.h and .cpp: the objects this process writes or holds,
  their completion state, and the readers that wait for a write to finish.  The code shares a
  \<open>LocalObjectInfo\<close> between the index and a waiting reader, so the infos live in a store and the
  index maps names to addresses.  Every database has a condition variable, numbered here; a blocked
  reader is the variable it sleeps on with the address of the info it watches, and it goes on only
  when that variable is notified and its info is no longer incomplete.

  \<open>clear_local_index_for_db\<close> erases the entry of a database with its condition variable.  In C++ this is
  undefined when a reader sleeps on the variable; here the reader just stays blocked on a variable
  that nobody notifies any more.
\<close>

section \<open>State\<close>

datatype completion_state = INCOMPLETE | COMPLETE | FAILED

record local_object_info =
  lo_db_path :: string
  lo_entries :: "index_entry list"
  lo_state :: completion_state
  lo_flushed :: bool
  lo_is_temp :: bool

definition new_info :: local_object_info where
  "new_info = \<lparr>lo_db_path = [], lo_entries = [], lo_state = INCOMPLETE, lo_flushed = False, lo_is_temp = False\<rparr>"

record db_local_index =
  dl_objects :: "(string \<times> nat) list"
  dl_cv :: nat

record db_paths =
  dp_db_path :: string
  dp_data_path :: string
  dp_writer_id :: string

record ('t, 'v) data_service =
  ds_store :: "nat \<rightharpoonup> local_object_info"
  ds_next :: nat
  ds_local :: "(string \<times> db_local_index) list"
  ds_next_cv :: nat
  ds_blocked :: "(nat \<times> nat) list"
  ds_paths :: "string \<rightharpoonup> db_paths"
  ds_refs :: "string \<rightharpoonup> int"
  ds_cache :: "('t, 'v) object_cache"

definition new_data_service :: "('t, 'v) object_cache \<Rightarrow> ('t, 'v) data_service" where
  "new_data_service oc =
     \<lparr>ds_store = Map.empty, ds_next = 0, ds_local = [], ds_next_cv = 0, ds_blocked = [],
      ds_paths = Map.empty, ds_refs = Map.empty, ds_cache = oc\<rparr>"

section \<open>Databases\<close>

definition register_database :: "string \<Rightarrow> string \<Rightarrow> string \<Rightarrow> ('t, 'v) data_service \<Rightarrow> ('t, 'v) data_service" where
  "register_database db data writer s =
     s\<lparr>ds_refs := (ds_refs s)(db \<mapsto> (case ds_refs s db of None \<Rightarrow> 0 | Some n \<Rightarrow> n) + 1),
       ds_paths := (ds_paths s)(db \<mapsto> \<lparr>dp_db_path = db, dp_data_path = data, dp_writer_id = writer\<rparr>)\<rparr>"

definition unregister_database :: "string \<Rightarrow> ('t, 'v) data_service \<Rightarrow> ('t, 'v) data_service" where
  "unregister_database db s =
     (if db = [] then s
      else case ds_refs s db of
          None \<Rightarrow> s\<lparr>ds_refs := (ds_refs s)(db := None), ds_paths := (ds_paths s)(db := None)\<rparr>
        | Some n \<Rightarrow>
            if n \<le> 1 then s\<lparr>ds_refs := (ds_refs s)(db := None), ds_paths := (ds_paths s)(db := None)\<rparr>
            else s\<lparr>ds_refs := (ds_refs s)(db \<mapsto> n - 1)\<rparr>)"

definition has_database :: "('t, 'v) data_service \<Rightarrow> string \<Rightarrow> bool" where
  "has_database s db \<longleftrightarrow> ds_paths s db \<noteq> None"

section \<open>The local index\<close>

definition find_addr :: "('t, 'v) data_service \<Rightarrow> string \<Rightarrow> string \<Rightarrow> nat option" where
  "find_addr s db short = (case map_of (ds_local s) db of None \<Rightarrow> None | Some dl \<Rightarrow> map_of (dl_objects dl) short)"

definition find_info :: "('t, 'v) data_service \<Rightarrow> string \<Rightarrow> string \<Rightarrow> local_object_info option" where
  "find_info s db short = (case find_addr s db short of None \<Rightarrow> None | Some a \<Rightarrow> ds_store s a)"

text \<open>\<open>local_idx_[db_path]\<close>: a missing index is created, with a condition variable of its own.\<close>

definition touch_db :: "string \<Rightarrow> ('t, 'v) data_service \<Rightarrow> ('t, 'v) data_service" where
  "touch_db db s =
     (case map_of (ds_local s) db of
        Some _ \<Rightarrow> s
      | None \<Rightarrow> s\<lparr>ds_local := AList.update db \<lparr>dl_objects = [], dl_cv = ds_next_cv s\<rparr> (ds_local s), ds_next_cv := ds_next_cv s + 1\<rparr>)"

text \<open>\<open>objects_[short_name] = make_shared(...)\<close>\<close>

definition link_new :: "string \<Rightarrow> string \<Rightarrow> local_object_info \<Rightarrow> ('t, 'v) data_service \<Rightarrow> ('t, 'v) data_service" where
  "link_new db short info s =
     (let s = touch_db db s
      in s\<lparr>ds_store := (ds_store s)(ds_next s \<mapsto> info), ds_next := ds_next s + 1,
           ds_local := AList.map_entry db (\<lambda>dl. dl\<lparr>dl_objects := AList.update short (ds_next s) (dl_objects dl)\<rparr>) (ds_local s)\<rparr>)"

definition unlink :: "string \<Rightarrow> string \<Rightarrow> ('t, 'v) data_service \<Rightarrow> ('t, 'v) data_service" where
  "unlink db short s =
     s\<lparr>ds_local := AList.map_entry db (\<lambda>dl. dl\<lparr>dl_objects := AList.delete short (dl_objects dl)\<rparr>) (ds_local s)\<rparr>"

text \<open>Change the info an index entry points to.\<close>

definition at_info :: "string \<Rightarrow> string \<Rightarrow> (local_object_info \<Rightarrow> local_object_info) \<Rightarrow> ('t, 'v) data_service \<Rightarrow> ('t, 'v) data_service" where
  "at_info db short f s =
     (case find_addr s db short of
        None \<Rightarrow> s
      | Some a \<Rightarrow> s\<lparr>ds_store := (ds_store s)(a := map_option f (ds_store s a))\<rparr>)"

text \<open>
  \<open>write_cv_.notify_all()\<close>: every reader that sleeps on the variable checks its info again; it stays
  blocked exactly when the info is still incomplete.
\<close>

definition still_waiting :: "(nat \<rightharpoonup> local_object_info) \<Rightarrow> nat \<Rightarrow> bool" where
  "still_waiting store a \<longleftrightarrow> (case store a of None \<Rightarrow> False | Some info \<Rightarrow> lo_state info = INCOMPLETE)"

definition notify_db :: "string \<Rightarrow> ('t, 'v) data_service \<Rightarrow> ('t, 'v) data_service" where
  "notify_db db s =
     (case map_of (ds_local s) db of
        None \<Rightarrow> s
      | Some dl \<Rightarrow> s\<lparr>ds_blocked := filter (\<lambda>(cv, a). cv = dl_cv dl \<longrightarrow> still_waiting (ds_store s) a) (ds_blocked s)\<rparr>)"

definition cache_remove :: "string \<Rightarrow> ('t, 'v) data_service \<Rightarrow> ('t, 'v) data_service" where
  "cache_remove full s = s\<lparr>ds_cache := oc_remove full (ds_cache s)\<rparr>"

subsection \<open>Writes\<close>

definition on_object_written :: "string \<Rightarrow> string \<Rightarrow> index_entry \<Rightarrow> ('t, 'v) data_service \<Rightarrow> ('t, 'v) data_service" where
  "on_object_written db object_name entry s =
     (let short = snd (split_full object_name);
          s = (if find_addr s db short = None then link_new db short new_info s else s)
      in at_info db short (\<lambda>i. i\<lparr>lo_db_path := db, lo_entries := lo_entries i @ [entry], lo_flushed := False, lo_state := COMPLETE\<rparr>) s)"

definition on_flush :: "string \<Rightarrow> ('t, 'v) data_service \<Rightarrow> ('t, 'v) data_service" where
  "on_flush db s =
     (case map_of (ds_local s) db of
        None \<Rightarrow> s
      | Some dl \<Rightarrow> notify_db db (fold (\<lambda>(short, a). at_info db short (\<lambda>i. i\<lparr>lo_flushed := True\<rparr>)) (dl_objects dl) s))"

definition on_write_started :: "string \<Rightarrow> string \<Rightarrow> ('t, 'v) data_service \<Rightarrow> ('t, 'v) data_service" where
  "on_write_started db object_name s =
     (let short = snd (split_full object_name); s = touch_db db s
      in case find_info s db short of
          Some info \<Rightarrow> if lo_state info = COMPLETE then s else link_new db short (new_info\<lparr>lo_db_path := db\<rparr>) s
        | None \<Rightarrow> link_new db short (new_info\<lparr>lo_db_path := db\<rparr>) s)"

definition on_write_completed :: "string \<Rightarrow> string \<Rightarrow> index_entry list \<Rightarrow> ('t, 'v) data_service \<Rightarrow> ('t, 'v) data_service" where
  "on_write_completed db object_name entries s =
     (let short = snd (split_full object_name)
      in case find_addr s db short of
          None \<Rightarrow> s
        | Some _ \<Rightarrow> notify_db db (at_info db short (\<lambda>i. i\<lparr>lo_entries := entries, lo_state := COMPLETE\<rparr>) s))"

definition on_write_failed :: "string \<Rightarrow> string \<Rightarrow> ('t, 'v) data_service \<Rightarrow> ('t, 'v) data_service" where
  "on_write_failed db object_name s =
     (let short = snd (split_full object_name)
      in case find_addr s db short of
          None \<Rightarrow> s
        | Some _ \<Rightarrow> notify_db db (unlink db short (at_info db short (\<lambda>i. i\<lparr>lo_state := FAILED\<rparr>) s)))"

definition on_object_flushed :: "string \<Rightarrow> ('t, 'v) data_service \<Rightarrow> ('t, 'v) data_service" where
  "on_object_flushed object_name s =
     (case split_full object_name of (db, short) \<Rightarrow>
        (case find_addr s db short of
           None \<Rightarrow> s
         | Some _ \<Rightarrow> notify_db db (at_info db short (\<lambda>i. i\<lparr>lo_flushed := True\<rparr>) s)))"

definition on_temp_write_started :: "string \<Rightarrow> string \<Rightarrow> ('t, 'v) data_service \<Rightarrow> ('t, 'v) data_service" where
  "on_temp_write_started db object_name s =
     link_new db (snd (split_full object_name)) (new_info\<lparr>lo_db_path := db, lo_is_temp := True\<rparr>) s"

definition on_temp_write :: "string \<Rightarrow> string \<Rightarrow> index_entry option \<Rightarrow> ('t, 'v) data_service \<Rightarrow> ('t, 'v) data_service" where
  "on_temp_write db object_name disk_entry s =
     (let short = snd (split_full object_name); s = touch_db db s
      in case find_addr s db short of
          None \<Rightarrow> s
        | Some _ \<Rightarrow> notify_db db (at_info db short
            (\<lambda>i. (case disk_entry of None \<Rightarrow> i | Some e \<Rightarrow> i\<lparr>lo_entries := [e]\<rparr>)\<lparr>lo_state := COMPLETE\<rparr>) s))"

subsection \<open>Removal\<close>

definition remove_local_index :: "string \<Rightarrow> ('t, 'v) data_service \<Rightarrow> ('t, 'v) data_service" where
  "remove_local_index object_name s =
     (case split_full object_name of (db, short) \<Rightarrow> cache_remove object_name (unlink db short s))"

definition clear_local_index_for_db :: "string \<Rightarrow> ('t, 'v) data_service \<Rightarrow> ('t, 'v) data_service" where
  "clear_local_index_for_db db s = s\<lparr>ds_local := AList.delete db (ds_local s)\<rparr>"

definition cleanup_temp_entries :: "string \<Rightarrow> ('t, 'v) data_service \<Rightarrow> ('t, 'v) data_service" where
  "cleanup_temp_entries db s =
     s\<lparr>ds_local := AList.map_entry db (\<lambda>dl. dl\<lparr>dl_objects :=
        filter (\<lambda>(short, a). \<not> (case ds_store s a of None \<Rightarrow> False | Some info \<Rightarrow> lo_is_temp info)) (dl_objects dl)\<rparr>) (ds_local s)\<rparr>"


subsection \<open>Restoring a loaded index\<close>

definition restore_key :: "index_entry \<Rightarrow> string" where
  "restore_key e = (case split_full (ie_object_name e) of (db, short) \<Rightarrow> if db = [] then ie_object_name e else short)"

definition group_entries :: "index_entry list \<Rightarrow> (string \<times> index_entry list) list" where
  "group_entries es =
     fold (\<lambda>e g. AList.update (restore_key e) ((case map_of g (restore_key e) of None \<Rightarrow> [] | Some xs \<Rightarrow> xs) @ [e]) g) es []"

text \<open>An entry with the write context hash of one that is there already is skipped.\<close>

definition same_write :: "index_entry list \<Rightarrow> index_entry \<Rightarrow> bool" where
  "same_write es e \<longleftrightarrow> ie_write_context_hash e \<noteq> [] \<and> ie_write_context_hash e \<in> ie_write_context_hash ` set es"

definition add_restored :: "index_entry \<Rightarrow> index_entry list \<Rightarrow> index_entry list" where
  "add_restored e es = (if same_write es e then es else es @ [e])"

definition restore_object :: "string \<Rightarrow> string \<times> index_entry list \<Rightarrow> ('t, 'v) data_service \<Rightarrow> ('t, 'v) data_service" where
  "restore_object db = (\<lambda>(short, es) s.
     let s = (if find_addr s db short = None then link_new db short new_info s else s)
     in at_info db short (\<lambda>i. i\<lparr>lo_db_path := db, lo_entries := fold add_restored es (lo_entries i),
          lo_state := COMPLETE, lo_flushed := True\<rparr>) s)"

definition restore_entries :: "string \<Rightarrow> index_entry list \<Rightarrow> ('t, 'v) data_service \<Rightarrow> ('t, 'v) data_service" where
  "restore_entries db es s =
     (let g = group_entries es
      in fold (\<lambda>(short, _). cache_remove (full_name db short)) g (fold (restore_object db) g (touch_db db s)))"

text \<open>
  Temporary objects: one entry at a time, under the entry's own name.  A skipped entry only sets the
  path and the temp flag, so the object keeps its completion state.
\<close>

definition restore_temp_entry :: "string \<Rightarrow> index_entry \<Rightarrow> ('t, 'v) data_service \<Rightarrow> ('t, 'v) data_service" where
  "restore_temp_entry db e s =
     (let short = ie_object_name e;
          s = (if find_addr s db short = None then link_new db short new_info s else s)
      in at_info db short (\<lambda>i. let i = i\<lparr>lo_db_path := db, lo_is_temp := True\<rparr>
           in if same_write (lo_entries i) e then i
              else i\<lparr>lo_entries := lo_entries i @ [e], lo_state := COMPLETE, lo_flushed := True\<rparr>) s)"

definition temp_touched :: "string \<Rightarrow> index_entry \<Rightarrow> ('t, 'v) data_service \<Rightarrow> string list" where
  "temp_touched db e s =
     (case find_info s db (ie_object_name e) of
        None \<Rightarrow> [full_name db (ie_object_name e)]
      | Some i \<Rightarrow> if same_write (lo_entries i) e then [] else [full_name db (ie_object_name e)])"

definition restore_temp_entries :: "string \<Rightarrow> index_entry list \<Rightarrow> ('t, 'v) data_service \<Rightarrow> ('t, 'v) data_service" where
  "restore_temp_entries db es s =
     (case fold (\<lambda>e (s, touched). (restore_temp_entry db e s, touched @ temp_touched db e s)) es (touch_db db s, []) of
        (s, touched) \<Rightarrow> fold cache_remove touched s)"

subsection \<open>Queries\<close>

definition has_local_object :: "('t, 'v) data_service \<Rightarrow> string \<Rightarrow> bool" where
  "has_local_object s object_name =
     (case split_full object_name of (db, short) \<Rightarrow>
        (case find_info s db short of None \<Rightarrow> False | Some i \<Rightarrow> lo_state i = COMPLETE))"

definition find_local_entries :: "('t, 'v) data_service \<Rightarrow> string \<Rightarrow> index_entry list option" where
  "find_local_entries s object_name =
     (case split_full object_name of (db, short) \<Rightarrow> map_option lo_entries (find_info s db short))"

definition is_write_in_progress :: "('t, 'v) data_service \<Rightarrow> string \<Rightarrow> bool" where
  "is_write_in_progress s object_name =
     (case split_full object_name of (db, short) \<Rightarrow>
        (case find_info s db short of None \<Rightarrow> False | Some i \<Rightarrow> lo_state i = INCOMPLETE))"

definition is_temp_object :: "('t, 'v) data_service \<Rightarrow> string \<Rightarrow> bool" where
  "is_temp_object s object_name =
     (case split_full object_name of (db, short) \<Rightarrow>
        (case find_info s db short of None \<Rightarrow> False | Some i \<Rightarrow> lo_is_temp i))"

definition ds_write_context_hash :: "('t, 'v) data_service \<Rightarrow> string \<Rightarrow> string" where
  "ds_write_context_hash s object_name =
     (case split_full object_name of (db, short) \<Rightarrow>
        (case find_info s db short of
           None \<Rightarrow> []
         | Some i \<Rightarrow> if lo_entries i = [] then [] else ie_write_context_hash (last (lo_entries i))))"

subsection \<open>Local reads\<close>

text \<open>
  The lookup of \<open>try_read_local_raw\<close> under the lock: the paths are fetched first, an object that is
  not complete is not ready, and a missing path counts as a missing database.  Reading the last entry of an
  empty list is undefined.
\<close>

datatype tier1 = NotFound | NotReady nat | Located "index_entry list" db_paths

definition lookup_under_lock :: "('t, 'v) data_service \<Rightarrow> string \<Rightarrow> tier1" where
  "lookup_under_lock s object_name =
     (case split_full object_name of (db, short) \<Rightarrow>
        (case find_addr s db short of
           None \<Rightarrow> NotFound
         | Some a \<Rightarrow>
             (case ds_store s a of
                None \<Rightarrow> NotFound
              | Some i \<Rightarrow>
                  if lo_state i \<noteq> COMPLETE then NotReady a
                  else (case ds_paths s db of
                          None \<Rightarrow> NotFound
                        | Some p \<Rightarrow> if dp_db_path p = [] then NotFound else Located (lo_entries i) p))))"

datatype local_read = LocalMiss | LocalHit bytes | LocalThrows | LocalUndefined | LocalBlocked

definition read_located :: "file_store \<Rightarrow> tier1 \<Rightarrow> local_read" where
  "read_located fs t =
     (case t of
        Located es p \<Rightarrow>
          if es = [] then LocalUndefined
          else (case read_raw_from_entry (last es) (dp_db_path p) (dp_data_path p) fs of
                  ReadThrows \<Rightarrow> LocalThrows
                | ReadNull \<Rightarrow> LocalMiss
                | ReadBytes bs \<Rightarrow> if bs = [] then LocalMiss else LocalHit bs)
      | _ \<Rightarrow> LocalMiss)"

text \<open>
  A call of \<open>try_read_local_raw\<close>.  Without waiting, and with waiting when the object is not
  incomplete, it answers at once; otherwise the reader blocks on the variable of the database.  The
  second function is the reader after it was released.
\<close>

definition try_read_local_raw ::
  "file_store \<Rightarrow> bool \<Rightarrow> string \<Rightarrow> ('t, 'v) data_service \<Rightarrow> local_read \<times> ('t, 'v) data_service" where
  "try_read_local_raw fs wait_local_write object_name s =
     (case lookup_under_lock s object_name of
        NotReady a \<Rightarrow>
          if wait_local_write \<and> still_waiting (ds_store s) a
          then (case map_of (ds_local s) (fst (split_full object_name)) of
                  None \<Rightarrow> (LocalMiss, s)
                | Some dl \<Rightarrow> (LocalBlocked, s\<lparr>ds_blocked := ds_blocked s @ [(dl_cv dl, a)]\<rparr>))
          else (LocalMiss, s)
      | t \<Rightarrow> (read_located fs t, s))"

definition resumed_read :: "file_store \<Rightarrow> string \<Rightarrow> ('t, 'v) data_service \<Rightarrow> local_read" where
  "resumed_read fs object_name s = read_located fs (lookup_under_lock s object_name)"


definition find_chunked_location :: "file_store \<Rightarrow> ('t, 'v) data_service \<Rightarrow> string \<Rightarrow> (string \<times> int \<times> int) option" where
  "find_chunked_location fs s object_name =
     (case split_full object_name of (db, short) \<Rightarrow>
        (case (ds_paths s db, find_info s db short) of
           (Some p, Some i) \<Rightarrow>
             if lo_state i \<noteq> COMPLETE \<or> lo_entries i = [] then None
             else (let e = last (lo_entries i); path = find_file_path (ie_file_name e) (dp_db_path p) (dp_data_path p) fs
                   in if path = [] then None else Some (path, ie_offset e, ie_size e))
         | _ \<Rightarrow> None))"

section \<open>The index as a map\<close>

definition faddr :: "('t, 'v) data_service \<Rightarrow> string \<times> string \<rightharpoonup> nat" where
  "faddr s k = find_addr s (fst k) (snd k)"

definition view :: "('t, 'v) data_service \<Rightarrow> string \<times> string \<rightharpoonup> local_object_info" where
  "view s k = find_info s (fst k) (snd k)"

definition cv_of :: "('t, 'v) data_service \<Rightarrow> string \<rightharpoonup> nat" where
  "cv_of s db = map_option dl_cv (map_of (ds_local s) db)"

lemma view_faddr: "view s k = (case faddr s k of None \<Rightarrow> None | Some a \<Rightarrow> ds_store s a)"
  by (simp add: view_def faddr_def find_info_def)

lemma faddr_pair: "find_addr s db short = faddr s (db, short)"
  by (simp add: faddr_def)

lemma view_pair: "find_info s db short = view s (db, short)"
  by (simp add: view_def)

subsection \<open>Steps on addresses\<close>

lemma faddr_touch [simp]: "faddr (touch_db db s) = faddr s"
  by (rule ext) (auto simp: touch_db_def faddr_def find_addr_def split: option.splits)

lemma touch_fields [simp]:
  "ds_store (touch_db db s) = ds_store s" "ds_next (touch_db db s) = ds_next s" "ds_blocked (touch_db db s) = ds_blocked s"
  "ds_cache (touch_db db s) = ds_cache s" "ds_paths (touch_db db s) = ds_paths s"
  by (simp_all add: touch_db_def split: option.splits)

lemma touch_present: "\<exists>dl. map_of (ds_local (touch_db db s)) db = Some dl"
  by (simp add: touch_db_def split: option.splits)

lemma map_entry_objects:
  assumes "map_of m db = Some dl"
  shows "(case map_of (AList.map_entry db (\<lambda>dl. dl\<lparr>dl_objects := f (dl_objects dl)\<rparr>) m) d of None \<Rightarrow> None | Some x \<Rightarrow> map_of (dl_objects x) short) =
    (if d = db then map_of (f (dl_objects dl)) short else (case map_of m d of None \<Rightarrow> None | Some x \<Rightarrow> map_of (dl_objects x) short))"
  using assms by (simp add: map_of_alist_map_entry)

lemma faddr_link: "faddr (link_new db short i s) = (faddr s)((db, short) \<mapsto> ds_next s)"
proof (rule ext)
  fix k :: "string \<times> string"
  obtain dl where dl: "map_of (ds_local (touch_db db s)) db = Some dl" using touch_present by blast
  have "faddr (link_new db short i s) k =
      (if fst k = db then ((map_of (dl_objects dl))(short \<mapsto> ds_next s)) (snd k) else faddr (touch_db db s) k)"
    using map_entry_objects [OF dl, where f = "AList.update short (ds_next s)" and d = "fst k" and short = "snd k"]
    by (simp add: link_new_def faddr_def find_addr_def Let_def del: faddr_touch)
  moreover have "faddr s (db, x) = map_of (dl_objects dl) x" for x
    using dl faddr_touch [of db s] by (metis faddr_def find_addr_def fst_conv option.simps(5) snd_conv)
  ultimately show "faddr (link_new db short i s) k = ((faddr s)((db, short) \<mapsto> ds_next s)) k"
    by (cases k) (auto simp del: fun_upd_apply simp: fun_upd_def)
qed

lemma link_fields [simp]:
  "ds_store (link_new db short i s) = (ds_store s)(ds_next s \<mapsto> i)" "ds_next (link_new db short i s) = Suc (ds_next s)"
  "ds_blocked (link_new db short i s) = ds_blocked s" "ds_cache (link_new db short i s) = ds_cache s"
  by (simp_all add: link_new_def Let_def)

lemma faddr_unlink: "faddr (unlink db short s) = (faddr s)((db, short) := None)"
  by (rule ext) (auto simp: unlink_def faddr_def find_addr_def map_of_alist_map_entry split: option.splits)

lemma unlink_fields [simp]:
  "ds_store (unlink db short s) = ds_store s" "ds_next (unlink db short s) = ds_next s" "ds_blocked (unlink db short s) = ds_blocked s"
  "ds_cache (unlink db short s) = ds_cache s"
  by (simp_all add: unlink_def)

lemma faddr_at_info [simp]: "faddr (at_info db short f s) = faddr s"
  by (rule ext) (simp add: at_info_def faddr_def find_addr_def split: option.splits)

lemma at_info_fields [simp]:
  "ds_next (at_info db short f s) = ds_next s" "ds_local (at_info db short f s) = ds_local s"
  "ds_blocked (at_info db short f s) = ds_blocked s" "ds_next_cv (at_info db short f s) = ds_next_cv s"
  "ds_cache (at_info db short f s) = ds_cache s"
  by (simp_all add: at_info_def split: option.splits)

lemma store_at_info:
  "ds_store (at_info db short f s) = (case faddr s (db, short) of None \<Rightarrow> ds_store s | Some a \<Rightarrow> (ds_store s)(a := map_option f (ds_store s a)))"
  by (simp add: at_info_def faddr_def split: option.splits)

lemma notify_fields [simp]:
  "ds_store (notify_db db s) = ds_store s" "ds_next (notify_db db s) = ds_next s" "ds_local (notify_db db s) = ds_local s"
  "ds_next_cv (notify_db db s) = ds_next_cv s" "ds_cache (notify_db db s) = ds_cache s" "faddr (notify_db db s) = faddr s"
  by (simp_all add: notify_db_def faddr_def find_addr_def fun_eq_iff split: option.splits)

lemma cache_remove_fields [simp]:
  "ds_store (cache_remove full s) = ds_store s" "ds_next (cache_remove full s) = ds_next s" "ds_local (cache_remove full s) = ds_local s"
  "ds_next_cv (cache_remove full s) = ds_next_cv s" "ds_blocked (cache_remove full s) = ds_blocked s" "faddr (cache_remove full s) = faddr s"
  by (simp_all add: cache_remove_def faddr_def find_addr_def fun_eq_iff)

lemma faddr_clear: "faddr (clear_local_index_for_db db s) = (\<lambda>k. if fst k = db then None else faddr s k)"
  by (rule ext) (simp add: clear_local_index_for_db_def faddr_def find_addr_def)


subsection \<open>Invariant\<close>

text \<open>
  No two names share an info, addresses and condition variables are allocated in order, and the
  variables of different databases differ.
\<close>

definition table_ok :: "(string \<times> db_local_index) list \<Rightarrow> nat \<Rightarrow> bool" where
  "table_ok m n \<longleftrightarrow> umap_ok m \<and> (\<forall>db dl. map_of m db = Some dl \<longrightarrow> umap_ok (dl_objects dl) \<and> dl_cv dl < n) \<and>
     (\<forall>db dl db' dl'. map_of m db = Some dl \<longrightarrow> map_of m db' = Some dl' \<longrightarrow> dl_cv dl = dl_cv dl' \<longrightarrow> db = db')"

definition ds_inv :: "('t, 'v) data_service \<Rightarrow> bool" where
  "ds_inv s \<longleftrightarrow> table_ok (ds_local s) (ds_next_cv s) \<and>
     dom (ds_store s) = {..< ds_next s} \<and> ran (faddr s) \<subseteq> {..< ds_next s} \<and> inj_on (faddr s) (dom (faddr s)) \<and>
     (\<forall>(cv, a) \<in> set (ds_blocked s). cv < ds_next_cv s \<and> a < ds_next s)"

lemma table_ok_touch: "table_ok (ds_local s) (ds_next_cv s) \<Longrightarrow> table_ok (ds_local (touch_db db s)) (ds_next_cv (touch_db db s))"
  by (auto simp: table_ok_def touch_db_def less_Suc_eq split: option.splits if_splits) (metis less_irrefl)+

lemma table_ok_entry:
  assumes "table_ok m n" and "\<And>xs. umap_ok xs \<Longrightarrow> umap_ok (f xs)"
  shows "table_ok (AList.map_entry db (\<lambda>dl. dl\<lparr>dl_objects := f (dl_objects dl)\<rparr>) m) n"
  using assms unfolding table_ok_def
  by (auto simp: map_of_alist_map_entry split: if_splits)

lemma table_ok_delete: "table_ok m n \<Longrightarrow> table_ok (AList.delete db m) n"
  by (auto simp: table_ok_def split: if_splits)

lemma next_cv_touch: "ds_next_cv s \<le> ds_next_cv (touch_db db s)"
  by (simp add: touch_db_def split: option.splits)

lemma inv_touch: "ds_inv s \<Longrightarrow> ds_inv (touch_db db s)"
  using next_cv_touch [of s db] unfolding ds_inv_def by (auto simp: table_ok_touch)

lemma faddr_lt: "ds_inv s \<Longrightarrow> faddr s k = Some a \<Longrightarrow> a < ds_next s"
  by (auto simp: ds_inv_def dest: ranI)

lemma link_table:
  "ds_local (link_new db short i s) = AList.map_entry db (\<lambda>dl. dl\<lparr>dl_objects := AList.update short (ds_next s) (dl_objects dl)\<rparr>) (ds_local (touch_db db s))"
  "ds_next_cv (link_new db short i s) = ds_next_cv (touch_db db s)"
  by (simp_all add: link_new_def Let_def)

lemma inj_on_map_upd:
  assumes "inj_on f (dom f)" "\<And>k. f k \<noteq> Some a"
  shows "inj_on (f(k \<mapsto> a)) (dom (f(k \<mapsto> a)))"
proof (rule inj_onI)
  fix x y assume "x \<in> dom (f(k \<mapsto> a))" "y \<in> dom (f(k \<mapsto> a))" "(f(k \<mapsto> a)) x = (f(k \<mapsto> a)) y"
  then show "x = y" using assms(2) [of x] assms(2) [of y] inj_onD [OF assms(1), of x y] by (auto split: if_splits)
qed

lemma inv_link:
  assumes "ds_inv s"
  shows "ds_inv (link_new db short i s)"
proof -
  have t: "ds_inv (touch_db db s)" by (rule inv_touch [OF assms])
  have "table_ok (ds_local (link_new db short i s)) (ds_next_cv (link_new db short i s))"
    unfolding link_table by (rule table_ok_entry) (use t in \<open>auto simp: ds_inv_def\<close>)
  moreover have "ran ((faddr s)((db, short) \<mapsto> ds_next s)) \<subseteq> {..< Suc (ds_next s)}"
    using assms by (fastforce simp: ds_inv_def ran_def split: if_splits)
  moreover have "inj_on ((faddr s)((db, short) \<mapsto> ds_next s)) (dom ((faddr s)((db, short) \<mapsto> ds_next s)))"
    by (rule inj_on_map_upd) (use assms faddr_lt [OF assms] in \<open>auto simp: ds_inv_def\<close>)
  moreover have "\<forall>(cv, a) \<in> set (ds_blocked s). cv < ds_next_cv (touch_db db s) \<and> a < Suc (ds_next s)"
    using t by (auto simp: ds_inv_def less_Suc_eq)
  moreover have "dom ((ds_store s)(ds_next s \<mapsto> i)) = {..< Suc (ds_next s)}" using assms by (auto simp: ds_inv_def less_Suc_eq)
  ultimately show ?thesis by (simp add: ds_inv_def faddr_link link_table)
qed

lemma inj_on_restrict_map: "inj_on f (dom f) \<Longrightarrow> (\<And>k. g k = f k \<or> g k = None) \<Longrightarrow> inj_on g (dom g)"
  unfolding inj_on_def dom_def by (metis (mono_tags, lifting) mem_Collect_eq)

lemma inv_shrink:
  assumes "ds_inv s" "table_ok (ds_local s') (ds_next_cv s')" "\<And>k. faddr s' k = faddr s k \<or> faddr s' k = None"
    and "ds_store s' = ds_store s" "ds_next s' = ds_next s" "ds_next_cv s' = ds_next_cv s" "ds_blocked s' = ds_blocked s"
  shows "ds_inv s'"
proof -
  have "ran (faddr s') \<subseteq> ran (faddr s)" using assms(3) by (auto simp: ran_def) (metis option.distinct(1))
  moreover have "inj_on (faddr s') (dom (faddr s'))" using assms(1,3) inj_on_restrict_map unfolding ds_inv_def by blast
  ultimately show ?thesis using assms by (auto simp: ds_inv_def)
qed

lemma inv_unlink: "ds_inv s \<Longrightarrow> ds_inv (unlink db short s)"
  by (rule inv_shrink [of s]) (auto simp: faddr_unlink, auto simp: unlink_def ds_inv_def intro!: table_ok_entry)

lemma inv_clear: "ds_inv s \<Longrightarrow> ds_inv (clear_local_index_for_db db s)"
  by (rule inv_shrink [of s]) (auto simp: faddr_clear, auto simp: clear_local_index_for_db_def ds_inv_def intro!: table_ok_delete)

lemma inv_at_info: "ds_inv s \<Longrightarrow> ds_inv (at_info db short f s)"
  unfolding ds_inv_def by (auto simp: store_at_info split: option.splits)

lemma notify_blocked: "set (ds_blocked (notify_db db s)) \<subseteq> set (ds_blocked s)"
  by (auto simp: notify_db_def split: option.splits)

lemma inv_notify: "ds_inv s \<Longrightarrow> ds_inv (notify_db db s)"
  using notify_blocked [of db s] unfolding ds_inv_def by auto

lemma inv_cache_remove: "ds_inv s \<Longrightarrow> ds_inv (cache_remove full s)"
  by (simp add: ds_inv_def)


definition is_temp_at :: "(nat \<rightharpoonup> local_object_info) \<Rightarrow> nat \<Rightarrow> bool" where
  "is_temp_at store a = (case store a of None \<Rightarrow> False | Some info \<Rightarrow> lo_is_temp info)"

lemma map_of_filter_value:
  "umap_ok m \<Longrightarrow> map_of (filter (\<lambda>(k, v). P v) m) k = (case map_of m k of None \<Rightarrow> None | Some v \<Rightarrow> if P v then Some v else None)"
proof (induction m)
  case (Cons x m)
  then have "umap_ok m" "fst x \<notin> fst ` set m" by (auto simp: umap_ok_def)
  then show ?case using Cons.IH by (cases x) (auto simp: map_of_eq_None_iff split: option.splits)
qed simp

lemma faddr_cleanup:
  assumes "ds_inv s"
  shows "faddr (cleanup_temp_entries db s) k =
    (if fst k = db \<and> (\<exists>a. faddr s k = Some a \<and> is_temp_at (ds_store s) a) then None else faddr s k)"
proof (cases "map_of (ds_local s) db")
  case (Some dl)
  then have "umap_ok (dl_objects dl)" using assms by (auto simp: ds_inv_def table_ok_def)
  note filtered = map_of_filter_value [OF this, where P = "\<lambda>a. \<not> is_temp_at (ds_store s) a"]
  show ?thesis
  proof (cases "fst k = db")
    case True
    then have "faddr (cleanup_temp_entries db s) k = map_of (filter (\<lambda>(short, a). \<not> is_temp_at (ds_store s) a) (dl_objects dl)) (snd k)"
      using Some by (simp add: cleanup_temp_entries_def faddr_def find_addr_def map_of_alist_map_entry is_temp_at_def)
    moreover have "faddr s k = map_of (dl_objects dl) (snd k)" using True Some by (simp add: faddr_def find_addr_def)
    ultimately show ?thesis using True by (auto simp: filtered split: option.splits)
  qed (simp add: cleanup_temp_entries_def faddr_def find_addr_def map_of_alist_map_entry)
qed (auto simp: cleanup_temp_entries_def faddr_def find_addr_def map_of_alist_map_entry)

lemma inv_cleanup: "ds_inv s \<Longrightarrow> ds_inv (cleanup_temp_entries db s)"
proof (rule inv_shrink [of s])
  assume s: "ds_inv s"
  have "table_ok (AList.map_entry db (\<lambda>dl. dl\<lparr>dl_objects := filter (\<lambda>(short, a). \<not> is_temp_at (ds_store s) a) (dl_objects dl)\<rparr>) (ds_local s)) (ds_next_cv s)"
    by (rule table_ok_entry) (use s in \<open>auto simp: ds_inv_def\<close>)
  then show "table_ok (ds_local (cleanup_temp_entries db s)) (ds_next_cv (cleanup_temp_entries db s))"
    by (simp add: cleanup_temp_entries_def is_temp_at_def)
qed (simp_all add: faddr_cleanup, simp_all add: cleanup_temp_entries_def)

subsection \<open>Steps on objects\<close>

lemma view_cong: "faddr s' = faddr s \<Longrightarrow> ds_store s' = ds_store s \<Longrightarrow> view s' = view s"
  by (rule ext) (simp add: view_faddr split: option.split)

lemma view_touch [simp]: "view (touch_db db s) = view s"
  by (rule view_cong) simp_all

lemma view_notify [simp]: "view (notify_db db s) = view s"
  by (rule view_cong) simp_all

lemma view_cache_remove [simp]: "view (cache_remove full s) = view s"
  by (rule view_cong) simp_all

lemma view_link:
  assumes "ds_inv s"
  shows "view (link_new db short i s) = (view s)((db, short) \<mapsto> i)"
proof (rule ext)
  fix k
  have "faddr s k \<noteq> Some (ds_next s)" using faddr_lt [OF assms, of k] by auto
  then show "view (link_new db short i s) k = ((view s)((db, short) \<mapsto> i)) k"
    by (auto simp: view_faddr faddr_link split: option.splits)
qed

lemma view_unlink: "view (unlink db short s) = (view s)((db, short) := None)"
  by (auto simp: fun_eq_iff view_faddr faddr_unlink split: option.splits)

lemma view_at_info:
  assumes "ds_inv s"
  shows "view (at_info db short f s) = (view s)((db, short) := map_option f (view s (db, short)))"
proof (rule ext)
  fix k
  have "k = (db, short)" if "faddr s k = Some a" "faddr s (db, short) = Some a" for a
    using assms that unfolding ds_inv_def by (metis domI inj_onD)
  then show "view (at_info db short f s) k = ((view s)((db, short) := map_option f (view s (db, short)))) k"
    by (auto simp: view_faddr store_at_info split: option.splits)
qed

lemma view_clear: "view (clear_local_index_for_db db s) = (\<lambda>k. if fst k = db then None else view s k)"
proof (rule ext)
  fix k
  have "ds_store (clear_local_index_for_db db s) = ds_store s" by (simp add: clear_local_index_for_db_def)
  then show "view (clear_local_index_for_db db s) k = (if fst k = db then None else view s k)"
    by (simp add: view_faddr faddr_clear split: option.split)
qed

lemma view_cleanup:
  assumes "ds_inv s"
  shows "view (cleanup_temp_entries db s) =
    (\<lambda>k. case view s k of None \<Rightarrow> None | Some i \<Rightarrow> if fst k = db \<and> lo_is_temp i then None else Some i)"
proof (rule ext)
  fix k
  have store: "ds_store (cleanup_temp_entries db s) = ds_store s" by (simp add: cleanup_temp_entries_def)
  have "\<exists>i. ds_store s a = Some i" if "faddr s k = Some a" for a
    using faddr_lt [OF assms that] assms by (auto simp: ds_inv_def)
  then show "view (cleanup_temp_entries db s) k = (case view s k of None \<Rightarrow> None | Some i \<Rightarrow> if fst k = db \<and> lo_is_temp i then None else Some i)"
    by (cases "faddr s k") (auto simp: view_faddr store faddr_cleanup [OF assms] is_temp_at_def split: option.splits)
qed

lemma view_None:
  assumes "ds_inv s"
  shows "faddr s k = None \<longleftrightarrow> view s k = None"
proof (cases "faddr s k")
  case (Some a)
  then have "a \<in> dom (ds_store s)" using faddr_lt [OF assms Some] assms by (simp add: ds_inv_def)
  then show ?thesis using Some by (auto simp: view_faddr)
qed (simp add: view_faddr)


section \<open>Operations as a state machine\<close>

datatype ds_op =
    ObjectWritten string string index_entry
  | FlushDb string
  | WriteStarted string string
  | WriteCompleted string string "index_entry list"
  | WriteFailed string string
  | ObjectFlushed string
  | TempStarted string string
  | TempWrite string string "index_entry option"
  | RemoveLocal string
  | ClearLocal string
  | CleanupTemp string
  | Restore string "index_entry list"
  | RestoreTemp string "index_entry list"
  | ReadRaw file_store bool string

fun ds_exec :: "ds_op \<Rightarrow> ('t, 'v) data_service \<Rightarrow> ('t, 'v) data_service option" where
  "ds_exec (ObjectWritten db name e) s = Some (on_object_written db name e s)"
| "ds_exec (FlushDb db) s = Some (on_flush db s)"
| "ds_exec (WriteStarted db name) s = Some (on_write_started db name s)"
| "ds_exec (WriteCompleted db name es) s = Some (on_write_completed db name es s)"
| "ds_exec (WriteFailed db name) s = Some (on_write_failed db name s)"
| "ds_exec (ObjectFlushed name) s = Some (on_object_flushed name s)"
| "ds_exec (TempStarted db name) s = Some (on_temp_write_started db name s)"
| "ds_exec (TempWrite db name e) s = Some (on_temp_write db name e s)"
| "ds_exec (RemoveLocal name) s = Some (remove_local_index name s)"
| "ds_exec (ClearLocal db) s = Some (clear_local_index_for_db db s)"
| "ds_exec (CleanupTemp db) s = Some (cleanup_temp_entries db s)"
| "ds_exec (Restore db es) s = Some (restore_entries db es s)"
| "ds_exec (RestoreTemp db es) s = Some (restore_temp_entries db es s)"
| "ds_exec (ReadRaw fs w name) s = Some (snd (try_read_local_raw fs w name s))"

text \<open>The abstract index: a map from names to infos.\<close>

type_synonym object_view = "string \<times> string \<rightharpoonup> local_object_info"

definition at_view :: "string \<times> string \<Rightarrow> (local_object_info \<Rightarrow> local_object_info) \<Rightarrow> object_view \<Rightarrow> object_view" where
  "at_view k f v = v(k := map_option f (v k))"

definition put_view :: "string \<times> string \<Rightarrow> (local_object_info \<Rightarrow> local_object_info) \<Rightarrow> object_view \<Rightarrow> object_view" where
  "put_view k f v = v(k \<mapsto> f (case v k of None \<Rightarrow> new_info | Some i \<Rightarrow> i))"

abbreviation obj_key :: "string \<Rightarrow> string \<Rightarrow> string \<times> string" where
  "obj_key db name \<equiv> (db, snd (split_full name))"

definition restored :: "string \<Rightarrow> index_entry list \<Rightarrow> local_object_info \<Rightarrow> local_object_info" where
  "restored db es i = i\<lparr>lo_db_path := db, lo_entries := fold add_restored es (lo_entries i), lo_state := COMPLETE, lo_flushed := True\<rparr>"

definition restored_temp :: "string \<Rightarrow> index_entry \<Rightarrow> local_object_info \<Rightarrow> local_object_info" where
  "restored_temp db e i =
     (let i = i\<lparr>lo_db_path := db, lo_is_temp := True\<rparr>
      in if same_write (lo_entries i) e then i
         else i\<lparr>lo_entries := lo_entries i @ [e], lo_state := COMPLETE, lo_flushed := True\<rparr>)"

fun view_spec :: "ds_op \<Rightarrow> object_view \<Rightarrow> object_view" where
  "view_spec (ObjectWritten db name e) v =
     put_view (obj_key db name) (\<lambda>i. i\<lparr>lo_db_path := db, lo_entries := lo_entries i @ [e], lo_flushed := False, lo_state := COMPLETE\<rparr>) v"
| "view_spec (FlushDb db) v = (\<lambda>k. if fst k = db then map_option (\<lambda>i. i\<lparr>lo_flushed := True\<rparr>) (v k) else v k)"
| "view_spec (WriteStarted db name) v =
     (if map_option lo_state (v (obj_key db name)) = Some COMPLETE then v else v(obj_key db name \<mapsto> new_info\<lparr>lo_db_path := db\<rparr>))"
| "view_spec (WriteCompleted db name es) v = at_view (obj_key db name) (\<lambda>i. i\<lparr>lo_entries := es, lo_state := COMPLETE\<rparr>) v"
| "view_spec (WriteFailed db name) v = v(obj_key db name := None)"
| "view_spec (ObjectFlushed name) v = at_view (split_full name) (\<lambda>i. i\<lparr>lo_flushed := True\<rparr>) v"
| "view_spec (TempStarted db name) v = v(obj_key db name \<mapsto> new_info\<lparr>lo_db_path := db, lo_is_temp := True\<rparr>)"
| "view_spec (TempWrite db name eo) v =
     at_view (obj_key db name) (\<lambda>i. (case eo of None \<Rightarrow> i | Some e \<Rightarrow> i\<lparr>lo_entries := [e]\<rparr>)\<lparr>lo_state := COMPLETE\<rparr>) v"
| "view_spec (RemoveLocal name) v = v(split_full name := None)"
| "view_spec (ClearLocal db) v = (\<lambda>k. if fst k = db then None else v k)"
| "view_spec (CleanupTemp db) v = (\<lambda>k. case v k of None \<Rightarrow> None | Some i \<Rightarrow> if fst k = db \<and> lo_is_temp i then None else Some i)"
| "view_spec (Restore db es) v = fold (\<lambda>(short, es). put_view (db, short) (restored db es)) (group_entries es) v"
| "view_spec (RestoreTemp db es) v = fold (\<lambda>e. put_view (db, ie_object_name e) (restored_temp db e)) es v"
| "view_spec (ReadRaw fs w name) v = v"

subsection \<open>Every operation implements its effect on the map\<close>

text \<open>A step keeps the invariant and has the effect \<open>f\<close> on the map.\<close>

definition implements :: "(('t, 'v) data_service \<Rightarrow> ('t, 'v) data_service) \<Rightarrow> (object_view \<Rightarrow> object_view) \<Rightarrow> bool" where
  "implements g f \<longleftrightarrow> (\<forall>s. ds_inv s \<longrightarrow> ds_inv (g s) \<and> view (g s) = f (view s))"

lemma implementsD: "implements g f \<Longrightarrow> ds_inv s \<Longrightarrow> ds_inv (g s) \<and> view (g s) = f (view s)"
  by (simp add: implements_def)

lemma implements_fold:
  assumes "\<And>x. implements (g x) (f x)"
  shows "implements (fold g xs) (fold f xs)"
proof -
  have "ds_inv (fold g xs s) \<and> view (fold g xs s) = fold f xs (view s)" if "ds_inv s" for s
    using that
  proof (induction xs arbitrary: s)
    case (Cons x xs)
    then show ?case using implementsD [OF assms [of x]] by simp
  qed simp
  then show ?thesis by (simp add: implements_def)
qed

lemma implements_put:
  "implements (\<lambda>s. at_info db short f (if find_addr s db short = None then link_new db short new_info s else s)) (put_view (db, short) f)"
  unfolding implements_def
proof (intro allI impI)
  fix s :: "('t, 'v) data_service" assume s: "ds_inv s"
  let ?s = "if find_addr s db short = None then link_new db short new_info s else s"
  have i: "ds_inv ?s" using s by (simp add: inv_link)
  moreover have "view (at_info db short f ?s) = put_view (db, short) f (view s)"
    unfolding view_at_info [OF i]
    using s view_None [OF s, of "(db, short)"]
    by (auto simp: put_view_def faddr_pair view_link split: option.split)
  ultimately show "ds_inv (at_info db short f ?s) \<and> view (at_info db short f ?s) = put_view (db, short) f (view s)"
    by (simp add: inv_at_info)
qed

lemma implements_at:
  "implements (\<lambda>s. at_info db short f s) (at_view (db, short) f)"
  by (simp add: implements_def inv_at_info view_at_info at_view_def)


lemma implements_comp: "implements g f \<Longrightarrow> implements g' f' \<Longrightarrow> implements (\<lambda>s. g' (g s)) (\<lambda>v. f' (f v))"
  by (simp add: implements_def)

lemma implements_id:
  "implements (notify_db db) (\<lambda>v. v)" "implements (touch_db db) (\<lambda>v. v)" "implements (cache_remove full) (\<lambda>v. v)"
  by (simp_all add: implements_def inv_notify inv_touch inv_cache_remove)

lemma implements_cache_removes: "implements (fold (\<lambda>x. cache_remove (f x)) xs) (\<lambda>v. v)"
proof -
  have "fold (\<lambda>x (v :: object_view). v) xs = (\<lambda>v. v)" by (induction xs) auto
  then show ?thesis
    using implements_fold [of "\<lambda>x. cache_remove (f x)" "\<lambda>x v. v" xs, OF implements_id(3)] by simp
qed

text \<open>An operation on an object that is not in the index does nothing.\<close>

lemma implements_guard:
  fixes g :: "('a, 'b) data_service \<Rightarrow> ('a, 'b) data_service"
  assumes "implements g f" and "\<And>v. v k = None \<Longrightarrow> f v = v"
  shows "implements (\<lambda>s. case find_addr s (fst k) (snd k) of None \<Rightarrow> s | Some _ \<Rightarrow> g s) f"
  unfolding implements_def
proof (intro allI impI)
  fix s :: "('a, 'b) data_service" assume s: "ds_inv s"
  show "ds_inv (case find_addr s (fst k) (snd k) of None \<Rightarrow> s | Some _ \<Rightarrow> g s) \<and>
      view (case find_addr s (fst k) (snd k) of None \<Rightarrow> s | Some _ \<Rightarrow> g s) = f (view s)"
    using implementsD [OF assms(1) s] s assms(2) [of "view s"] view_None [OF s, of k]
    by (cases "faddr s k") (simp_all add: faddr_pair)
qed

lemma implements_completed: "implements (on_write_completed db name es) (view_spec (WriteCompleted db name es))"
proof -
  have "implements (\<lambda>s. notify_db db (at_info db (snd (split_full name)) (\<lambda>i. i\<lparr>lo_entries := es, lo_state := COMPLETE\<rparr>) s))
      (view_spec (WriteCompleted db name es))"
    by (simp add: implements_def inv_notify inv_at_info view_at_info at_view_def)
  from implements_guard [OF this, of "obj_key db name"] show ?thesis
    by (simp add: on_write_completed_def [abs_def] Let_def at_view_def fun_upd_idem)
qed

lemma implements_failed: "implements (on_write_failed db name) (view_spec (WriteFailed db name))"
proof -
  let ?g = "\<lambda>s. notify_db db (unlink db (snd (split_full name)) (at_info db (snd (split_full name)) (\<lambda>i. i\<lparr>lo_state := FAILED\<rparr>) s))"
  have "implements ?g (view_spec (WriteFailed db name))"
    by (simp add: implements_def inv_notify inv_unlink inv_at_info view_unlink view_at_info)
  from implements_guard [OF this, of "obj_key db name"] show ?thesis
    by (simp add: on_write_failed_def [abs_def] Let_def fun_upd_idem)
qed

lemma implements_flushed: "implements (on_object_flushed name) (view_spec (ObjectFlushed name))"
proof -
  let ?g = "\<lambda>s. notify_db (fst (split_full name)) (at_info (fst (split_full name)) (snd (split_full name)) (\<lambda>i. i\<lparr>lo_flushed := True\<rparr>) s)"
  have "implements ?g (view_spec (ObjectFlushed name))"
    by (simp add: implements_def inv_notify inv_at_info view_at_info at_view_def)
  from implements_guard [OF this, of "split_full name"] show ?thesis
    by (simp add: on_object_flushed_def [abs_def] split_beta at_view_def fun_upd_idem)
qed

lemma implements_temp_write: "implements (on_temp_write db name eo) (view_spec (TempWrite db name eo))"
proof -
  let ?f = "\<lambda>i. (case eo of None \<Rightarrow> i | Some e \<Rightarrow> i\<lparr>lo_entries := [e]\<rparr>)\<lparr>lo_state := COMPLETE\<rparr>"
  let ?g = "\<lambda>s. notify_db db (at_info db (snd (split_full name)) ?f s)"
  have "implements ?g (view_spec (TempWrite db name eo))"
    by (simp add: implements_def inv_notify inv_at_info view_at_info at_view_def)
  from implements_comp [OF implements_id(2) [of db] implements_guard [OF this, of "obj_key db name"]]
  have "implements (on_temp_write db name eo) (\<lambda>v. view_spec (TempWrite db name eo) v)"
    by (simp add: on_temp_write_def [abs_def] Let_def at_view_def fun_upd_idem)
  then show ?thesis .
qed

lemma implements_started: "implements (on_write_started db name) (view_spec (WriteStarted db name))"
  unfolding implements_def
proof (intro allI impI)
  fix s :: "('t, 'v) data_service" assume s: "ds_inv s"
  then have t: "ds_inv (touch_db db s)" by (rule inv_touch)
  show "ds_inv (on_write_started db name s) \<and> view (on_write_started db name s) = view_spec (WriteStarted db name) (view s)"
    using t view_link [OF t]
    by (auto simp: on_write_started_def Let_def view_pair inv_link split: option.splits)
qed

lemma view_at_infos:
  assumes "ds_inv s" "\<And>i. f (f i) = f i"
  shows "ds_inv (fold (\<lambda>(short, a). at_info db short f) xs s) \<and>
    view (fold (\<lambda>(short, a). at_info db short f) xs s) = (\<lambda>k. if fst k = db \<and> snd k \<in> fst ` set xs then map_option f (view s k) else view s k)"
  using assms(1)
proof (induction xs arbitrary: s)
  case (Cons x xs)
  have ff: "map_option f (map_option f z) = map_option f z" for z using assms(2) by (cases z) auto
  have "ds_inv (at_info db (fst x) f s)" by (rule inv_at_info [OF Cons.prems])
  from Cons.IH [OF this] show ?case
    by (auto simp: split_beta view_at_info [OF Cons.prems] fun_eq_iff ff)
qed (simp add: fun_eq_iff)

lemma implements_flush: "implements (on_flush db) (view_spec (FlushDb db))"
  unfolding implements_def
proof (intro allI impI)
  fix s :: "('t, 'v) data_service" assume s: "ds_inv s"
  show "ds_inv (on_flush db s) \<and> view (on_flush db s) = view_spec (FlushDb db) (view s)"
  proof (cases "map_of (ds_local s) db")
    case None
    then have "view s k = None" if "fst k = db" for k using that by (simp add: view_faddr faddr_def find_addr_def)
    then show ?thesis using s None by (auto simp: on_flush_def fun_eq_iff)
  next
    case (Some dl)
    then have "view s k = None" if "fst k = db" "snd k \<notin> fst ` set (dl_objects dl)" for k
      using that by (simp add: view_faddr faddr_def find_addr_def map_of_eq_None_iff [THEN iffD2])
    then show ?thesis
      using Some view_at_infos [OF s, of "\<lambda>i. i\<lparr>lo_flushed := True\<rparr>" db "dl_objects dl"]
      by (auto simp: on_flush_def inv_notify fun_eq_iff)
  qed
qed


lemma implements_restore: "implements (restore_entries db es) (view_spec (Restore db es))"
proof -
  have "implements (restore_object db x) (case x of (short, es) \<Rightarrow> put_view (db, short) (restored db es))" for x
    using implements_put [of db "fst x" "restored db (snd x)"]
    by (simp add: restore_object_def restored_def [abs_def] Let_def split_beta)
  from implements_fold [of "restore_object db" "\<lambda>(short, es). put_view (db, short) (restored db es)" "group_entries es", OF this]
  have "implements (fold (restore_object db) (group_entries es)) (view_spec (Restore db es))" by (simp add: implements_def)
  from implements_comp [OF implements_comp [OF implements_id(2) [of db] this]
      implements_cache_removes [of "\<lambda>x. full_name db (fst x)" "group_entries es"]]
  have "implements (\<lambda>s. fold (\<lambda>x. cache_remove (full_name db (fst x))) (group_entries es) (fold (restore_object db) (group_entries es) (touch_db db s)))
      (view_spec (Restore db es))" by (simp add: implements_def)
  then show ?thesis by (simp add: restore_entries_def [abs_def] Let_def case_prod_unfold)
qed

lemma implements_restore_temp: "implements (restore_temp_entries db es) (view_spec (RestoreTemp db es))"
  unfolding implements_def
proof (intro allI impI)
  fix s :: "('a, 'b) data_service" assume s: "ds_inv s"
  have one: "implements (restore_temp_entry db e) (put_view (db, ie_object_name e) (restored_temp db e))" for e
    using implements_put [of db "ie_object_name e" "restored_temp db e"]
    by (simp add: restore_temp_entry_def [abs_def] restored_temp_def [abs_def] Let_def)
  let ?g = "\<lambda>e (s, touched). (restore_temp_entry db e s, touched @ temp_touched db e s)"
  have fst: "fst (fold ?g es (t, l)) = fold (restore_temp_entry db) es t" for t :: "('a, 'b) data_service" and l
    by (induction es arbitrary: t l) auto
  obtain t l where tl: "fold ?g es (touch_db db s, []) = (t, l)" by fastforce
  have "ds_inv t \<and> view t = view_spec (RestoreTemp db es) (view s)"
    using implementsD [OF implements_fold [of "restore_temp_entry db" "\<lambda>e. put_view (db, ie_object_name e) (restored_temp db e)" es, OF one] inv_touch [OF s]] fst [of "touch_db db s" "[]"] tl by simp
  then have "ds_inv (fold cache_remove l t) \<and> view (fold cache_remove l t) = view_spec (RestoreTemp db es) (view s)"
    using implementsD [OF implements_cache_removes [of "\<lambda>x. x" l], of t] by simp
  then show "ds_inv (restore_temp_entries db es s) \<and> view (restore_temp_entries db es s) = view_spec (RestoreTemp db es) (view s)"
    by (simp only: restore_temp_entries_def tl prod.case)
qed

lemma lookup_NotReady:
  "lookup_under_lock s name = NotReady a \<Longrightarrow> faddr s (split_full name) = Some a \<and> (\<exists>i. ds_store s a = Some i \<and> lo_state i \<noteq> COMPLETE)"
  by (auto simp: lookup_under_lock_def split_beta faddr_def split: option.splits if_splits)

lemma try_read_cases:
  "snd (try_read_local_raw fs w name s) = s \<and> fst (try_read_local_raw fs w name s) \<noteq> LocalBlocked \<or>
   (\<exists>dl a. try_read_local_raw fs w name s = (LocalBlocked, s\<lparr>ds_blocked := ds_blocked s @ [(dl_cv dl, a)]\<rparr>) \<and>
      map_of (ds_local s) (fst (split_full name)) = Some dl \<and> faddr s (split_full name) = Some a \<and> still_waiting (ds_store s) a)"
proof (cases "lookup_under_lock s name")
  case (NotReady a)
  then show ?thesis
    using lookup_NotReady [OF NotReady]
    by (cases "map_of (ds_local s) (fst (split_full name))") (auto simp: try_read_local_raw_def)
qed (auto simp: try_read_local_raw_def read_located_def split: read_out.splits)

lemma blocked_read:
  assumes "try_read_local_raw fs w name s = (LocalBlocked, s1)"
  obtains dl a where "s1 = s\<lparr>ds_blocked := ds_blocked s @ [(dl_cv dl, a)]\<rparr>"
    "map_of (ds_local s) (fst (split_full name)) = Some dl" "faddr s (split_full name) = Some a" "still_waiting (ds_store s) a"
  using try_read_cases [of fs w name s] unfolding assms by (simp, elim exE conjE) (rule that)

lemma implements_read: "implements (\<lambda>s. snd (try_read_local_raw fs w name s)) (\<lambda>v. v)"
  unfolding implements_def
proof (intro allI impI)
  fix s :: "('a, 'b) data_service" assume s: "ds_inv s"
  consider "snd (try_read_local_raw fs w name s) = s"
    | dl a where "snd (try_read_local_raw fs w name s) = s\<lparr>ds_blocked := ds_blocked s @ [(dl_cv dl, a)]\<rparr>"
        "map_of (ds_local s) (fst (split_full name)) = Some dl" "faddr s (split_full name) = Some a"
    using try_read_cases [of fs w name s] by auto
  then show "ds_inv (snd (try_read_local_raw fs w name s)) \<and> view (snd (try_read_local_raw fs w name s)) = view s"
  proof cases
    case (2 dl a)
    have "dl_cv dl < ds_next_cv s" "a < ds_next s"
      using s 2 faddr_lt [OF s 2(3)] by (auto simp: ds_inv_def table_ok_def)
    moreover have "faddr (s\<lparr>ds_blocked := b\<rparr>) = faddr s" for b by (simp add: faddr_def find_addr_def fun_eq_iff)
    moreover from this have "view (s\<lparr>ds_blocked := b\<rparr>) = view s" for b by (rule view_cong) simp
    ultimately show ?thesis using s 2(1) by (simp add: ds_inv_def)
  qed (simp add: s)
qed

lemma ds_step:
  assumes "ds_inv s" "ds_exec op s = Some s'"
  shows "ds_inv s' \<and> view s' = view_spec op (view s)"
proof -
  note imps = implements_completed implements_failed implements_flushed implements_temp_write implements_started implements_flush
    implements_restore implements_restore_temp implements_read
  show ?thesis
  proof (cases op)
    case (ObjectWritten db name e)
    then show ?thesis
      using assms implementsD [OF implements_put [of db "snd (split_full name)"] assms(1)] by (auto simp: on_object_written_def Let_def)
  next
    case (TempStarted db name)
    then show ?thesis using assms by (auto simp: on_temp_write_started_def inv_link view_link)
  next
    case (RemoveLocal name)
    then show ?thesis
      using assms by (auto simp: remove_local_index_def split_beta inv_cache_remove inv_unlink view_unlink)
  qed (use assms in \<open>auto simp: inv_clear view_clear inv_cleanup view_cleanup simp del: view_spec.simps dest: imps [THEN implementsD]\<close>,
       use assms in \<open>auto simp: inv_clear view_clear inv_cleanup view_cleanup dest: imps [THEN implementsD]\<close>)
qed


interpretation dsi: component_invariant ds_exec any_op "new_data_service oc" ds_inv for oc
proof
  show "ds_inv (new_data_service oc)"
    by (simp add: ds_inv_def new_data_service_def table_ok_def faddr_def find_addr_def ran_def dom_def)
qed (use ds_step in blast)

section \<open>Infos that are no longer in the index\<close>

text \<open>
  What happens to an info that no name points to: nothing.  Its contents stay, no name points to it
  again, and a reader that waits for it keeps waiting.
\<close>

definition unlinked :: "('t, 'v) data_service \<Rightarrow> nat \<Rightarrow> bool" where
  "unlinked s a \<longleftrightarrow> a < ds_next s \<and> a \<notin> ran (faddr s)"

definition frame :: "('t, 'v) data_service \<Rightarrow> ('t, 'v) data_service \<Rightarrow> bool" where
  "frame s s' \<longleftrightarrow> (\<forall>a. unlinked s a \<longrightarrow> unlinked s' a \<and> ds_store s' a = ds_store s a \<and>
     (\<forall>cv. (cv, a) \<in> set (ds_blocked s) \<longrightarrow> still_waiting (ds_store s) a \<longrightarrow> (cv, a) \<in> set (ds_blocked s')))"

lemma frame_refl [simp, intro!]: "frame s s"
  by (simp add: frame_def)

lemma frame_trans: "frame s s' \<Longrightarrow> frame s' s'' \<Longrightarrow> frame s s''"
  by (simp add: frame_def still_waiting_def)

lemma frame_fold: "(\<And>x t. frame t (g x t)) \<Longrightarrow> frame s (fold g xs s)"
  by (induction xs arbitrary: s) (auto intro: frame_trans)

lemma frame_same:
  assumes "ds_next s' = ds_next s" "\<And>k. faddr s' k = faddr s k \<or> faddr s' k = None" "ds_store s' = ds_store s"
    and "set (ds_blocked s) \<subseteq> set (ds_blocked s')"
  shows "frame s s'"
proof -
  have "ran (faddr s') \<subseteq> ran (faddr s)" using assms(2) by (auto simp: ran_def) (metis option.distinct(1))
  then show ?thesis using assms by (auto simp: frame_def unlinked_def)
qed

lemma frame_link: "frame s (link_new db short i s)"
proof -
  have "ran (faddr (link_new db short i s)) \<subseteq> insert (ds_next s) (ran (faddr s))" by (auto simp: faddr_link ran_def)
  then show ?thesis by (auto simp: frame_def unlinked_def)
qed

lemma frame_at_info: "frame s (at_info db short f s)"
  by (auto simp: frame_def unlinked_def store_at_info ranI split: option.split)

lemma frame_notify: "frame s (notify_db db s)"
  by (auto simp: frame_def unlinked_def notify_db_def split: option.split) (auto simp: faddr_def find_addr_def ran_def)

lemma frame_unlink: "frame s (unlink db short s)"
  by (rule frame_same) (auto simp: faddr_unlink)

lemma frame_clear: "frame s (clear_local_index_for_db db s)"
  by (rule frame_same) (simp_all add: faddr_clear, simp_all add: clear_local_index_for_db_def)

lemma frame_touch: "frame s (touch_db db s)"
  by (rule frame_same) auto

lemma frame_cache_remove: "frame s (cache_remove full s)"
  by (rule frame_same) auto

lemma frame_block: "frame s (s\<lparr>ds_blocked := ds_blocked s @ w\<rparr>)"
  by (rule frame_same) (auto simp: faddr_def find_addr_def)

lemma frame_cleanup: "ds_inv s \<Longrightarrow> frame s (cleanup_temp_entries db s)"
  by (rule frame_same) (simp_all add: faddr_cleanup, simp_all add: cleanup_temp_entries_def)

lemma frame_comp: "(\<And>s. frame s (f s)) \<Longrightarrow> (\<And>s. frame s (g s)) \<Longrightarrow> frame s (f (g s))"
  by (blast intro: frame_trans)


lemmas frames = frame_link frame_at_info frame_notify frame_unlink frame_clear frame_touch frame_cache_remove frame_block

lemmas frame_steps = frames [THEN frame_trans [rotated]]

lemma frame_put: "frame s (at_info db short f (if find_addr s db short = None then link_new db short i s else s))"
  by (cases "find_addr s db short") (auto intro: frames frame_trans)

lemma frame_restore_temp: "frame s (restore_temp_entries db es s)"
proof -
  let ?g = "\<lambda>e (s, touched). (restore_temp_entry db e s, touched @ temp_touched db e s)"
  have fst: "fst (fold ?g es (t, l)) = fold (restore_temp_entry db) es t" for t :: "('a, 'b) data_service" and l
    by (induction es arbitrary: t l) auto
  obtain t l where tl: "fold ?g es (touch_db db s, []) = (t, l)" by fastforce
  have "frame (touch_db db s) (fold (restore_temp_entry db) es (touch_db db s))"
    by (rule frame_fold) (simp add: restore_temp_entry_def Let_def frame_put)
  then have "frame s t" using fst [of "touch_db db s" "[]"] tl by (auto intro: frames frame_trans)
  moreover have "frame t (fold cache_remove l t)" by (rule frame_fold) (rule frames)
  ultimately show ?thesis by (simp only: restore_temp_entries_def tl prod.case) (rule frame_trans)
qed

lemma frame_restore: "frame s (restore_entries db es s)"
proof -
  have "frame t (fold (restore_object db) g t)" for g and t :: "('a, 'b) data_service"
    by (rule frame_fold) (simp add: restore_object_def Let_def split_beta frame_put)
  moreover have "frame t (fold (\<lambda>(short, _). cache_remove (full_name db short)) g t)" for g :: "(string \<times> index_entry list) list" and t :: "('a, 'b) data_service"
    by (rule frame_fold) (simp add: split_beta frames)
  ultimately show ?thesis by (simp add: restore_entries_def Let_def) (meson frame_touch frame_trans)
qed

lemma frame_exec:
  assumes "ds_inv s" "ds_exec op s = Some s'"
  shows "frame s s'"
proof (cases op)
  case (ObjectWritten db name e)
  then have "s' = on_object_written db name e s" using assms(2) by simp
  then show ?thesis by (simp only: on_object_written_def Let_def frame_put)
next
  case (FlushDb db)
  have "frame t (notify_db db (fold (\<lambda>(short, a). at_info db short f) xs t))" for f xs and t :: "('a, 'b) data_service"
  proof -
    have "frame t (fold (\<lambda>(short, a). at_info db short f) xs t)" by (rule frame_fold) (simp add: split_beta frames)
    then show ?thesis by (rule frame_trans) (rule frames)
  qed
  then show ?thesis using FlushDb assms(2) by (auto simp: on_flush_def split: option.splits)
next
  case (WriteStarted db name)
  then show ?thesis
    using assms(2) by (auto simp: on_write_started_def Let_def split: option.splits if_splits intro!: frame_steps)
next
  case (ReadRaw fs w name)
  then show ?thesis using assms(2) try_read_cases [of fs w name s] by (auto intro: frames)
next
  case (CleanupTemp db)
  then show ?thesis using assms by (auto intro: frame_cleanup)
qed (use assms(2) in \<open>auto simp: on_write_completed_def on_write_failed_def on_object_flushed_def on_temp_write_def on_temp_write_started_def
       remove_local_index_def Let_def split_beta frame_restore frame_restore_temp split: option.splits intro!: frame_steps\<close>)

lemma frame_run:
  assumes "ds_inv s" "run_ops ds_exec ok ops s = Some s'"
  shows "ds_inv s' \<and> frame s s'"
  using assms
proof (induction ops arbitrary: s)
  case (Cons op ops)
  obtain s1 where s1: "ds_exec op s = Some s1" "run_ops ds_exec ok ops s1 = Some s'"
    using Cons.prems(2) by (auto split: if_splits option.splits)
  then have "ds_inv s1" "frame s s1" using ds_step [OF Cons.prems(1)] frame_exec [OF Cons.prems(1)] by auto
  then show ?case using Cons.IH [OF _ s1(2)] frame_trans by blast
qed simp


section \<open>Objects that stay in the index\<close>

text \<open>Operations that replace or drop the info of an object.\<close>

fun relinks :: "string \<times> string \<Rightarrow> ds_op \<Rightarrow> bool" where
  "relinks k (WriteStarted db name) \<longleftrightarrow> obj_key db name = k"
| "relinks k (TempStarted db name) \<longleftrightarrow> obj_key db name = k"
| "relinks k (WriteFailed db name) \<longleftrightarrow> obj_key db name = k"
| "relinks k (RemoveLocal name) \<longleftrightarrow> split_full name = k"
| "relinks k (ClearLocal db) \<longleftrightarrow> fst k = db"
| "relinks k (CleanupTemp db) \<longleftrightarrow> fst k = db"
| "relinks k _ \<longleftrightarrow> False"

text \<open>The object \<open>k\<close> keeps its info \<open>a\<close> and its database the condition variable \<open>cv\<close>.\<close>

definition holds_at :: "string \<times> string \<Rightarrow> nat \<Rightarrow> nat \<Rightarrow> ('t, 'v) data_service \<Rightarrow> bool" where
  "holds_at k cv a s \<longleftrightarrow> faddr s k = Some a \<and> cv_of s (fst k) = Some cv"

lemma cv_touch: "cv_of s d = Some cv \<Longrightarrow> cv_of (touch_db db s) d = Some cv"
  by (auto simp: cv_of_def touch_db_def split: option.splits)

lemma cv_link: "cv_of s d = Some cv \<Longrightarrow> cv_of (link_new db short i s) d = Some cv"
  using cv_touch [of s d cv db] by (auto simp: cv_of_def link_table map_of_alist_map_entry split: if_splits)

lemma cv_same [simp]:
  "cv_of (at_info db short f s) = cv_of s" "cv_of (notify_db db s) = cv_of s" "cv_of (cache_remove full s) = cv_of s"
  "cv_of (unlink db short s) = cv_of s"
  by (simp_all add: cv_of_def fun_eq_iff, simp add: unlink_def map_of_alist_map_entry option.map_comp comp_def)

lemma holds_touch: "holds_at k cv a s \<Longrightarrow> holds_at k cv a (touch_db db s)"
  by (simp add: holds_at_def cv_touch)

lemma holds_link: "holds_at k cv a s \<Longrightarrow> k \<noteq> (db, short) \<Longrightarrow> holds_at k cv a (link_new db short i s)"
  by (simp add: holds_at_def cv_link faddr_link)

lemma holds_steps [simp]:
  "holds_at k cv a (at_info db short f s) = holds_at k cv a s" "holds_at k cv a (notify_db db s) = holds_at k cv a s"
  "holds_at k cv a (cache_remove full s) = holds_at k cv a s"
  by (simp_all add: holds_at_def)

lemma holds_put:
  "holds_at k cv a s \<Longrightarrow> holds_at k cv a (at_info db short f (if find_addr s db short = None then link_new db short i s else s))"
  by (cases "k = (db, short)") (auto simp: holds_link, simp add: holds_at_def faddr_pair)

lemma holds_unlink: "holds_at k cv a s \<Longrightarrow> k \<noteq> (db, short) \<Longrightarrow> holds_at k cv a (unlink db short s)"
  by (simp add: holds_at_def faddr_unlink)

lemma holds_fold: "(\<And>x t. holds_at k cv a t \<Longrightarrow> holds_at k cv a (g x t)) \<Longrightarrow> holds_at k cv a s \<Longrightarrow> holds_at k cv a (fold g xs s)"
  by (induction xs arbitrary: s) auto


lemma holds_restore: "holds_at k cv a s \<Longrightarrow> holds_at k cv a (restore_entries db es s)"
  unfolding restore_entries_def Let_def
  by (rule holds_fold, simp add: split_beta, rule holds_fold)
     (simp_all add: restore_object_def Let_def split_beta holds_put [simplified] holds_touch)

lemma holds_restore_temp:
  assumes "holds_at k cv a s"
  shows "holds_at k cv a (restore_temp_entries db es s)"
proof -
  let ?g = "\<lambda>e (s, touched). (restore_temp_entry db e s, touched @ temp_touched db e s)"
  have "holds_at k cv a (fst (fold ?g es (t, l)))" if "holds_at k cv a t" for t :: "('a, 'b) data_service" and l
    using that
  proof (induction es arbitrary: t l)
    case (Cons e es)
    have "holds_at k cv a (restore_temp_entry db e t)"
      using holds_put [OF Cons.prems] by (simp only: restore_temp_entry_def Let_def)
    then show ?case using Cons.IH by simp
  qed simp
  from this [OF holds_touch [OF assms, of db], of "[]"] show ?thesis
    by (auto simp: restore_temp_entries_def split: prod.split intro!: holds_fold)
qed

lemma holds_exec:
  assumes "holds_at k cv a s" "\<not> relinks k op" "ds_exec op s = Some s'"
  shows "holds_at k cv a s'"
proof (cases op)
  case (ObjectWritten db name e)
  then have "s' = on_object_written db name e s" using assms(3) by simp
  then show ?thesis using holds_put [OF assms(1)] by (simp only: on_object_written_def Let_def)
next
  case (FlushDb db)
  have "holds_at k cv a (fold (\<lambda>(short, a). at_info db short f) xs s)" for f xs
    by (rule holds_fold) (simp_all add: split_beta assms(1))
  then show ?thesis using FlushDb assms(1,3) by (auto simp: on_flush_def split: option.splits)
next
  case (ReadRaw fs w name)
  then show ?thesis
    using assms(1,3) try_read_cases [of fs w name s] by (auto simp: holds_at_def cv_of_def faddr_def find_addr_def)
next
  case (ClearLocal db)
  then show ?thesis using assms by (auto simp: holds_at_def faddr_clear cv_of_def) (simp add: clear_local_index_for_db_def)
next
  case (CleanupTemp db)
  then show ?thesis
    using assms by (auto simp: holds_at_def cv_of_def faddr_def find_addr_def cleanup_temp_entries_def map_of_alist_map_entry)
qed (use assms in \<open>auto simp: on_write_completed_def on_write_failed_def on_write_started_def on_object_flushed_def on_temp_write_def
       on_temp_write_started_def remove_local_index_def Let_def split_beta holds_restore holds_restore_temp holds_touch holds_link holds_unlink
       split: option.splits\<close>)

lemma holds_run:
  assumes "holds_at k cv a s" "run_ops ds_exec (\<lambda>_ op. \<not> relinks k op) ops s = Some s'"
  shows "holds_at k cv a s'"
  using assms
proof (induction ops arbitrary: s)
  case (Cons op ops)
  then obtain s1 where "ds_exec op s = Some s1" "\<not> relinks k op" "run_ops ds_exec (\<lambda>_ op. \<not> relinks k op) ops s1 = Some s'"
    by (auto split: if_splits option.splits)
  then show ?case using Cons.IH holds_exec [OF Cons.prems(1)] by blast
qed simp


section \<open>Properties\<close>

lemma view_new: "view (new_data_service oc) = Map.empty"
  by (simp add: fun_eq_iff view_faddr faddr_def find_addr_def new_data_service_def)

text \<open>
  C30: After any sequence of operations the local index is exactly the map from object names to infos
  that the operations describe: an operation on one object never changes another, although the infos are
  shared objects.  The queries answer from that map.
\<close>

theorem local_index_refines:
  assumes "run_ops ds_exec any_op ops (new_data_service oc) = Some s" and v: "v = fold view_spec ops Map.empty"
  shows "view s = v \<and>
    has_local_object s name = (map_option lo_state (v (split_full name)) = Some COMPLETE) \<and>
    is_write_in_progress s name = (map_option lo_state (v (split_full name)) = Some INCOMPLETE) \<and>
    find_local_entries s name = map_option lo_entries (v (split_full name))"
proof -
  have "ds_inv s \<and> view s = fold view_spec ops Map.empty"
    using assms(1) dsi.inv_init view_new by (intro run_ops_simulation [where ok = any_op and I = ds_inv]) (auto dest: ds_step)
  then show ?thesis unfolding v
    by (auto simp: has_local_object_def is_write_in_progress_def find_local_entries_def view_pair split_beta split: option.splits)
qed

definition demo_entry :: index_entry where
  "demo_entry = \<lparr>ie_object_name = ''x'', ie_file_name = ''f'', ie_offset = 0, ie_size = 1, ie_is_large = False, ie_block_count = 1,
     ie_host = ''h'', ie_write_context_hash = ''c''\<rparr>"

theorem local_index_refines_witness:
  "\<exists>s. run_ops ds_exec any_op [WriteStarted ''db'' ''db:x'', WriteCompleted ''db'' ''db:x'' [demo_entry]] (new_data_service (empty_cache 1 :: (unit, unit) object_cache)) = Some s \<and>
    has_local_object s ''db:x'' \<and> find_local_entries s ''db:x'' = Some [demo_entry]"
proof -
  let ?ops = "[WriteStarted ''db'' ''db:x'', WriteCompleted ''db'' ''db:x'' [demo_entry]]"
  obtain s where s: "run_ops ds_exec any_op ?ops (new_data_service (empty_cache 1 :: (unit, unit) object_cache)) = Some s" by simp
  from local_index_refines [OF this refl, of "''db:x''"] have "has_local_object s ''db:x'' \<and> find_local_entries s ''db:x'' = Some [demo_entry]"
    by (simp add: at_view_def new_info_def)
  then show ?thesis using s by blast
qed

text \<open>
  C31: A reader that waits for a local write is released by its completion.  Whatever else happens in
  between, as long as the object itself is not started again, failed or removed, the completion of the
  write wakes the reader and it finds the entries of the write; a failure wakes it too, and it finds
  nothing.
\<close>

theorem completion_wakes_reader:
  assumes "run_ops ds_exec any_op pre (new_data_service oc) = Some s"
    and "try_read_local_raw fs True name s = (LocalBlocked, s1)"
    and "run_ops ds_exec (\<lambda>_ op. \<not> relinks (split_full name) op) ops s1 = Some s2"
    and reader_def: "reader = last (ds_blocked s1)" and db_def: "db = fst (split_full name)"
  shows "reader \<in> set (ds_blocked s1) \<and>
    reader \<notin> set (ds_blocked (on_write_completed db name es s2)) \<and> find_local_entries (on_write_completed db name es s2) name = Some es \<and>
    reader \<notin> set (ds_blocked (on_write_failed db name s2)) \<and> find_local_entries (on_write_failed db name s2) name = None"
proof -
  have inv: "ds_inv s" by (rule dsi.run_inv [OF assms(1)])
  obtain dl a where s1: "s1 = s\<lparr>ds_blocked := ds_blocked s @ [(dl_cv dl, a)]\<rparr>" "map_of (ds_local s) db = Some dl"
      "faddr s (split_full name) = Some a"
    using assms(2) unfolding db_def by (rule blocked_read)
  have inv1: "ds_inv s1" using implementsD [OF implements_read inv, of fs True name] assms(2) by simp
  have "holds_at (split_full name) (dl_cv dl) a s1"
    using s1 by (simp add: holds_at_def cv_of_def faddr_def find_addr_def db_def)
  then have h: "holds_at (split_full name) (dl_cv dl) a s2" using assms(3) by (rule holds_run)
  have inv2: "ds_inv s2" using frame_run [OF inv1 assms(3)] by simp
  have "a \<in> dom (ds_store s2)" using h faddr_lt [OF inv2, of "split_full name" a] inv2 by (simp add: holds_at_def ds_inv_def)
  then obtain i where i: "ds_store s2 a = Some i" by blast
  obtain dl2 where dl2: "map_of (ds_local s2) db = Some dl2" "dl_cv dl2 = dl_cv dl"
    using h by (auto simp: holds_at_def cv_of_def db_def)
  have addr: "find_addr s2 db (snd (split_full name)) = Some a" using h by (simp add: holds_at_def faddr_def db_def)
  have key: "obj_key db name = split_full name" by (simp add: db_def)
  have "reader \<notin> set (ds_blocked (on_write_completed db name es s2))" "reader \<notin> set (ds_blocked (on_write_failed db name s2))"
    using addr dl2 i s1
    by (auto simp: reader_def on_write_completed_def on_write_failed_def notify_db_def at_info_def still_waiting_def unlink_def
        map_of_alist_map_entry Let_def)
  moreover have "view s2 (split_full name) = Some i" using h i by (simp add: view_faddr holds_at_def)
  then have "find_local_entries (on_write_completed db name es s2) name = Some es" "find_local_entries (on_write_failed db name s2) name = None"
    using implementsD [OF implements_completed inv2, of db name es] implementsD [OF implements_failed inv2, of db name]
    by (simp_all add: find_local_entries_def view_pair split_beta key at_view_def)
  ultimately show ?thesis using s1 by (simp add: reader_def)
qed


text \<open>A process in which a write of the object is in progress, with a reader that waits for it.\<close>

definition demo_ds :: "(unit, unit) data_service" where
  "demo_ds = on_write_started ''db'' ''db:x'' (new_data_service (empty_cache 1))"

lemma demo_ds_run: "run_ops ds_exec any_op [WriteStarted ''db'' ''db:x''] (new_data_service (empty_cache 1)) = Some demo_ds"
  by (simp add: demo_ds_def)

lemma demo_ds_blocks: "try_read_local_raw Map.empty True ''db:x'' demo_ds = (LocalBlocked, demo_ds\<lparr>ds_blocked := [(0, 0)]\<rparr>)"
  by (simp add: demo_ds_def on_write_started_def new_data_service_def touch_db_def find_info_def find_addr_def link_new_def
      try_read_local_raw_def lookup_under_lock_def still_waiting_def new_info_def Let_def)

theorem completion_wakes_reader_witness:
  "let s1 = snd (try_read_local_raw Map.empty True ''db:x'' demo_ds); s3 = on_write_completed ''db'' ''db:x'' [demo_entry] s1
   in (0, 0) \<in> set (ds_blocked s1) \<and> (0, 0) \<notin> set (ds_blocked s3) \<and> find_local_entries s3 ''db:x'' = Some [demo_entry]"
  using completion_wakes_reader [OF demo_ds_run demo_ds_blocks, of "[]", simplified, OF refl refl refl, of "[demo_entry]"]
  by (simp add: demo_ds_blocks Let_def)

text \<open>
  C32: A reader that waits for an object that is started again or removed never returns.  The reader
  watches the info that was in the index when it came; \<open>on_write_started\<close> on an incomplete object,
  \<open>on_temp_write_started\<close>, \<open>remove_local_index\<close> and \<open>clear_local_index_for_db\<close> put another info, or none,
  in its place without completing the old one, and no later operation does.
\<close>

theorem stranded_reader:
  assumes "run_ops ds_exec any_op pre (new_data_service oc) = Some s"
    and "try_read_local_raw fs True name s = (LocalBlocked, s1)"
    and "s2 \<in> {on_write_started (fst (split_full name)) name s1, on_temp_write_started (fst (split_full name)) name s1,
               remove_local_index name s1, clear_local_index_for_db (fst (split_full name)) s1}"
    and "run_ops ds_exec any_op ops s2 = Some s3"
  shows "last (ds_blocked s1) \<in> set (ds_blocked s3)"
proof -
  have inv: "ds_inv s" by (rule dsi.run_inv [OF assms(1)])
  obtain dl a where s1: "s1 = s\<lparr>ds_blocked := ds_blocked s @ [(dl_cv dl, a)]\<rparr>" "faddr s (split_full name) = Some a"
      "still_waiting (ds_store s) a" and "map_of (ds_local s) (fst (split_full name)) = Some dl"
    using assms(2) by (rule blocked_read)
  have inv1: "ds_inv s1" using implementsD [OF implements_read inv, of fs True name] assms(2) by simp
  have f1: "faddr s1 = faddr s" using s1(1) by (simp add: faddr_def find_addr_def fun_eq_iff)
  have s1': "ds_next s1 = ds_next s" "ds_store s1 = ds_store s" "(dl_cv dl, a) \<in> set (ds_blocked s1)" using s1(1) by simp_all
  have only: "k = split_full name" if "faddr s k = Some a" for k
    using inv that s1(2) unfolding ds_inv_def by (metis domI inj_onD)
  have lt: "a < ds_next s" by (rule faddr_lt [OF inv s1(2)])
  have "view s1 (split_full name) = ds_store s a" using s1(2) by (simp add: view_faddr f1) (simp add: s1(1))
  moreover have "\<exists>i. ds_store s a = Some i \<and> lo_state i = INCOMPLETE" using s1(3) by (auto simp: still_waiting_def split: option.splits)
  ultimately have "\<exists>i. view (touch_db (fst (split_full name)) s1) (split_full name) = Some i \<and> lo_state i = INCOMPLETE" by simp
  then have started: "on_write_started (fst (split_full name)) name s1 =
      link_new (fst (split_full name)) (snd (split_full name)) (new_info\<lparr>lo_db_path := fst (split_full name)\<rparr>) (touch_db (fst (split_full name)) s1)"
    by (auto simp: on_write_started_def Let_def view_pair split: option.splits)
  note defs = started on_temp_write_started_def remove_local_index_def
  have "ds_inv s2"
    using assms(3) inv1 by (auto simp: defs split_beta inv_link inv_touch inv_cache_remove inv_unlink inv_clear)
  moreover have "unlinked s2 a"
  proof -
    have "a < ds_next s2" using assms(3) lt by (auto simp: s1' defs split_beta clear_local_index_for_db_def)
    moreover have "faddr s2 k \<noteq> Some a" for k
      using assms(3) only [of k] lt
      by (cases "k = split_full name") (auto simp: s1' defs split_beta faddr_link faddr_unlink faddr_clear f1 split: if_splits)
    ultimately show ?thesis by (auto simp: unlinked_def ran_def)
  qed
  moreover have "(dl_cv dl, a) \<in> set (ds_blocked s2)" "ds_store s2 a = ds_store s a"
    using assms(3) lt by (auto simp: s1' defs split_beta clear_local_index_for_db_def)
  ultimately have "(dl_cv dl, a) \<in> set (ds_blocked s3)"
    using frame_run [OF _ assms(4)] s1(3) by (auto simp: frame_def still_waiting_def)
  then show ?thesis using s1(1) by simp
qed

theorem stranded_reader_witness:
  "let s1 = snd (try_read_local_raw Map.empty True ''db:x'' demo_ds);
       s3 = on_write_completed ''db'' ''db:x'' [demo_entry] (on_write_started ''db'' ''db:x'' s1)
   in (0, 0) \<in> set (ds_blocked s3)"
  using stranded_reader [OF demo_ds_run demo_ds_blocks, of "on_write_started ''db'' ''db:x'' (demo_ds\<lparr>ds_blocked := [(0, 0)]\<rparr>)"
      "[WriteCompleted ''db'' ''db:x'' [demo_entry]]"]
  by (simp add: demo_ds_blocks Let_def)

text \<open>
  C33: A rejected second write of a complete object loses the object.  \<open>commit_write\<close> announces the write
  with \<open>on_write_started\<close>, which keeps a complete entry on purpose, and reports the rejection with
  \<open>on_write_failed\<close>, which erases whatever entry is there.
\<close>

theorem rejected_rewrite_loses_object:
  assumes "run_ops ds_exec any_op pre (new_data_service oc) = Some s" and "has_local_object s name"
    and "db = fst (split_full name)"
  shows "has_local_object (on_write_started db name s) name \<and>
    \<not> has_local_object (on_write_failed db name (on_write_started db name s)) name \<and>
    find_local_entries (on_write_failed db name (on_write_started db name s)) name = None"
proof -
  have inv: "ds_inv s" by (rule dsi.run_inv [OF assms(1)])
  have key: "obj_key db name = split_full name" by (simp add: assms(3))
  have st: "ds_inv (on_write_started db name s)" "view (on_write_started db name s) = view s"
    using implementsD [OF implements_started inv, of db name] assms(2)
    by (auto simp: key has_local_object_def view_pair split_beta split: option.splits)
  moreover have "view (on_write_failed db name (on_write_started db name s)) (split_full name) = None"
    using implementsD [OF implements_failed st(1), of db name] by (simp add: key)
  ultimately show ?thesis using assms(2) by (simp add: has_local_object_def find_local_entries_def view_pair split_beta)
qed

definition demo_done :: "(unit, unit) data_service" where
  "demo_done = on_write_completed ''db'' ''db:x'' [demo_entry] demo_ds"

lemma demo_done_run:
  "run_ops ds_exec any_op [WriteStarted ''db'' ''db:x'', WriteCompleted ''db'' ''db:x'' [demo_entry]] (new_data_service (empty_cache 1)) = Some demo_done"
  by (simp add: demo_done_def demo_ds_def)

lemma demo_done_has: "has_local_object demo_done ''db:x''"
proof -
  have inv: "ds_inv demo_ds" by (rule dsi.run_inv [OF demo_ds_run])
  have v: "view demo_ds = [(''db'', ''x'') \<mapsto> new_info\<lparr>lo_db_path := ''db''\<rparr>]"
    using implementsD [OF implements_started dsi.inv_init [of "empty_cache 1 :: (unit, unit) object_cache"], of "''db''" "''db:x''"]
    by (simp add: demo_ds_def view_new)
  have "view demo_done = view_spec (WriteCompleted ''db'' ''db:x'' [demo_entry]) (view demo_ds)"
    unfolding demo_done_def using implementsD [OF implements_completed inv] by (rule conjunct2)
  then show ?thesis by (simp add: v at_view_def has_local_object_def view_pair)
qed

theorem rejected_rewrite_loses_object_witness:
  "has_local_object demo_done ''db:x'' \<and>
   \<not> has_local_object (on_write_failed ''db'' ''db:x'' (on_write_started ''db'' ''db:x'' demo_done)) ''db:x''"
  using rejected_rewrite_loses_object [OF demo_done_run demo_done_has, of "''db''"] demo_done_has by simp

end
