(* ===== verification/Write_Registry.thy ===== *)
theory Write_Registry
  imports Local_Index Remote_Index
begin

text \<open>
  The master's part of registering a write, src/agent/cpp/master_agent.cpp: the write provenance
  (which write context produced an object) and the sets of frozen databases.  A registration is
  accepted when the database is not frozen and the object is new or has the same write context.  A
  task that freezes a database holds a pending freeze, which becomes final when the task completes
  and is dropped when it fails.  The methods hold the mutexes of the state they use and are atomic; the
  confirmation of a freeze releases the provenance in a second critical section right after the
  first, and the two are one step here.
  The existence of the marker file \<open>_FROZEN\<close> on disk is an argument.
\<close>

section \<open>State\<close>

datatype task_error_type =
    UNKNOWN | EXECUTION_ERROR | WRITE_TO_FROZEN_DB | WRITE_REGISTRATION_FAILED
  | WRITE_REGISTRATION_TIMEOUT | WRITE_PROVENANCE_MISMATCH | WRITE_DUPLICATE_SKIPPED | DB_ALREADY_FROZEN

record write_registry =
  wr_provenance :: "(string \<times> (string \<times> string) list) list"
  wr_frozen :: "string list"
  wr_pending :: "(string \<times> task_id) list"

definition empty_registry :: write_registry where
  "empty_registry = \<lparr>wr_provenance = [], wr_frozen = [], wr_pending = []\<rparr>"

record write_register_message =
  wm_worker_id :: worker_id
  wm_object_name :: string
  wm_db_path :: string
  wm_write_context_hash :: string
  wm_writer_id :: string
  wm_size_bytes :: int
  wm_preliminary :: bool

record write_register_ack =
  wa_object_name :: string
  wa_db_path :: string
  wa_success :: bool
  wa_error_message :: string
  wa_error_type :: task_error_type

section \<open>Provenance\<close>

text \<open>The bucket of a database; \<open>write_provenance_[db_path]\<close> creates an empty one.\<close>

definition bucket_of :: "string \<Rightarrow> write_registry \<Rightarrow> (string \<times> string) list" where
  "bucket_of db wr = (case map_of (wr_provenance wr) db of None \<Rightarrow> [] | Some b \<Rightarrow> b)"

text \<open>\<open>None\<close>: registered; \<open>Some\<close>: the error message.\<close>

definition provenance_check_and_register ::
  "string \<Rightarrow> string \<Rightarrow> string \<Rightarrow> write_registry \<Rightarrow> string option \<times> write_registry" where
  "provenance_check_and_register db short hash wr =
     (if hash = [] then (Some (''Empty write_context_hash for '' @ db @ '':'' @ short), wr)
      else
        let inner = bucket_of db wr;
            wr1 = wr\<lparr>wr_provenance := AList.update db inner (wr_provenance wr)\<rparr>
        in case map_of inner short of
             None \<Rightarrow> (None, wr\<lparr>wr_provenance := AList.update db (AList.update short hash inner) (wr_provenance wr)\<rparr>)
           | Some old \<Rightarrow>
               if old = hash then (None, wr1)
               else (Some (''Write provenance mismatch for '' @ db @ '':'' @ short @
                           '': existing hash='' @ old @ '' new hash='' @ hash), wr1))"

definition provenance_erase :: "string \<Rightarrow> string \<Rightarrow> write_registry \<Rightarrow> write_registry" where
  "provenance_erase db short wr =
     (case map_of (wr_provenance wr) db of
        None \<Rightarrow> wr
      | Some b \<Rightarrow>
          let b' = AList.delete short b
          in wr\<lparr>wr_provenance := (if b' = [] then AList.delete db (wr_provenance wr)
                                 else AList.update db b' (wr_provenance wr))\<rparr>)"

definition cleanup_provenance_for_db :: "string \<Rightarrow> write_registry \<Rightarrow> write_registry" where
  "cleanup_provenance_for_db db wr = wr\<lparr>wr_provenance := AList.delete db (wr_provenance wr)\<rparr>"

definition provenance_lookup :: "write_registry \<Rightarrow> string \<Rightarrow> string \<Rightarrow> string" where
  "provenance_lookup wr db short =
     (case map_of (wr_provenance wr) db of
        None \<Rightarrow> []
      | Some b \<Rightarrow> (case map_of b short of None \<Rightarrow> [] | Some h \<Rightarrow> h))"

definition provenance_count :: "write_registry \<Rightarrow> string \<Rightarrow> nat" where
  "provenance_count wr db = (case map_of (wr_provenance wr) db of None \<Rightarrow> 0 | Some b \<Rightarrow> length b)"

text \<open>The loop of \<open>restore_master_idx\<close> over the entries of a loaded index file.\<close>

definition restore_provenance :: "bool \<Rightarrow> string \<Rightarrow> index_entry list \<Rightarrow> write_registry \<Rightarrow> write_registry" where
  "restore_provenance marker db es wr =
     fold (\<lambda>e wr. if \<not> marker \<and> ie_write_context_hash e \<noteq> []
             then wr\<lparr>wr_provenance := AList.update db
                       (AList.update (ie_object_name e) (ie_write_context_hash e) (bucket_of db wr))
                       (wr_provenance wr)\<rparr>
             else wr) es wr"

section \<open>Frozen databases\<close>

definition frozen_in_memory :: "write_registry \<Rightarrow> string \<Rightarrow> bool" where
  "frozen_in_memory wr db \<longleftrightarrow> db \<in> set (wr_frozen wr) \<or> map_of (wr_pending wr) db \<noteq> None"

definition is_db_frozen :: "(string \<Rightarrow> bool) \<Rightarrow> write_registry \<Rightarrow> string \<Rightarrow> bool" where
  "is_db_frozen marker wr db \<longleftrightarrow> (if frozen_in_memory wr db then True else marker db)"

definition is_db_pending_frozen :: "write_registry \<Rightarrow> string \<Rightarrow> bool" where
  "is_db_pending_frozen wr db \<longleftrightarrow> map_of (wr_pending wr) db \<noteq> None"

text \<open>
  The databases confirmed by the end of a task, for which the freeze is broadcast, and the new
  state with their provenance released.
\<close>

definition commit_pending_frozen :: "task_id \<Rightarrow> write_registry \<Rightarrow> string list \<times> write_registry" where
  "commit_pending_frozen t wr =
     (let mine = map fst (filter (\<lambda>(db, u). u = t) (wr_pending wr));
          committed = filter (\<lambda>db. db \<notin> set (wr_frozen wr)) mine;
          wr1 = wr\<lparr>wr_frozen := fold List.insert mine (wr_frozen wr),
                   wr_pending := filter (\<lambda>(db, u). u \<noteq> t) (wr_pending wr)\<rparr>
      in (committed, fold cleanup_provenance_for_db committed wr1))"

definition rollback_pending_frozen :: "task_id \<Rightarrow> write_registry \<Rightarrow> write_registry" where
  "rollback_pending_frozen t wr = wr\<lparr>wr_pending := filter (\<lambda>(db, u). u \<noteq> t) (wr_pending wr)\<rparr>"

text \<open>The acknowledgement (\<open>None\<close> is success) of a freeze request of a task.\<close>

definition on_database_freeze_request ::
  "bool \<Rightarrow> string \<Rightarrow> task_id \<Rightarrow> write_registry \<Rightarrow> task_error_type option \<times> write_registry" where
  "on_database_freeze_request streaming db t wr =
     (if frozen_in_memory wr db then (Some DB_ALREADY_FROZEN, wr)
      else if streaming
        then (None, cleanup_provenance_for_db db (wr\<lparr>wr_frozen := List.insert db (wr_frozen wr)\<rparr>))
      else (None, wr\<lparr>wr_pending := AList.update db t (wr_pending wr)\<rparr>))"

definition on_master_freeze :: "bool \<Rightarrow> string \<Rightarrow> write_registry \<Rightarrow> write_registry" where
  "on_master_freeze running db wr =
     (if \<not> running then wr
      else if db \<in> set (wr_frozen wr) then wr
      else cleanup_provenance_for_db db (wr\<lparr>wr_frozen := List.insert db (wr_frozen wr)\<rparr>))"

text \<open>The end of \<open>cleanup_after_merge\<close>: the merged database loses its frozen state.\<close>

definition unfreeze_merged :: "string \<Rightarrow> write_registry \<Rightarrow> write_registry" where
  "unfreeze_merged db wr =
     wr\<lparr>wr_frozen := removeAll db (wr_frozen wr), wr_pending := AList.delete db (wr_pending wr)\<rparr>"

section \<open>Registering a write\<close>

text \<open>The critical section of \<open>do_write_register\<close>.\<close>

definition register_write ::
  "write_register_message \<Rightarrow> write_registry \<Rightarrow> write_register_ack \<times> write_registry" where
  "register_write msg wr =
     (let ack = (\<lambda>ok err ty. \<lparr>wa_object_name = wm_object_name msg, wa_db_path = wm_db_path msg,
                               wa_success = ok, wa_error_message = err, wa_error_type = ty\<rparr>)
      in if frozen_in_memory wr (wm_db_path msg)
           then (ack False (''Database frozen: '' @ wm_db_path msg) WRITE_TO_FROZEN_DB, wr)
         else if wm_write_context_hash msg = []
           then (ack False (''Empty write_context_hash for '' @ wm_object_name msg) WRITE_REGISTRATION_FAILED, wr)
         else
           (case split_full_name (wm_object_name msg) of (db, short) \<Rightarrow>
              (case provenance_check_and_register db short (wm_write_context_hash msg) wr of
                 (None, wr') \<Rightarrow> (ack True [] UNKNOWN, wr')
               | (Some err, wr') \<Rightarrow> (ack False err WRITE_PROVENANCE_MISMATCH, wr'))))"

section \<open>The registry as a component\<close>

datatype wr_op =
    RegisterWrite write_register_message
  | EraseProvenance string string
  | FreezeRequest bool string task_id
  | MasterFreeze bool string
  | CommitFrozen task_id
  | RollbackFrozen task_id
  | RestoreProvenance bool string "index_entry list"
  | UnfreezeMerged string

fun wr_exec :: "wr_op \<Rightarrow> write_registry \<Rightarrow> write_registry" where
  "wr_exec (RegisterWrite m) wr = snd (register_write m wr)"
| "wr_exec (EraseProvenance db short) wr = provenance_erase db short wr"
| "wr_exec (FreezeRequest streaming db t) wr = snd (on_database_freeze_request streaming db t wr)"
| "wr_exec (MasterFreeze running db) wr = on_master_freeze running db wr"
| "wr_exec (CommitFrozen t) wr = snd (commit_pending_frozen t wr)"
| "wr_exec (RollbackFrozen t) wr = rollback_pending_frozen t wr"
| "wr_exec (RestoreProvenance marker db es) wr = restore_provenance marker db es wr"
| "wr_exec (UnfreezeMerged db) wr = unfreeze_merged db wr"

text \<open>What the registry promises: a map from objects to the write that produced them.\<close>

record registry_spec =
  origin :: "string \<times> string \<Rightarrow> string option"
  frozen :: "string set"
  pending_freeze :: "string \<Rightarrow> task_id option"

definition no_writes :: registry_spec where
  "no_writes = \<lparr>origin = Map.empty, frozen = {}, pending_freeze = Map.empty\<rparr>"

definition accepts :: "registry_spec \<Rightarrow> write_register_message \<Rightarrow> bool" where
  "accepts a m \<longleftrightarrow> wm_db_path m \<notin> frozen a \<and> pending_freeze a (wm_db_path m) = None \<and>
     wm_write_context_hash m \<noteq> [] \<and>
     origin a (split_full_name (wm_object_name m)) \<in> {None, Some (wm_write_context_hash m)}"

definition forget_dbs :: "string set \<Rightarrow> registry_spec \<Rightarrow> registry_spec" where
  "forget_dbs D a = a\<lparr>origin := (\<lambda>(db, short). if db \<in> D then None else origin a (db, short))\<rparr>"

fun wr_spec :: "wr_op \<Rightarrow> registry_spec \<Rightarrow> registry_spec" where
  "wr_spec (RegisterWrite m) a =
     (if accepts a m
      then a\<lparr>origin := (origin a)(split_full_name (wm_object_name m) \<mapsto> wm_write_context_hash m)\<rparr> else a)"
| "wr_spec (EraseProvenance db short) a = a\<lparr>origin := (origin a)((db, short) := None)\<rparr>"
| "wr_spec (FreezeRequest streaming db t) a =
     (if db \<in> frozen a \<or> pending_freeze a db \<noteq> None then a
      else if streaming then forget_dbs {db} (a\<lparr>frozen := insert db (frozen a)\<rparr>)
      else a\<lparr>pending_freeze := (pending_freeze a)(db \<mapsto> t)\<rparr>)"
| "wr_spec (MasterFreeze running db) a =
     (if \<not> running \<or> db \<in> frozen a then a
      else forget_dbs {db} (a\<lparr>frozen := insert db (frozen a)\<rparr>))"
| "wr_spec (CommitFrozen t) a =
     (let dbs = {db. pending_freeze a db = Some t}
      in forget_dbs (dbs - frozen a)
           (a\<lparr>frozen := frozen a \<union> dbs, pending_freeze := pending_freeze a |` (- dbs)\<rparr>))"
| "wr_spec (RollbackFrozen t) a =
     a\<lparr>pending_freeze := pending_freeze a |` (- {db. pending_freeze a db = Some t})\<rparr>"
| "wr_spec (RestoreProvenance marker db es) a =
     a\<lparr>origin := fold (\<lambda>e f. if \<not> marker \<and> ie_write_context_hash e \<noteq> []
                             then f((db, ie_object_name e) \<mapsto> ie_write_context_hash e) else f) es (origin a)\<rparr>"
| "wr_spec (UnfreezeMerged db) a =
     a\<lparr>frozen := frozen a - {db}, pending_freeze := (pending_freeze a)(db := None)\<rparr>"

definition abs_registry :: "write_registry \<Rightarrow> registry_spec" where
  "abs_registry wr = \<lparr>origin = (\<lambda>(db, short). map_of (bucket_of db wr) short),
     frozen = set (wr_frozen wr), pending_freeze = map_of (wr_pending wr)\<rparr>"

definition wr_inv :: "write_registry \<Rightarrow> bool" where
  "wr_inv wr \<longleftrightarrow> umap_ok (wr_pending wr)"

lemma abs_simps [simp]:
  "origin (abs_registry wr) (db, short) = map_of (bucket_of db wr) short"
  "frozen (abs_registry wr) = set (wr_frozen wr)"
  "pending_freeze (abs_registry wr) = map_of (wr_pending wr)"
  by (simp_all add: abs_registry_def)

lemma bucket_of_simps [simp]:
  "bucket_of db (wr\<lparr>wr_provenance := AList.update db' b (wr_provenance wr)\<rparr>) = (if db = db' then b else bucket_of db wr)"
  "bucket_of db (wr\<lparr>wr_provenance := AList.delete db' (wr_provenance wr)\<rparr>) = (if db = db' then [] else bucket_of db wr)"
  "bucket_of db (wr\<lparr>wr_frozen := fr\<rparr>) = bucket_of db wr"
  "bucket_of db (wr\<lparr>wr_pending := p\<rparr>) = bucket_of db wr"
  by (simp_all add: bucket_of_def)

lemma registry_eqI:
  assumes "\<And>db short. origin a (db, short) = origin b (db, short)" and "frozen a = frozen b"
    and "pending_freeze a = pending_freeze b"
  shows "a = (b :: registry_spec)"
  by (rule registry_spec.equality) (use assms in \<open>auto simp: fun_eq_iff\<close>)

text \<open>Registration, with the acknowledgement and the provenance it leaves.\<close>

lemma register_write_abs:
  shows "wa_success (fst (register_write m wr)) \<longleftrightarrow> accepts (abs_registry wr) m"
    and "abs_registry (snd (register_write m wr)) = wr_spec (RegisterWrite m) (abs_registry wr)"
proof -
  obtain db short where sp: "split_full_name (wm_object_name m) = (db, short)" by (cases "split_full_name (wm_object_name m)")
  show "wa_success (fst (register_write m wr)) \<longleftrightarrow> accepts (abs_registry wr) m"
    by (auto simp: register_write_def provenance_check_and_register_def accepts_def sp Let_def frozen_in_memory_def
        split: option.splits)
  show "abs_registry (snd (register_write m wr)) = wr_spec (RegisterWrite m) (abs_registry wr)"
    by (rule registry_eqI)
       (auto simp: register_write_def provenance_check_and_register_def accepts_def sp Let_def frozen_in_memory_def
         abs_registry_def split: option.splits if_splits)
qed

lemma cleanup_abs: "abs_registry (cleanup_provenance_for_db db wr) = forget_dbs {db} (abs_registry wr)"
  by (rule registry_eqI) (auto simp: cleanup_provenance_for_db_def forget_dbs_def abs_registry_def)

lemma forget_forget: "forget_dbs D (forget_dbs E a) = forget_dbs (D \<union> E) a"
  by (rule registry_eqI) (auto simp: forget_dbs_def)

lemma fold_cleanup_abs: "abs_registry (fold cleanup_provenance_for_db dbs wr) = forget_dbs (set dbs) (abs_registry wr)"
proof (induction dbs arbitrary: wr)
  case Nil
  show ?case by (rule registry_eqI) (simp_all add: forget_dbs_def)
qed (simp add: cleanup_abs forget_forget Un_insert_left Un_commute)

lemma erase_abs: "abs_registry (provenance_erase db short wr) = wr_spec (EraseProvenance db short) (abs_registry wr)"
proof (rule registry_eqI)
  fix db' short'
  show "origin (abs_registry (provenance_erase db short wr)) (db', short') =
      origin (wr_spec (EraseProvenance db short) (abs_registry wr)) (db', short')"
  proof (cases "map_of (wr_provenance wr) db")
    case (Some b)
    have "AList.delete short b = [] \<Longrightarrow> map_of b s = (if s = short then map_of b short else None)" for s
      using fun_cong [OF map_of_alist_delete [of short b], of s] by (auto split: if_splits)
    then show ?thesis using Some by (auto simp: provenance_erase_def Let_def abs_registry_def bucket_of_def)
  qed (auto simp: provenance_erase_def abs_registry_def bucket_of_def)
qed (auto simp: provenance_erase_def abs_registry_def Let_def split: option.splits)

lemma restore_abs:
  "abs_registry (restore_provenance marker db es wr) = wr_spec (RestoreProvenance marker db es) (abs_registry wr)"
proof (induction es arbitrary: wr)
  case (Cons e es)
  define wr1 where "wr1 = restore_provenance marker db [e] wr"
  have *: "origin (abs_registry wr1) = (if \<not> marker \<and> ie_write_context_hash e \<noteq> []
      then (origin (abs_registry wr))((db, ie_object_name e) \<mapsto> ie_write_context_hash e) else origin (abs_registry wr))"
    "wr_frozen wr1 = wr_frozen wr" "wr_pending wr1 = wr_pending wr"
    by (auto simp: wr1_def restore_provenance_def abs_registry_def fun_eq_iff)
  have "restore_provenance marker db (e # es) wr = restore_provenance marker db es wr1"
    by (simp add: restore_provenance_def wr1_def)
  then show ?case using Cons.IH [of wr1] * by (intro registry_eqI) (simp_all add: fun_upd_def)
qed (simp add: restore_provenance_def)

lemma frozen_in_memory_abs:
  "frozen_in_memory wr db \<longleftrightarrow> db \<in> frozen (abs_registry wr) \<or> pending_freeze (abs_registry wr) db \<noteq> None"
  by (simp add: frozen_in_memory_def)

lemma map_of_filter_snd:
  assumes "umap_ok m"
  shows "map_of (filter (\<lambda>(k, v). P v) m) =
    (\<lambda>k. case map_of m k of Some v \<Rightarrow> if P v then Some v else None | None \<Rightarrow> None)"
  using assms
proof (induction m)
  case (Cons x m)
  obtain k v where x: "x = (k, v)" by (cases x)
  have "map_of m k = None" using Cons.prems x by (simp add: umap_ok_def map_of_eq_None_iff)
  then show ?case using Cons x by (auto simp: umap_ok_def fun_eq_iff)
qed simp

lemma pending_dbs:
  assumes "umap_ok m" shows "set (map fst (filter (\<lambda>(db, u). u = t) m)) = {db. map_of m db = Some t}"
  using umap_mem_iff [OF assms] by force

lemma set_fold_insert: "set (fold List.insert xs ys) = set xs \<union> set ys"
  by (induction xs arbitrary: ys) auto

lemma abs_set_frozen: "abs_registry (wr\<lparr>wr_frozen := fr\<rparr>) = (abs_registry wr)\<lparr>frozen := set fr\<rparr>"
  by (rule registry_eqI) simp_all

lemma bucket_fold_cleanup:
  "map_of (bucket_of db (fold cleanup_provenance_for_db dbs wr)) short =
     (if db \<in> set dbs then None else map_of (bucket_of db wr) short)"
  using arg_cong [OF fold_cleanup_abs [of dbs wr], of "\<lambda>a. origin a (db, short)"] by (simp add: forget_dbs_def)

lemma fold_cleanup_rest [simp]:
  "wr_frozen (fold cleanup_provenance_for_db dbs wr) = wr_frozen wr"
  "wr_pending (fold cleanup_provenance_for_db dbs wr) = wr_pending wr"
  by (induction dbs arbitrary: wr) (simp_all add: cleanup_provenance_for_db_def)

lemma commit_abs:
  assumes "wr_inv wr"
  shows "abs_registry (snd (commit_pending_frozen t wr)) = wr_spec (CommitFrozen t) (abs_registry wr)"
    and "set (fst (commit_pending_frozen t wr)) =
      {db. pending_freeze (abs_registry wr) db = Some t} - frozen (abs_registry wr)"
proof -
  have ok: "umap_ok (wr_pending wr)" using assms by (simp add: wr_inv_def)
  have "map_of (filter (\<lambda>(db, u). u \<noteq> t) (wr_pending wr)) = map_of (wr_pending wr) |` (- {db. map_of (wr_pending wr) db = Some t})"
    unfolding map_of_filter_snd [OF ok] by (auto simp: fun_eq_iff restrict_map_def split: option.splits)
  then show "abs_registry (snd (commit_pending_frozen t wr)) = wr_spec (CommitFrozen t) (abs_registry wr)"
    using pending_dbs [OF ok, of t]
    by (intro registry_eqI)
       (simp_all add: commit_pending_frozen_def Let_def bucket_fold_cleanup set_fold_insert forget_dbs_def Un_commute)
  show "set (fst (commit_pending_frozen t wr)) =
      {db. pending_freeze (abs_registry wr) db = Some t} - frozen (abs_registry wr)"
    using pending_dbs [OF ok, of t] by (auto simp: commit_pending_frozen_def Let_def)
qed

lemma rollback_abs:
  assumes "wr_inv wr"
  shows "abs_registry (rollback_pending_frozen t wr) = wr_spec (RollbackFrozen t) (abs_registry wr)"
proof (rule registry_eqI)
  have ok: "umap_ok (wr_pending wr)" using assms by (simp add: wr_inv_def)
  show "pending_freeze (abs_registry (rollback_pending_frozen t wr)) =
      pending_freeze (wr_spec (RollbackFrozen t) (abs_registry wr))"
    by (simp add: rollback_pending_frozen_def map_of_filter_snd [OF ok] fun_eq_iff restrict_map_def split: option.splits)
qed (simp_all add: rollback_pending_frozen_def)

lemma freeze_abs:
  "abs_registry (snd (on_database_freeze_request streaming db t wr)) = wr_spec (FreezeRequest streaming db t) (abs_registry wr)"
  "abs_registry (on_master_freeze running db wr) = wr_spec (MasterFreeze running db) (abs_registry wr)"
  "abs_registry (unfreeze_merged db wr) = wr_spec (UnfreezeMerged db) (abs_registry wr)"
proof -
  show "abs_registry (snd (on_database_freeze_request streaming db t wr)) = wr_spec (FreezeRequest streaming db t) (abs_registry wr)"
    by (auto simp: on_database_freeze_request_def frozen_in_memory_abs cleanup_abs abs_set_frozen intro: registry_eqI)
  show "abs_registry (on_master_freeze running db wr) = wr_spec (MasterFreeze running db) (abs_registry wr)"
    by (simp add: on_master_freeze_def cleanup_abs abs_set_frozen)
  show "abs_registry (unfreeze_merged db wr) = wr_spec (UnfreezeMerged db) (abs_registry wr)"
    by (rule registry_eqI) (auto simp: unfreeze_merged_def)
qed

lemma pending_unchanged [simp]:
  "wr_pending (snd (register_write m wr)) = wr_pending wr"
  "wr_pending (provenance_erase db short wr) = wr_pending wr"
  "wr_pending (cleanup_provenance_for_db db wr) = wr_pending wr"
  "wr_pending (restore_provenance marker db es wr) = wr_pending wr"
proof -
  show "wr_pending (restore_provenance marker db es wr) = wr_pending wr"
    unfolding restore_provenance_def by (induction es arbitrary: wr) auto
qed (auto simp: register_write_def provenance_check_and_register_def provenance_erase_def cleanup_provenance_for_db_def
      Let_def split: option.splits prod.splits)

lemma wr_exec_inv: "wr_inv wr \<Longrightarrow> wr_inv (wr_exec op wr)"
  by (cases op)
     (auto simp: wr_inv_def on_database_freeze_request_def on_master_freeze_def commit_pending_frozen_def
       rollback_pending_frozen_def unfreeze_merged_def Let_def)

lemma wr_exec_abs: "wr_inv wr \<Longrightarrow> abs_registry (wr_exec op wr) = wr_spec op (abs_registry wr)"
  by (cases op)
     (simp_all only: wr_exec.simps register_write_abs erase_abs freeze_abs commit_abs rollback_abs restore_abs)

interpretation wr_all: component_invariant "\<lambda>op wr. Some (wr_exec op wr)" any_op empty_registry wr_inv
  by unfold_locales (simp add: wr_inv_def empty_registry_def, use wr_exec_inv in blast)

lemma run_ops_total: "run_ops (\<lambda>op s. Some (f op s)) any_op ops s = Some (fold f ops s)"
  by (induction ops arbitrary: s) simp_all

lemma wr_run_inv: "wr_inv (fold wr_exec ops empty_registry)"
  by (rule wr_all.run_inv [of ops]) (simp add: run_ops_total)

lemma wr_fold_abs: "wr_inv wr \<Longrightarrow> abs_registry (fold wr_exec ops wr) = fold wr_spec ops (abs_registry wr)"
  by (induction ops arbitrary: wr) (simp_all add: wr_exec_inv wr_exec_abs)

lemma wr_fold_inv: "wr_inv wr \<Longrightarrow> wr_inv (fold wr_exec ops wr)"
  by (induction ops arbitrary: wr) (simp_all add: wr_exec_inv)

section \<open>Properties\<close>

text \<open>
  C34: After any sequence of operations the registry is the map from objects to the write context that
  produced them, with the set of frozen databases and the pending freezes, that the operations
  describe, and it accepts a registration exactly when the database is not frozen, the write
  context is given and the object is new or comes from the same write context.
\<close>

theorem registry_refines:
  "abs_registry (fold wr_exec ops empty_registry) = fold wr_spec ops no_writes \<and>
   wa_success (fst (register_write m (fold wr_exec ops empty_registry))) = accepts (fold wr_spec ops no_writes) m"
proof -
  have "abs_registry empty_registry = no_writes"
    by (rule registry_eqI) (simp_all add: empty_registry_def no_writes_def bucket_of_def)
  moreover have "wr_inv empty_registry" by (simp add: wr_inv_def empty_registry_def)
  ultimately have "abs_registry (fold wr_exec ops empty_registry) = fold wr_spec ops no_writes"
    using wr_fold_abs [of empty_registry ops] by simp
  then show ?thesis by (simp add: register_write_abs)
qed

text \<open>The operations that leave the origin of one object alone.\<close>

fun keeps :: "string \<Rightarrow> string \<Rightarrow> wr_op \<Rightarrow> bool" where
  "keeps db short (EraseProvenance db' short') \<longleftrightarrow> (db', short') \<noteq> (db, short)"
| "keeps db short (FreezeRequest streaming db' t) \<longleftrightarrow> db' \<noteq> db"
| "keeps db short (MasterFreeze running db') \<longleftrightarrow> db' \<noteq> db"
| "keeps db short (RestoreProvenance marker db' es) \<longleftrightarrow> db' \<noteq> db"
| "keeps db short op \<longleftrightarrow> True"

lemma fold_restore_other:
  "db' \<noteq> db \<Longrightarrow> fold (\<lambda>e f. if P e then f((db', n e) \<mapsto> h e) else f) es f (db, short) = f (db, short)"
  by (induction es arbitrary: f) auto

lemma keeps_origin:
  assumes "origin a (db, short) = Some h" and "pending_freeze a db = None" and "keeps db short op"
  shows "origin (wr_spec op a) (db, short) = Some h \<and> pending_freeze (wr_spec op a) db = None"
  using assms
  by (cases op) (auto simp: accepts_def forget_dbs_def Let_def restrict_map_def fold_restore_other)

lemma keeps_run:
  assumes "origin a (db, short) = Some h" and "pending_freeze a db = None" and "\<forall>op \<in> set ops. keeps db short op"
  shows "origin (fold wr_spec ops a) (db, short) = Some h"
  using assms
proof (induction ops arbitrary: a)
  case (Cons op ops)
  then show ?case using keeps_origin [of a db short h op] by simp
qed simp

text \<open>
  Two accepted registrations of the same object carry the same write context, unless the object was
  removed, its database frozen or its index reloaded in between.
\<close>

theorem accepted_writes_agree:
  assumes "wr = fold wr_exec before empty_registry" and "wa_success (fst (register_write m1 wr))"
    and "wr' = fold wr_exec between (snd (register_write m1 wr))" and "wa_success (fst (register_write m2 wr'))"
    and "wm_object_name m2 = wm_object_name m1" and "split_full_name (wm_object_name m1) = (wm_db_path m1, short)"
    and "\<forall>op \<in> set between. keeps (wm_db_path m1) short op"
  shows "wm_write_context_hash m2 = wm_write_context_hash m1"
proof -
  define a where "a = wr_spec (RegisterWrite m1) (abs_registry wr)"
  have inv: "wr_inv (snd (register_write m1 wr))"
    using wr_exec_inv [of wr "RegisterWrite m1"] wr_run_inv [of before] assms(1) by simp
  have acc: "accepts (abs_registry wr) m1" using assms(2) by (simp add: register_write_abs)
  then have "origin a (wm_db_path m1, short) = Some (wm_write_context_hash m1)" and "pending_freeze a (wm_db_path m1) = None"
    using assms(6) by (simp_all add: a_def accepts_def)
  then have "origin (fold wr_spec between a) (wm_db_path m1, short) = Some (wm_write_context_hash m1)"
    by (rule keeps_run [OF _ _ assms(7)])
  moreover have "abs_registry wr' = fold wr_spec between a"
    using wr_fold_abs [OF inv, of between] assms(3) by (simp add: register_write_abs(2) a_def)
  moreover have "accepts (abs_registry wr') m2" using assms(4) by (simp add: register_write_abs)
  ultimately show ?thesis using assms(5,6) by (auto simp: accepts_def)
qed

definition demo_write :: "worker_id \<Rightarrow> string \<Rightarrow> write_register_message" where
  "demo_write w hash = \<lparr>wm_worker_id = w, wm_object_name = ''db:x'', wm_db_path = ''db'', wm_write_context_hash = hash,
     wm_writer_id = ''w'', wm_size_bytes = 8, wm_preliminary = False\<rparr>"

lemma demo_split: "split_full_name (wm_object_name (demo_write w h)) = (''db'', ''x'')"
  by (simp add: demo_write_def split_full_name_def split_full_def Let_def)

lemma demo_accepted:
  "wr_frozen wr = [] \<Longrightarrow> wr_pending wr = [] \<Longrightarrow> bucket_of ''db'' wr = [] \<Longrightarrow> wa_success (fst (register_write (demo_write w ''h'') wr))"
  by (simp add: register_write_abs accepts_def demo_split) (simp add: demo_write_def)

theorem accepted_writes_agree_witness:
  "wm_write_context_hash (demo_write 2 ''h'') = wm_write_context_hash (demo_write 1 ''h'')"
proof (rule accepted_writes_agree [where before = "[]" and between = "[RegisterWrite (demo_write 3 ''g''), EraseProvenance ''db'' ''y'']"
        and short = "''x''", OF refl _ refl])
  show "wa_success (fst (register_write (demo_write 1 ''h'') (fold wr_exec [] empty_registry)))"
    by (simp add: demo_accepted empty_registry_def bucket_of_def)
  show "wa_success (fst (register_write (demo_write 2 ''h'')
      (fold wr_exec [RegisterWrite (demo_write 3 ''g''), EraseProvenance ''db'' ''y'']
        (snd (register_write (demo_write 1 ''h'') (fold wr_exec [] empty_registry))))))"
    by (simp add: register_write_abs accepts_def demo_split erase_abs)
       (simp add: demo_write_def empty_registry_def bucket_of_def)
  show "split_full_name (wm_object_name (demo_write 1 ''h'')) = (wm_db_path (demo_write 1 ''h''), ''x'')"
    by (simp add: demo_split) (simp add: demo_write_def)
qed (simp_all add: demo_write_def)

lemma pending_stays:
  assumes "pending_freeze a db = Some t" and "db \<notin> frozen a"
    and "op \<notin> {CommitFrozen t, RollbackFrozen t, UnfreezeMerged db, MasterFreeze True db}"
  shows "pending_freeze (wr_spec op a) db = Some t \<and> db \<notin> frozen (wr_spec op a)"
  using assms by (cases op) (auto simp: forget_dbs_def Let_def restrict_map_def)

lemma pending_stays_run:
  assumes "pending_freeze a db = Some t" and "db \<notin> frozen a"
    and "set ops \<inter> {CommitFrozen t, RollbackFrozen t, UnfreezeMerged db, MasterFreeze True db} = {}"
  shows "pending_freeze (fold wr_spec ops a) db = Some t \<and> db \<notin> frozen (fold wr_spec ops a)"
  using assms
proof (induction ops arbitrary: a)
  case (Cons op ops)
  have "op \<notin> {CommitFrozen t, RollbackFrozen t, UnfreezeMerged db, MasterFreeze True db}" using Cons.prems(3) by auto
  from pending_stays [OF Cons.prems(1,2) this] show ?case using Cons by simp
qed simp

lemma frozen_stays:
  assumes "db \<in> frozen a" and "UnfreezeMerged db \<notin> set ops"
  shows "db \<in> frozen (fold wr_spec ops a)"
  using assms
proof (induction ops arbitrary: a)
  case (Cons op ops)
  have "db \<in> frozen (wr_spec op a)" using Cons.prems by (cases op) (auto simp: forget_dbs_def Let_def)
  then show ?case using Cons by simp
qed simp

lemma register_write_frozen:
  "frozen_in_memory wr (wm_db_path m) \<Longrightarrow>
     \<not> wa_success (fst (register_write m wr)) \<and> wa_error_type (fst (register_write m wr)) = WRITE_TO_FROZEN_DB"
  by (simp add: register_write_def Let_def)

text \<open>
  C35: An accepted freeze request takes effect at once: as long as the database is not merged away, and
  in task mode the task has not ended and the master has not frozen the database itself, every write
  to it is refused, whatever other requests, writes and tasks do.  In task mode (not streaming) the
  freeze follows the task: when the task completes, the database is reported as newly frozen and later
  writes are refused until it is merged away; when the task fails, the database is not frozen any
  more.  In stream mode the freeze is final: neither the success nor the failure of the task undoes it.
\<close>

theorem freeze_follows_task:
  assumes "wr = fold wr_exec before empty_registry"
    and "on_database_freeze_request streaming db t wr = (None, wr1)" and "wr2 = fold wr_exec between wr1"
    and "UnfreezeMerged db \<notin> set between"
    and "streaming \<or> set between \<inter> {CommitFrozen t, RollbackFrozen t, MasterFreeze True db} = {}"
    and "wm_db_path m = db" and "UnfreezeMerged db \<notin> set after"
  shows "wa_error_type (fst (register_write m wr2)) = WRITE_TO_FROZEN_DB \<and>
    wa_error_type (fst (register_write m (fold wr_exec after (snd (commit_pending_frozen t wr2))))) = WRITE_TO_FROZEN_DB \<and>
    (if streaming
     then wa_error_type (fst (register_write m (fold wr_exec after (rollback_pending_frozen t wr2)))) = WRITE_TO_FROZEN_DB
     else db \<in> set (fst (commit_pending_frozen t wr2)) \<and> \<not> frozen_in_memory (rollback_pending_frozen t wr2) db)"
proof -
  have inv0: "wr_inv wr" using wr_run_inv assms(1) by simp
  have inv1: "wr_inv wr1" using wr_exec_inv [OF inv0, of "FreezeRequest streaming db t"] assms(2) by simp
  have inv2: "wr_inv wr2" using wr_fold_inv [OF inv1] assms(3) by simp
  have inv3: "wr_inv (snd (commit_pending_frozen t wr2))" "wr_inv (rollback_pending_frozen t wr2)"
    using wr_exec_inv [OF inv2, of "CommitFrozen t"] wr_exec_inv [OF inv2, of "RollbackFrozen t"] by simp_all
  have refused: "wa_error_type (fst (register_write m (fold wr_exec ops wr'))) = WRITE_TO_FROZEN_DB"
    if "wr_inv wr'" "db \<in> frozen (abs_registry wr')" "UnfreezeMerged db \<notin> set ops" for wr' ops
    using frozen_stays [OF that(2,3)] wr_fold_abs [OF that(1), of ops] register_write_frozen [of "fold wr_exec ops wr'" m] assms(6)
    by (simp add: frozen_in_memory_abs)
  note commit = commit_abs(1) [OF inv2, of t] and rollback = rollback_abs [OF inv2, of t]
  show ?thesis
  proof (cases streaming)
    case True
    have "db \<in> frozen (abs_registry wr1)"
      using assms(2) True by (auto simp: on_database_freeze_request_def cleanup_abs forget_dbs_def simp del: abs_simps split: if_splits)
         (simp add: abs_registry_def)
    then have f2: "db \<in> frozen (abs_registry wr2)"
      using frozen_stays [OF _ assms(4)] wr_fold_abs [OF inv1, of between] assms(3) by simp
    then have "db \<in> frozen (abs_registry (snd (commit_pending_frozen t wr2)))" "db \<in> frozen (abs_registry (rollback_pending_frozen t wr2))"
      unfolding commit rollback by (simp_all add: Let_def forget_dbs_def)
    then show ?thesis using True refused [OF inv2 f2, of "[]"] refused [OF inv3(1) _ assms(7)] refused [OF inv3(2) _ assms(7)] by simp
  next
    case False
    have "pending_freeze (abs_registry wr1) db = Some t" and "db \<notin> frozen (abs_registry wr1)"
      using assms(2) False by (auto simp: on_database_freeze_request_def frozen_in_memory_def split: if_splits)
    moreover have "set between \<inter> {CommitFrozen t, RollbackFrozen t, UnfreezeMerged db, MasterFreeze True db} = {}"
      using assms(4,5) False by auto
    ultimately have p2: "map_of (wr_pending wr2) db = Some t" "db \<notin> set (wr_frozen wr2)"
      using pending_stays_run wr_fold_abs [OF inv1, of between] assms(3) by (simp_all flip: abs_simps)
    have "db \<in> frozen (abs_registry (snd (commit_pending_frozen t wr2)))"
      unfolding commit using p2(1) by (simp add: Let_def forget_dbs_def)
    moreover have "db \<in> set (fst (commit_pending_frozen t wr2))" using commit_abs(2) [OF inv2, of t] p2 by simp
    moreover have "\<not> frozen_in_memory (rollback_pending_frozen t wr2) db"
      using rollback p2 by (simp only: frozen_in_memory_abs) (simp add: restrict_map_def)
    moreover have "wa_error_type (fst (register_write m wr2)) = WRITE_TO_FROZEN_DB"
      using register_write_frozen [of wr2 m] assms(6) p2(1) by (simp add: frozen_in_memory_def)
    ultimately show ?thesis using False refused [OF inv3(1) _ assms(7)] by simp
  qed
qed

theorem freeze_follows_task_witness:
  "(let wr1 = snd (on_database_freeze_request False ''db'' 7 empty_registry)
    in wa_error_type (fst (register_write (demo_write 1 ''h'') wr1)) = WRITE_TO_FROZEN_DB \<and>
       ''db'' \<in> set (fst (commit_pending_frozen 7 wr1)) \<and>
       \<not> frozen_in_memory (rollback_pending_frozen 7 wr1) ''db'') \<and>
   (let wr1 = snd (on_database_freeze_request True ''db'' 7 empty_registry)
    in wa_error_type (fst (register_write (demo_write 1 ''h'') (rollback_pending_frozen 7 wr1))) = WRITE_TO_FROZEN_DB)"
proof -
  have ok: "on_database_freeze_request st ''db'' 7 (fold wr_exec [] empty_registry) =
      (None, snd (on_database_freeze_request st ''db'' 7 empty_registry))" for st
    by (simp add: on_database_freeze_request_def frozen_in_memory_def empty_registry_def)
  have m: "wm_db_path (demo_write 1 ''h'') = ''db''" by (simp add: demo_write_def)
  note r = freeze_follows_task [OF refl ok, where between = "[]" and after = "[]", OF refl _ _ m]
  show ?thesis using r [of True] r [of False] by (simp add: Let_def)
qed

text \<open>
  C36: A database that was frozen in an earlier run and loaded again accepts writes: loading does not
  rebuild its provenance because the marker file says it is frozen, and the registration does not
  look at the marker file.
\<close>

theorem reloaded_frozen_db_writable:
  assumes "marker db" and "\<not> frozen_in_memory wr db" and "bucket_of db wr = []"
    and "split_full_name (wm_object_name m) = (db, short)" and "wm_db_path m = db" and "wm_write_context_hash m \<noteq> []"
  shows "is_db_frozen marker (restore_provenance (marker db) db es wr) db \<and>
    wa_success (fst (register_write m (restore_provenance (marker db) db es wr)))"
proof -
  have "fold (\<lambda>e wr. wr) es wr = wr" by (induction es) simp_all
  then have "restore_provenance (marker db) db es wr = wr" using assms(1) by (simp add: restore_provenance_def)
  then show ?thesis using assms by (simp add: register_write_abs accepts_def is_db_frozen_def frozen_in_memory_def)
qed

theorem reloaded_frozen_db_writable_witness:
  "let wr = restore_provenance True ''db''
     [\<lparr>ie_object_name = ''x'', ie_file_name = ''f'', ie_offset = 0, ie_size = 4, ie_is_large = False,
       ie_block_count = 1, ie_host = '''', ie_write_context_hash = ''old''\<rparr>] empty_registry
   in is_db_frozen (\<lambda>_. True) wr ''db'' \<and> wa_success (fst (register_write (demo_write 1 ''new'') wr))"
  using reloaded_frozen_db_writable [of "\<lambda>_. True" "''db''" empty_registry "demo_write 1 ''new''" "''x''"
      "[\<lparr>ie_object_name = ''x'', ie_file_name = ''f'', ie_offset = 0, ie_size = 4, ie_is_large = False,
       ie_block_count = 1, ie_host = '''', ie_write_context_hash = ''old''\<rparr>]"] demo_split [of 1 "''new''"]
  by (simp add: Let_def frozen_in_memory_def empty_registry_def bucket_of_def demo_write_def)

end
