(* ===== verification/Failed_Tasks.thy ===== *)
theory Failed_Tasks
  imports Task_Manager Wire_Bytes
begin

text \<open>
  The records of failed tasks, src/agent/cpp/master_agent.cpp: the file \<open>failed_tasks.bin\<close> with one
  length-prefixed record per failed task, its rewriting when a task succeeds later, and the checks
  and path replacements of \<open>restart_failed_tasks\<close>.  Files are a map from paths to bytes; the bitsery
  encoding of a record is a parameter; the mutex of the file makes each operation atomic; writes to an
  open file and the allocation of a record body succeed.
\<close>

section \<open>Database arguments\<close>

text \<open>\<open>rest.find(':', start)\<close>, as the parts before and after the first colon.\<close>

definition cut_colon :: "string \<Rightarrow> (string \<times> string) option" where
  "cut_colon s =
     (case dropWhile (\<lambda>c. c \<noteq> CHR '':'') s of
        [] \<Rightarrow> None
      | _ # rest \<Rightarrow> Some (takeWhile (\<lambda>c. c \<noteq> CHR '':'') s, rest))"

definition has_prefix :: "string \<Rightarrow> string \<Rightarrow> bool" where
  "has_prefix p s \<longleftrightarrow> take (length p) s = p"

text \<open>The loop that cuts at most \<open>n\<close> colons.\<close>

fun split_parts :: "nat \<Rightarrow> string \<Rightarrow> string list" where
  "split_parts 0 s = [s]"
| "split_parts (Suc n) s = (case cut_colon s of None \<Rightarrow> [s] | Some (a, rest) \<Rightarrow> a # split_parts n rest)"

definition db_tag :: string where "db_tag = ''__fly_db__:''"
definition db2_tag :: string where "db2_tag = ''__fly_db2__:''"
definition kwargs_tag :: string where "kwargs_tag = ''__fly_kwargs__:''"

definition parse_db_arg :: "string \<Rightarrow> string" where
  "parse_db_arg arg =
     (if \<not> has_prefix db_tag arg then
        (if \<not> has_prefix db2_tag arg then []
         else let rest = drop (length db2_tag) arg
              in case cut_colon rest of None \<Rightarrow> rest | Some (_, p) \<Rightarrow> p)
      else
        let parts = split_parts 3 (drop (length db_tag) arg)
        in if length parts = 4 then parts ! 2 else if length parts \<ge> 2 then parts ! 1 else [])"

definition parse_db_arg_uid :: "string \<Rightarrow> string \<times> string" where
  "parse_db_arg_uid arg =
     (if has_prefix db2_tag arg then
        (case cut_colon (drop (length db2_tag) arg) of None \<Rightarrow> ([], []) | Some (uid, p) \<Rightarrow> (uid, p))
      else
        let db = parse_db_arg arg
        in if db = [] then ([], [])
           else case cut_colon (drop (length db_tag) arg) of
                  None \<Rightarrow> ([], db)
                | Some (uid, rest) \<Rightarrow> (case cut_colon rest of None \<Rightarrow> ([], db) | Some _ \<Rightarrow> (uid, db)))"

section \<open>The file\<close>

record failed_task_record =
  fr_task_id :: task_id
  fr_submission :: task_submission_spec
  fr_error_message :: string

record record_codec =
  enc_record :: "failed_task_record \<Rightarrow> byte list"
  dec_record :: "byte list \<Rightarrow> failed_task_record option"

type_synonym files = "string \<rightharpoonup> byte list"

definition frame_record :: "record_codec \<Rightarrow> failed_task_record \<Rightarrow> byte list" where
  "frame_record c r = le64 (word_of_nat (length (enc_record c r))) @ enc_record c r"

text \<open>\<open>can_open\<close>: whether the file can be opened for appending.\<close>

definition append_failed_record :: "record_codec \<Rightarrow> bool \<Rightarrow> string \<Rightarrow> failed_task_record \<Rightarrow> files \<Rightarrow> files" where
  "append_failed_record c can_open path r fs =
     (if \<not> can_open then fs
      else fs(path \<mapsto> (case fs path of None \<Rightarrow> [] | Some bs \<Rightarrow> bs) @ frame_record c r))"

text \<open>
  The reading loop: it ends at a short length field, a length that is not positive or a short body;
  a body that does not decode is skipped.
\<close>

function read_loop :: "record_codec \<Rightarrow> byte list \<Rightarrow> failed_task_record list" where
  "read_loop c bs =
     (if length bs < 8 then []
      else
        let n = sint (rd_le64 (take 8 bs)); rest = drop 8 bs
        in if n \<le> 0 then []
           else if length rest < nat n then []
           else (case dec_record c (take (nat n) rest) of
                   None \<Rightarrow> read_loop c (drop (nat n) rest)
                 | Some r \<Rightarrow> r # read_loop c (drop (nat n) rest)))"
  by pat_completeness auto
termination by (relation "measure (\<lambda>(c, bs). length bs)") auto

declare read_loop.simps [simp del]

definition read_failed_records :: "record_codec \<Rightarrow> string \<Rightarrow> files \<Rightarrow> failed_task_record list" where
  "read_failed_records c path fs = (case fs path of None \<Rightarrow> [] | Some bs \<Rightarrow> read_loop c bs)"

definition rewrite_failed_records :: "record_codec \<Rightarrow> bool \<Rightarrow> string \<Rightarrow> failed_task_record list \<Rightarrow> files \<Rightarrow> files" where
  "rewrite_failed_records c can_open path rs fs =
     (if rs = [] then fs(path := None) else fold (append_failed_record c can_open path) rs (fs(path := None)))"

definition get_failed_tasks_file_path :: "string \<Rightarrow> string \<Rightarrow> string" where
  "get_failed_tasks_file_path log_dir owner = (if owner \<noteq> [] then owner else log_dir) @ ''/failed_tasks.bin''"

definition persist_failed_task :: "record_codec \<Rightarrow> bool \<Rightarrow> string \<Rightarrow> failed_task_record \<Rightarrow> files \<Rightarrow> files" where
  "persist_failed_task c can_open log_dir r fs =
     append_failed_record c can_open (get_failed_tasks_file_path log_dir (ts_owner_db_path (fr_submission r))) r fs"

definition remove_persisted_task :: "record_codec \<Rightarrow> bool \<Rightarrow> string \<Rightarrow> task_manager \<Rightarrow> task_id \<Rightarrow> files \<Rightarrow> files" where
  "remove_persisted_task c can_open log_dir tm t fs =
     (case get_task tm t of
        None \<Rightarrow> fs
      | Some md \<Rightarrow>
          let path = get_failed_tasks_file_path log_dir (ts_owner_db_path (tm_submission md));
              records = read_failed_records c path fs;
              kept = filter (\<lambda>r. fr_task_id r \<noteq> t) records
          in if fs path = None \<or> records = [] then fs
             else if length kept = length records then fs
             else if kept = [] then fs(path := None)
             else rewrite_failed_records c can_open path kept fs)"

definition empty_submission :: task_submission_spec where
  "empty_submission = \<lparr>ts_name = [], ts_module = [], ts_args = [], ts_inputs = [], ts_outputs = [],
     ts_required_capabilities = [], ts_attribute_timeout = -1, ts_priority = 10, ts_write_context_hash = [],
     ts_vars = [], ts_owner_db_path = []\<rparr>"

definition make_failed_record :: "task_manager \<Rightarrow> task_id \<Rightarrow> string \<Rightarrow> failed_task_record" where
  "make_failed_record tm t err =
     \<lparr>fr_task_id = t, fr_submission = (case get_task tm t of None \<Rightarrow> empty_submission | Some md \<Rightarrow> tm_submission md),
      fr_error_message = err\<rparr>"

definition persist_pending_tasks :: "record_codec \<Rightarrow> bool \<Rightarrow> string \<Rightarrow> task_manager \<Rightarrow> files \<Rightarrow> files" where
  "persist_pending_tasks c can_open log_dir tm fs =
     fold (\<lambda>md. persist_failed_task c can_open log_dir
             (make_failed_record tm (tm_task_id md) ''Master shutdown: task still pending''))
       (get_tasks_by_status tm PENDING) fs"

section \<open>Restart\<close>

definition kwargs_ok :: "failed_task_record \<Rightarrow> bool" where
  "kwargs_ok r \<longleftrightarrow> ts_args (fr_submission r) \<noteq> [] \<and> has_prefix kwargs_tag (last (ts_args (fr_submission r)))"

text \<open>The replacements of old by current paths; \<open>None\<close> is the refusal of the whole file.\<close>

fun collect_moves ::
  "(string \<rightharpoonup> string) \<Rightarrow> string list \<Rightarrow> (string \<rightharpoonup> string) \<Rightarrow> (string \<rightharpoonup> string) option" where
  "collect_moves uids [] moves = Some moves"
| "collect_moves uids (arg # args) moves =
     (case parse_db_arg_uid arg of (uid, db) \<Rightarrow>
        if db = [] then collect_moves uids args moves
        else if uid = [] then None
        else case uids uid of
               None \<Rightarrow> None
             | Some cur \<Rightarrow>
                 if cur = [] then None
                 else collect_moves uids args (if cur \<noteq> db then moves(db \<mapsto> cur) else moves))"

definition replace_prefix :: "(string \<rightharpoonup> string) \<Rightarrow> string \<Rightarrow> string" where
  "replace_prefix moves full =
     (let pos = length full - length (takeWhile (\<lambda>c. c \<noteq> CHR '':'') (rev full)) - 1
      in if full = [] \<or> CHR '':'' \<notin> set full \<or> pos = 0 then full
         else case moves (take pos full) of None \<Rightarrow> full | Some new \<Rightarrow> new @ drop pos full)"

definition rewrite_arg :: "(string \<rightharpoonup> string) \<Rightarrow> string \<Rightarrow> string" where
  "rewrite_arg uids arg =
     (case parse_db_arg_uid arg of (uid, db) \<Rightarrow>
        if db = [] then arg
        else case uids uid of None \<Rightarrow> arg | Some cur \<Rightarrow> db2_tag @ uid @ '':'' @ cur)"

text \<open>\<open>std::filesystem::path::parent_path\<close>.\<close>

definition parent_path :: "string \<Rightarrow> string" where
  "parent_path p =
     (let dir = rev (dropWhile (\<lambda>c. c \<noteq> CHR ''/'') (rev p)); trimmed = rev (dropWhile (\<lambda>c. c = CHR ''/'') (rev dir))
      in if trimmed = [] \<and> dir \<noteq> [] then ''/'' else trimmed)"

definition rewrite_record :: "(string \<rightharpoonup> string) \<Rightarrow> (string \<rightharpoonup> string) \<Rightarrow> string \<Rightarrow> failed_task_record \<Rightarrow> failed_task_record" where
  "rewrite_record uids moves path r =
     (let s = fr_submission r
      in r\<lparr>fr_submission := s\<lparr>
             ts_args := map (rewrite_arg uids) (ts_args s),
             ts_inputs := map (replace_prefix moves) (ts_inputs s),
             ts_vars := map (replace_prefix moves) (ts_vars s),
             ts_outputs := map (replace_prefix moves) (ts_outputs s),
             ts_owner_db_path := (if ts_owner_db_path s \<noteq> [] then parent_path path else [])\<rparr>\<rparr>)"

text \<open>
  The part of \<open>restart_failed_tasks\<close> that holds the mutex of the file: the records to submit again
  and the files; an empty list is the refusal, which keeps the file.
\<close>

definition take_failed_records ::
  "record_codec \<Rightarrow> (string \<rightharpoonup> string) \<Rightarrow> string \<Rightarrow> files \<Rightarrow> failed_task_record list \<times> files" where
  "take_failed_records c uids path fs =
     (let records = read_failed_records c path fs
      in if fs path = None \<or> records = [] then ([], fs)
         else if \<not> list_all kwargs_ok records then ([], fs)
         else case collect_moves uids (concat (map (\<lambda>r. ts_args (fr_submission r)) records)) Map.empty of
                None \<Rightarrow> ([], fs)
              | Some moves \<Rightarrow> (map (rewrite_record uids moves path) records, fs(path := None)))"

section \<open>Reading what was appended\<close>

text \<open>The codec on the records that are written: it decodes what it encoded, within the length field.\<close>

definition codec_on :: "record_codec \<Rightarrow> failed_task_record set \<Rightarrow> bool" where
  "codec_on c R \<longleftrightarrow> (\<forall>r \<in> R. dec_record c (enc_record c r) = Some r \<and>
     0 < length (enc_record c r) \<and> length (enc_record c r) < 2 ^ 63)"

definition file_of :: "record_codec \<Rightarrow> failed_task_record list \<Rightarrow> byte list" where
  "file_of c rs = concat (map (frame_record c) rs)"

lemma length_le64 [simp]: "length (le64 v) = 8"
  by (simp add: le64_def)

lemma frame_length_field:
  assumes "codec_on c {r}"
  shows "sint (rd_le64 (le64 (word_of_nat (length (enc_record c r))))) = int (length (enc_record c r))"
proof -
  have "length (enc_record c r) < 2 ^ 63" using assms by (simp add: codec_on_def)
  then show ?thesis by (simp add: c64.dec_enc signed_of_nat signed_take_bit_int_eq_self)
qed

lemma read_frame:
  assumes "codec_on c {r}"
  shows "read_loop c (frame_record c r @ bs) = r # read_loop c bs"
proof -
  have "dec_record c (enc_record c r) = Some r" "0 < length (enc_record c r)" using assms by (simp_all add: codec_on_def)
  then show ?thesis
    using frame_length_field [OF assms] by (subst read_loop.simps) (simp add: frame_record_def Let_def)
qed

lemma read_torn_frame:
  assumes "codec_on c {r}" and "k < length (frame_record c r)"
  shows "read_loop c (take k (frame_record c r)) = []"
proof (cases "k < 8")
  case False
  then have "length (enc_record c r) > k - 8" using assms(2) by (simp add: frame_record_def)
  then show ?thesis using False frame_length_field [OF assms(1)]
    by (subst read_loop.simps) (simp add: frame_record_def Let_def)
next
  case True
  then show ?thesis by (subst read_loop.simps) (simp add: min_def)
qed

lemma read_file_of: "codec_on c (set rs) \<Longrightarrow> read_loop c (file_of c rs) = rs"
proof (induction rs)
  case Nil
  show ?case by (subst read_loop.simps) (simp add: file_of_def)
next
  case (Cons r rs)
  have "codec_on c {r}" "codec_on c (set rs)" using Cons.prems by (simp_all add: codec_on_def)
  then show ?case using Cons.IH by (simp add: file_of_def read_frame)
qed

lemma read_torn_file:
  assumes "codec_on c (set rs)"
  shows "read_loop c (take k (file_of c rs)) = take (length (read_loop c (take k (file_of c rs)))) rs"
  using assms
proof (induction rs arbitrary: k)
  case Nil
  show ?case by (subst read_loop.simps) (simp add: file_of_def)
next
  case (Cons r rs)
  have ok: "codec_on c {r}" "codec_on c (set rs)" using Cons.prems by (simp_all add: codec_on_def)
  show ?case
  proof (cases "k < length (frame_record c r)")
    case True
    then show ?thesis using read_torn_frame [OF ok(1) True] by (simp add: file_of_def)
  next
    case False
    then have "read_loop c (take k (file_of c (r # rs))) = r # read_loop c (take (k - length (frame_record c r)) (file_of c rs))"
      by (simp add: file_of_def read_frame [OF ok(1)])
    then show ?thesis using Cons.IH [OF ok(2), of "k - length (frame_record c r)"] by simp
  qed
qed

definition files_hold :: "record_codec \<Rightarrow> (string \<Rightarrow> failed_task_record list) \<Rightarrow> files \<Rightarrow> bool" where
  "files_hold c F fs \<longleftrightarrow> (\<forall>p. fs p = (if F p = [] then None else Some (file_of c (F p))))"

lemma files_hold_read: "codec_on c (set (F p)) \<Longrightarrow> files_hold c F fs \<Longrightarrow> read_failed_records c p fs = F p"
  by (auto simp: files_hold_def read_failed_records_def read_file_of)

lemma files_hold_append:
  "files_hold c F fs \<Longrightarrow> files_hold c (F(p := F p @ [r])) (append_failed_record c True p r fs)"
  by (auto simp: files_hold_def append_failed_record_def file_of_def split: option.splits)

lemma files_hold_appends:
  "files_hold c F fs \<Longrightarrow> files_hold c (F(p := F p @ rs)) (fold (append_failed_record c True p) rs fs)"
proof (induction rs arbitrary: F fs)
  case (Cons r rs)
  from Cons.IH [OF files_hold_append [OF Cons.prems, of p r]] show ?case by (simp add: fun_upd_def if_distrib cong: if_cong)
qed simp

lemma files_hold_drop: "files_hold c F fs \<Longrightarrow> files_hold c (F(p := [])) (fs(p := None))"
  by (simp add: files_hold_def)

lemma files_hold_rewrite:
  assumes "files_hold c F fs" shows "files_hold c (F(p := rs)) (rewrite_failed_records c True p rs fs)"
  using files_hold_appends [OF files_hold_drop [OF assms, of p], of p rs] files_hold_drop [OF assms, of p]
  by (simp add: rewrite_failed_records_def)

section \<open>Properties\<close>

abbreviation record_path :: "string \<Rightarrow> failed_task_record \<Rightarrow> string" where
  "record_path logd r \<equiv> get_failed_tasks_file_path logd (ts_owner_db_path (fr_submission r))"

lemma files_hold_persists:
  "files_hold c F fs \<Longrightarrow>
     files_hold c (\<lambda>p. F p @ filter (\<lambda>r. record_path logd r = p) rs) (fold (persist_failed_task c True logd) rs fs)"
proof (induction rs arbitrary: F fs)
  case (Cons r rs)
  from Cons.IH [OF files_hold_append [OF Cons.prems, of "record_path logd r" r]]
  have "files_hold c (\<lambda>p. (F(record_path logd r := F (record_path logd r) @ [r])) p @ filter (\<lambda>r. record_path logd r = p) rs)
      (fold (persist_failed_task c True logd) (r # rs) fs)"
    by (simp add: persist_failed_task_def [of c True logd r fs])
  moreover have "(\<lambda>p. (F(record_path logd r := F (record_path logd r) @ [r])) p @ filter (\<lambda>r. record_path logd r = p) rs) =
      (\<lambda>p. F p @ filter (\<lambda>r. record_path logd r = p) (r # rs))"
    by auto
  ultimately show ?case by simp
qed simp

lemma persisted_hold:
  "files_hold c (\<lambda>p. filter (\<lambda>r. record_path logd r = p) rs) (fold (persist_failed_task c True logd) rs Map.empty)"
  using files_hold_persists [of c "\<lambda>_. []" Map.empty logd rs] by (simp add: files_hold_def)

text \<open>
  C37: Every file of failed tasks gives back, in order, exactly the records that were persisted for its
  database; a file that was cut short by a crash gives back a prefix of them.
\<close>

theorem failed_records_roundtrip:
  assumes "codec_on c (set rs)" and "fs = fold (persist_failed_task c True logd) rs Map.empty"
  shows "read_failed_records c p fs = filter (\<lambda>r. record_path logd r = p) rs \<and>
    (fs p = Some bs \<longrightarrow> (\<exists>n. read_failed_records c p (fs(p \<mapsto> take k bs)) = take n (filter (\<lambda>r. record_path logd r = p) rs)))"
proof -
  have hold: "files_hold c (\<lambda>p. filter (\<lambda>r. record_path logd r = p) rs) fs"
    using persisted_hold assms(2) by simp
  have ok: "codec_on c (set (filter (\<lambda>r. record_path logd r = p) rs))" using assms(1) by (simp add: codec_on_def)
  have "\<exists>n. read_loop c (take k bs) = take n (filter (\<lambda>r. record_path logd r = p) rs)" if "fs p = Some bs"
    using read_torn_file [where k = k, OF ok] hold that
    by (auto simp: files_hold_def split: if_splits)
  moreover have "read_failed_records c p fs = filter (\<lambda>r. record_path logd r = p) rs"
    by (rule files_hold_read [OF _ hold]) (use ok in simp)
  ultimately show ?thesis by (simp add: read_failed_records_def)
qed

text \<open>For the examples: records that differ in the task only, and a codec for them.\<close>

definition demo_record :: "task_id \<Rightarrow> failed_task_record" where
  "demo_record t = \<lparr>fr_task_id = t,
     fr_submission = empty_submission\<lparr>ts_args := [db2_tag @ ''u:/old'', kwargs_tag], ts_inputs := [''/old:x''],
       ts_owner_db_path := ''/db''\<rparr>,
     fr_error_message = ''boom''\<rparr>"

definition demo_codec :: record_codec where
  "demo_codec = \<lparr>enc_record = (\<lambda>r. [word_of_nat (fr_task_id r)]), dec_record = (\<lambda>bs. Some (demo_record (unat (hd bs))))\<rparr>"

definition demo_files :: files where
  "demo_files = fold (persist_failed_task demo_codec True ''/log'') [demo_record 7, demo_record 8] Map.empty"

lemma demo_codec_on: "codec_on demo_codec {demo_record 7, demo_record 8}"
  by (simp add: codec_on_def demo_codec_def demo_record_def)

lemma demo_path: "record_path ''/log'' (demo_record t) = ''/db/failed_tasks.bin''"
  by (simp add: get_failed_tasks_file_path_def demo_record_def)

theorem failed_records_roundtrip_witness:
  "read_failed_records demo_codec ''/db/failed_tasks.bin'' demo_files = [demo_record 7, demo_record 8]"
  using failed_records_roundtrip [of demo_codec "[demo_record 7, demo_record 8]" demo_files "''/log''" "''/db/failed_tasks.bin''"]
    demo_codec_on demo_path [of 7] demo_path [of 8]
  by (simp add: demo_files_def)

text \<open>
  C38: When a task completes, its records disappear from the file of its database and all other records
  stay, in order; the file is deleted when none is left, and no other file changes.
\<close>

theorem remove_persisted_exact:
  assumes "codec_on c (set (F path))" and "files_hold c F fs" and "get_task tm t = Some md"
    and "path = get_failed_tasks_file_path logd (ts_owner_db_path (tm_submission md))"
  shows "files_hold c (F(path := filter (\<lambda>r. fr_task_id r \<noteq> t) (F path))) (remove_persisted_task c True logd tm t fs)"
proof -
  let ?kept = "filter (\<lambda>r. fr_task_id r \<noteq> t) (F path)"
  have read: "read_failed_records c path fs = F path" using files_hold_read assms(1,2) by blast
  show ?thesis
  proof (cases "F path = [] \<or> length ?kept = length (F path)")
    case True
    then have "?kept = F path" by (auto simp: length_filter_eq filter_id_conv)
    then show ?thesis using True assms read by (auto simp: remove_persisted_task_def Let_def)
  next
    case False
    then obtain bs where "fs path = Some bs" using assms(2) by (auto simp: files_hold_def)
    then show ?thesis
      using False files_hold_rewrite [OF assms(2), of path ?kept] files_hold_drop [OF assms(2), of path]
      by (simp add: remove_persisted_task_def Let_def assms(3) assms(4) [symmetric] read)
  qed
qed

theorem remove_persisted_exact_witness:
  "remove_persisted_task demo_codec True ''/log''
     (the (create_task 0 7 (fr_submission (demo_record 7)) [] empty_task_manager)) 7 demo_files ''/db/failed_tasks.bin''
   = Some (file_of demo_codec [demo_record 8])"
proof -
  let ?tm = "the (create_task 0 7 (fr_submission (demo_record 7)) [] empty_task_manager)"
  let ?F = "\<lambda>p. filter (\<lambda>r. record_path ''/log'' r = p) [demo_record 7, demo_record 8]"
  obtain md where md: "get_task ?tm 7 = Some md" "tm_submission md = fr_submission (demo_record 7)"
    by (simp add: create_task_def empty_task_manager_def get_task_def umap_insert_def)
  have path: "''/db/failed_tasks.bin'' = get_failed_tasks_file_path ''/log'' (ts_owner_db_path (tm_submission md))"
    using demo_path [of 7] md(2) by simp
  have F: "?F ''/db/failed_tasks.bin'' = [demo_record 7, demo_record 8]" using demo_path [of 7] demo_path [of 8] by simp
  have "files_hold demo_codec ?F demo_files" unfolding demo_files_def by (rule persisted_hold)
  from remove_persisted_exact [OF _ this md(1) path] show ?thesis
    using demo_codec_on F by (simp add: files_hold_def) (simp add: demo_record_def)
qed

lemma cut_colon_Some: "cut_colon s = Some (a, b) \<longleftrightarrow> s = a @ '':'' @ b \<and> CHR '':'' \<notin> set a"
proof
  assume *: "cut_colon s = Some (a, b)"
  obtain c where d: "dropWhile (\<lambda>c. c \<noteq> CHR '':'') s = c # b" and a: "a = takeWhile (\<lambda>c. c \<noteq> CHR '':'') s"
    using * by (auto simp: cut_colon_def split: list.splits)
  have "c = CHR '':''" using hd_dropWhile [of "\<lambda>c. c \<noteq> CHR '':''" s] d by auto
  moreover have "s = a @ c # b" using takeWhile_dropWhile_id [of "\<lambda>c. c \<noteq> CHR '':''" s] d a by simp
  moreover have "CHR '':'' \<notin> set a" using a by (auto dest: set_takeWhileD)
  ultimately show "s = a @ '':'' @ b \<and> CHR '':'' \<notin> set a" by simp
next
  assume "s = a @ '':'' @ b \<and> CHR '':'' \<notin> set a"
  then show "cut_colon s = Some (a, b)"
    by (auto simp: cut_colon_def takeWhile_append dropWhile_append)
qed

lemma cut_colon_None: "cut_colon s = None \<longleftrightarrow> CHR '':'' \<notin> set s"
proof -
  have "dropWhile (\<lambda>c. c \<noteq> CHR '':'') s = [] \<longleftrightarrow> CHR '':'' \<notin> set s" by auto
  then show ?thesis by (cases "dropWhile (\<lambda>c. c \<noteq> CHR '':'') s") (simp_all add: cut_colon_def del: dropWhile_eq_Nil_conv)
qed

lemma cut_colon_append [simp]: "CHR '':'' \<notin> set a \<Longrightarrow> cut_colon (a @ CHR '':'' # b) = Some (a, b)"
  using cut_colon_Some [of "a @ CHR '':'' # b" a b] by simp

lemma db2_not_db: "\<not> has_prefix db_tag (db2_tag @ s)"
  by (simp add: has_prefix_def db_tag_def db2_tag_def)

lemma parse_db2:
  "CHR '':'' \<notin> set uid \<Longrightarrow> parse_db_arg (db2_tag @ uid @ '':'' @ path) = path"
  "CHR '':'' \<notin> set uid \<Longrightarrow> parse_db_arg_uid (db2_tag @ uid @ '':'' @ path) = (uid, path)"
  by (simp_all add: parse_db_arg_def parse_db_arg_uid_def db2_not_db) (simp_all add: has_prefix_def)

lemma parse_uid_no_colon: "parse_db_arg_uid arg = (uid, db) \<Longrightarrow> CHR '':'' \<notin> set uid"
  by (auto simp: parse_db_arg_uid_def Let_def cut_colon_Some split: if_splits option.splits)

lemma split_parts_cut: "CHR '':'' \<notin> set a \<Longrightarrow> split_parts (Suc n) (a @ CHR '':'' # b) = a # split_parts n b"
  by simp

lemma split_parts_last: "CHR '':'' \<notin> set a \<Longrightarrow> split_parts n a = [a]"
  by (cases n) (auto simp: cut_colon_None [THEN iffD2])

lemma parse_db: "parse_db_arg (db_tag @ s) = (let parts = split_parts 3 s
    in if length parts = 4 then parts ! 2 else if length parts \<ge> 2 then parts ! 1 else [])"
  by (simp add: parse_db_arg_def has_prefix_def Let_def)

text \<open>
  C39: The database named by an encoded argument: the current format and the four-part format give the
  path of the database, the three-part format, which is written for a database without uid, gives
  the data path instead.
\<close>

theorem db_arg_formats:
  assumes "CHR '':'' \<notin> set uid" and "CHR '':'' \<notin> set db" and "CHR '':'' \<notin> set data"
  shows "parse_db_arg (db2_tag @ uid @ '':'' @ db) = db \<and>
    parse_db_arg (db_tag @ uid @ '':'' @ db @ '':'' @ data) = db \<and>
    parse_db_arg (db_tag @ db @ '':'' @ data) = data"
proof (intro conjI)
  show "parse_db_arg (db2_tag @ uid @ '':'' @ db) = db" using parse_db2(1) [OF assms(1)] by simp
  show "parse_db_arg (db_tag @ uid @ '':'' @ db @ '':'' @ data) = db"
    using assms by (simp add: parse_db split_parts_cut split_parts_last numeral_3_eq_3 del: split_parts.simps)
  show "parse_db_arg (db_tag @ db @ '':'' @ data) = data"
    using assms by (simp add: parse_db split_parts_cut split_parts_last numeral_3_eq_3 del: split_parts.simps)
qed

theorem db_arg_formats_witness:
  "parse_db_arg ''__fly_db2__:u1:/runs/db'' = ''/runs/db'' \<and> parse_db_arg ''__fly_db__:u1:/runs/db:/data'' = ''/runs/db'' \<and>
   parse_db_arg ''__fly_db__:/runs/db:/data'' = ''/data''"
  using db_arg_formats [of "''u1''" "''/runs/db''" "''/data''"] by (simp add: db_tag_def db2_tag_def)

text \<open>A database argument that \<open>restart_failed_tasks\<close> can resolve: it has a uid that is loaded in this run.\<close>

definition resolvable :: "(string \<rightharpoonup> string) \<Rightarrow> string \<Rightarrow> bool" where
  "resolvable uids arg \<longleftrightarrow> (\<forall>uid db. parse_db_arg_uid arg = (uid, db) \<and> db \<noteq> [] \<longrightarrow>
     uid \<noteq> [] \<and> (\<exists>cur. uids uid = Some cur \<and> cur \<noteq> []))"

lemma collect_moves_iff: "collect_moves uids args moves \<noteq> None \<longleftrightarrow> (\<forall>arg \<in> set args. resolvable uids arg)"
proof (induction args arbitrary: moves)
  case (Cons a args)
  obtain uid db where p: "parse_db_arg_uid a = (uid, db)" by (cases "parse_db_arg_uid a")
  show ?case
  proof (cases "resolvable uids a")
    case True
    then have "\<exists>moves'. collect_moves uids (a # args) moves = collect_moves uids args moves'"
      using p by (auto simp: resolvable_def split: option.split)
    then obtain moves' where "collect_moves uids (a # args) moves = collect_moves uids args moves'" by blast
    then show ?thesis using Cons.IH [of moves'] True by (simp del: collect_moves.simps not_None_eq)
  next
    case False
    then have "collect_moves uids (a # args) moves = None" using p by (auto simp: resolvable_def split: option.split)
    then show ?thesis using False by auto
  qed
qed simp

text \<open>What the moves contain: for each recorded path the current path of one of the arguments with this path.\<close>

lemma collect_moves_content:
  assumes "collect_moves uids args moves = Some m"
  shows "m p = moves p \<or>
      (\<exists>arg \<in> set args. \<exists>uid cur. parse_db_arg_uid arg = (uid, p) \<and> uids uid = Some cur \<and> m p = Some cur)"
    and "arg \<in> set args \<Longrightarrow> parse_db_arg_uid arg = (uid, q) \<Longrightarrow> q \<noteq> [] \<Longrightarrow> uids uid \<noteq> Some q \<Longrightarrow> m q \<noteq> None"
  using assms
proof (induction args arbitrary: moves p)
  case (Cons a args)
  obtain u db where pa: "parse_db_arg_uid a = (u, db)" by (cases "parse_db_arg_uid a")
  {
    case 1
    show ?case
    proof (cases "db = [] \<or> uids u = Some db")
      case True
      then have "collect_moves uids args moves = Some m" using 1 pa by (auto split: if_splits option.splits)
      then show ?thesis using Cons.IH(1) [of moves p] by auto
    next
      case False
      then obtain cur where cur: "uids u = Some cur" "collect_moves uids args (moves(db \<mapsto> cur)) = Some m"
        using 1 pa by (auto split: if_splits option.splits)
      then show ?thesis using Cons.IH(1) [OF cur(2), of p] pa by (cases "p = db") auto
    qed
  next
    case 2
    show ?case
    proof (cases "db = [] \<or> uids u = Some db")
      case True
      then have m: "collect_moves uids args moves = Some m" using 2(5) pa by (auto split: if_splits option.splits)
      have "arg \<noteq> a" using True 2(2-4) pa by auto
      then show ?thesis using Cons.IH(2) [OF _ 2(2-4) m] 2(1) by simp
    next
      case False
      then obtain cur where cur: "uids u = Some cur" "collect_moves uids args (moves(db \<mapsto> cur)) = Some m"
        using 2(5) pa by (auto split: if_splits option.splits)
      show ?thesis
      proof (cases "arg = a")
        case True
        then show ?thesis using Cons.IH(1) [OF cur(2), of q] 2(2) pa by auto
      next
        case ne: False
        then show ?thesis using Cons.IH(2) [OF _ 2(2-4) cur(2)] 2(1) by simp
      qed
    qed
  }
qed simp_all

lemma last_part: "CHR '':'' \<notin> set rest \<Longrightarrow> takeWhile (\<lambda>c. c \<noteq> CHR '':'') (rev (p @ '':'' @ rest)) = rev rest"
proof -
  assume "CHR '':'' \<notin> set rest"
  then have "takeWhile (\<lambda>c. c \<noteq> CHR '':'') (rev rest @ CHR '':'' # rev p) = rev rest @ takeWhile (\<lambda>c. c \<noteq> CHR '':'') (CHR '':'' # rev p)"
    by (intro takeWhile_append2) auto
  then show ?thesis by simp
qed

lemma last_part_unique:
  assumes "p @ '':'' @ rest = q @ '':'' @ r" and "CHR '':'' \<notin> set rest" and "CHR '':'' \<notin> set r"
  shows "q = p \<and> r = rest"
proof -
  have "rev rest = rev r" using last_part [OF assms(2), of p] last_part [OF assms(3), of q] unfolding assms(1) by simp
  then show ?thesis using assms(1) by simp
qed

lemma replace_prefix_split:
  assumes "CHR '':'' \<notin> set rest" and "p \<noteq> []"
  shows "replace_prefix moves (p @ '':'' @ rest) = (case moves p of None \<Rightarrow> p @ '':'' @ rest | Some new \<Rightarrow> new @ '':'' @ rest)"
proof -
  have pos: "length (p @ '':'' @ rest) - length (takeWhile (\<lambda>c. c \<noteq> CHR '':'') (rev (p @ '':'' @ rest))) - 1 = length p"
    unfolding last_part [OF assms(1)] by simp
  show ?thesis unfolding replace_prefix_def pos Let_def using assms(2) by (cases "moves p") simp_all
qed

lemma replace_prefix_none:
  assumes "\<nexists>p rest. full = p @ '':'' @ rest \<and> CHR '':'' \<notin> set rest \<and> p \<noteq> []"
  shows "replace_prefix moves full = full"
proof (cases "CHR '':'' \<in> set full")
  case True
  then obtain p rest where s: "full = p @ CHR '':'' # rest" "CHR '':'' \<notin> set rest" by (metis split_list_last)
  then have "p = []" using assms by auto
  then show ?thesis using s(1) last_part [OF s(2), of "[]"] by (simp add: replace_prefix_def Let_def)
qed (simp add: replace_prefix_def Let_def)

text \<open>
  How a restart rewrites a database argument and the full name of an object.  The name keeps its path
  when every argument of the file with this path is still at this path, and otherwise gets the current
  path of such an argument.
\<close>

definition current_arg :: "(string \<rightharpoonup> string) \<Rightarrow> string \<Rightarrow> string \<Rightarrow> bool" where
  "current_arg uids a a' \<longleftrightarrow>
     (case parse_db_arg_uid a of (uid, db) \<Rightarrow>
        if db = [] then a' = a
        else \<exists>cur. uids uid = Some cur \<and> a' = db2_tag @ uid @ '':'' @ cur \<and> parse_db_arg_uid a' = (uid, cur))"

definition current_name :: "(string \<rightharpoonup> string) \<Rightarrow> string list \<Rightarrow> string \<Rightarrow> string \<Rightarrow> bool" where
  "current_name uids args full full' \<longleftrightarrow>
     full' = full \<and> (\<forall>p rest arg uid. full = p @ '':'' @ rest \<and> CHR '':'' \<notin> set rest \<and> p \<noteq> [] \<and>
       arg \<in> set args \<and> parse_db_arg_uid arg = (uid, p) \<longrightarrow> uids uid = Some p) \<or>
     (\<exists>p rest arg uid cur. full = p @ '':'' @ rest \<and> CHR '':'' \<notin> set rest \<and> p \<noteq> [] \<and>
       arg \<in> set args \<and> parse_db_arg_uid arg = (uid, p) \<and> uids uid = Some cur \<and> full' = cur @ '':'' @ rest)"

definition restarted :: "(string \<rightharpoonup> string) \<Rightarrow> string list \<Rightarrow> string \<Rightarrow> failed_task_record \<Rightarrow> failed_task_record \<Rightarrow> bool" where
  "restarted uids args dir r r' \<longleftrightarrow>
     (let s = fr_submission r; s' = fr_submission r'
      in fr_task_id r' = fr_task_id r \<and> fr_error_message r' = fr_error_message r \<and>
         list_all2 (current_arg uids) (ts_args s) (ts_args s') \<and>
         list_all2 (current_name uids args) (ts_inputs s) (ts_inputs s') \<and>
         list_all2 (current_name uids args) (ts_vars s) (ts_vars s') \<and>
         list_all2 (current_name uids args) (ts_outputs s) (ts_outputs s') \<and>
         ts_owner_db_path s' = (if ts_owner_db_path s = [] then [] else dir) \<and>
         ts_name s' = ts_name s \<and> ts_module s' = ts_module s \<and>
         ts_required_capabilities s' = ts_required_capabilities s \<and> ts_attribute_timeout s' = ts_attribute_timeout s \<and>
         ts_priority s' = ts_priority s \<and> ts_write_context_hash s' = ts_write_context_hash s)"

lemma rewrite_arg_current: "resolvable uids a \<Longrightarrow> current_arg uids a (rewrite_arg uids a)"
proof -
  assume r: "resolvable uids a"
  obtain u d where p: "parse_db_arg_uid a = (u, d)" by (cases "parse_db_arg_uid a")
  show ?thesis
  proof (cases "d = []")
    case False
    then obtain cur where "uids u = Some cur" using r p by (auto simp: resolvable_def)
    then show ?thesis using p False parse_db2(2) [of u cur] parse_uid_no_colon [OF p] by (simp add: current_arg_def rewrite_arg_def)
  qed (simp add: p current_arg_def rewrite_arg_def)
qed

lemma replace_prefix_current:
  assumes "collect_moves uids args Map.empty = Some moves"
  shows "current_name uids args full (replace_prefix moves full)"
proof (cases "\<exists>p rest. full = p @ '':'' @ rest \<and> CHR '':'' \<notin> set rest \<and> p \<noteq> []")
  case True
  then obtain p rest where s: "full = p @ '':'' @ rest" "CHR '':'' \<notin> set rest" "p \<noteq> []" by blast
  have unique: "q = p \<and> r = rest" if "full = q @ '':'' @ r" "CHR '':'' \<notin> set r" for q r
    using last_part_unique [of p rest q r] that s(1,2) by simp
  show ?thesis
  proof (cases "moves p")
    case None
    have still: "uids uid = Some p" if "arg \<in> set args" "parse_db_arg_uid arg = (uid, p)" for arg uid
      using collect_moves_content(2) [OF assms that s(3)] None by auto
    have "replace_prefix moves full = full" using None unfolding s(1) replace_prefix_split [OF s(2,3)] by simp
    moreover have "uids uid = Some q"
      if h: "full = q @ '':'' @ r \<and> CHR '':'' \<notin> set r \<and> q \<noteq> [] \<and> arg \<in> set args \<and> parse_db_arg_uid arg = (uid, q)"
      for q r arg uid
    proof -
      have "q = p" using unique [of q r] h by (elim conjE) simp
      then show ?thesis using still [of arg uid] h by simp
    qed
    ultimately show ?thesis unfolding current_name_def by (intro disjI1 conjI allI impI)
  next
    case (Some new)
    obtain arg uid where "arg \<in> set args" "parse_db_arg_uid arg = (uid, p)" "uids uid = Some new"
      using collect_moves_content(1) [OF assms, of p] Some by auto
    moreover have "replace_prefix moves full = new @ '':'' @ rest"
      using Some unfolding s(1) replace_prefix_split [OF s(2,3)] by simp
    ultimately show ?thesis unfolding current_name_def using s by (intro disjI2 exI conjI)
  qed
next
  case False
  then show ?thesis unfolding current_name_def replace_prefix_none [OF False] by (intro disjI1) blast
qed

lemma rewrite_record_restarted:
  assumes "collect_moves uids args Map.empty = Some moves" and "\<forall>a \<in> set (ts_args (fr_submission r)). resolvable uids a"
  shows "restarted uids args (parent_path path) r (rewrite_record uids moves path r)"
proof -
  have "list_all2 (current_name uids args) xs (map (replace_prefix moves) xs)" for xs
    by (simp add: list_all2_conv_all_nth replace_prefix_current [OF assms(1)])
  moreover have "list_all2 (current_arg uids) (ts_args (fr_submission r)) (map (rewrite_arg uids) (ts_args (fr_submission r)))"
    using assms(2) by (simp add: list_all2_conv_all_nth rewrite_arg_current)
  ultimately show ?thesis by (simp add: restarted_def rewrite_record_def Let_def)
qed

text \<open>
  C40: A restart takes the whole file or nothing.  It takes the file exactly when there is a record, every
  record ends with the section of keyword arguments, and every database argument has a uid that is
  loaded now.  Then the file is deleted and every record is submitted again, in order, with all its
  fields, except that a database argument names the path at which its database is loaded now, the
  inputs, variables and outputs follow the databases of the file that have moved, and the owner is the
  directory of the file.  Otherwise nothing is submitted and no file changes.
\<close>

theorem restart_all_or_nothing:
  assumes "take_failed_records c uids path fs = (rs, fs')" and "records = read_failed_records c path fs"
    and "args = concat (map (\<lambda>r. ts_args (fr_submission r)) records)"
  shows "if records \<noteq> [] \<and> list_all kwargs_ok records \<and> list_all (resolvable uids) args
    then fs' = fs(path := None) \<and> list_all2 (restarted uids args (parent_path path)) records rs
    else rs = [] \<and> fs' = fs"
proof -
  have none: "fs path = None \<Longrightarrow> records = []" by (simp add: assms(2) read_failed_records_def)
  have iff: "list_all (resolvable uids) args \<longleftrightarrow> collect_moves uids args Map.empty \<noteq> None"
    unfolding collect_moves_iff list_all_iff ..
  show ?thesis
  proof (cases "records \<noteq> [] \<and> list_all kwargs_ok records \<and> list_all (resolvable uids) args")
    case True
    then obtain moves where m: "collect_moves uids args Map.empty = Some moves" using iff by auto
    have "take_failed_records c uids path fs = (map (rewrite_record uids moves path) records, fs(path := None))"
      using True none m unfolding take_failed_records_def assms(2) [symmetric] assms(3) [symmetric] Let_def by auto
    then have "rs = map (rewrite_record uids moves path) records" "fs' = fs(path := None)" using assms(1) by simp_all
    moreover have "restarted uids args (parent_path path) r (rewrite_record uids moves path r)" if "r \<in> set records" for r
      using True that by (intro rewrite_record_restarted [OF m]) (auto simp: assms(3) list_all_iff)
    ultimately show ?thesis using True by (simp add: list_all2_conv_all_nth)
  next
    case False
    have "take_failed_records c uids path fs = ([], fs)"
      using False iff unfolding take_failed_records_def assms(2) [symmetric] assms(3) [symmetric] Let_def
      by (cases "collect_moves uids args Map.empty") auto
    then show ?thesis using False assms(1) by simp
  qed
qed

theorem restart_all_or_nothing_witness:
  "let (rs, fs') = take_failed_records demo_codec [''u'' \<mapsto> ''/new''] ''/db/failed_tasks.bin'' demo_files
   in fs' = demo_files(''/db/failed_tasks.bin'' := None) \<and> map fr_task_id rs = [7, 8] \<and>
      (\<forall>r \<in> set rs. hd (ts_args (fr_submission r)) = ''__fly_db2__:u:/new'')"
proof -
  let ?u = "[''u'' \<mapsto> ''/new''] :: string \<rightharpoonup> string"
  have read: "read_failed_records demo_codec ''/db/failed_tasks.bin'' demo_files = [demo_record 7, demo_record 8]"
    using persisted_hold [of demo_codec "''/log''" "[demo_record 7, demo_record 8]"] demo_codec_on demo_path [of 7] demo_path [of 8]
    by (intro files_hold_read [where F = "\<lambda>p. filter (\<lambda>r. record_path ''/log'' r = p) [demo_record 7, demo_record 8]", THEN trans])
       (simp_all add: demo_files_def)
  obtain rs fs' where t: "take_failed_records demo_codec ?u ''/db/failed_tasks.bin'' demo_files = (rs, fs')" by fastforce
  have p: "parse_db_arg_uid (db2_tag @ ''u:/old'') = (''u'', ''/old'')" using parse_db2(2) [of "''u''" "''/old''"] by simp
  have k: "parse_db_arg_uid kwargs_tag = ([], [])"
    by (simp add: parse_db_arg_uid_def parse_db_arg_def has_prefix_def kwargs_tag_def db_tag_def db2_tag_def Let_def)
  have args: "ts_args (fr_submission (demo_record i)) = [db2_tag @ ''u:/old'', kwargs_tag]" for i
    by (simp add: demo_record_def)
  have "list_all kwargs_ok [demo_record 7, demo_record 8]" by (simp add: kwargs_ok_def args has_prefix_def)
  moreover have "resolvable ?u (db2_tag @ ''u:/old'')" "resolvable ?u kwargs_tag" by (auto simp: resolvable_def p k)
  ultimately have "fs' = demo_files(''/db/failed_tasks.bin'' := None) \<and>
      list_all2 (restarted ?u (concat (map (\<lambda>r. ts_args (fr_submission r)) [demo_record 7, demo_record 8]))
        (parent_path ''/db/failed_tasks.bin'')) [demo_record 7, demo_record 8] rs"
    using restart_all_or_nothing [OF t read [symmetric] refl] by (simp add: args)
  then obtain z z' where rs: "rs = [z, z']" and fs: "fs' = demo_files(''/db/failed_tasks.bin'' := None)"
    and each: "fr_task_id z = 7" "fr_task_id z' = 8"
      "list_all2 (current_arg ?u) [db2_tag @ ''u:/old'', kwargs_tag] (ts_args (fr_submission z))"
      "list_all2 (current_arg ?u) [db2_tag @ ''u:/old'', kwargs_tag] (ts_args (fr_submission z'))"
    unfolding restarted_def Let_def args by (auto simp: list_all2_Cons1 demo_record_def)
  have "hd as = ''__fly_db2__:u:/new''" if as: "list_all2 (current_arg ?u) [db2_tag @ ''u:/old'', kwargs_tag] as" for as
  proof -
    obtain a' bs where "current_arg ?u (db2_tag @ ''u:/old'') a'" "as = a' # bs" using as unfolding list_all2_Cons1 by blast
    then show ?thesis unfolding current_arg_def p by (simp add: db2_tag_def)
  qed
  then show ?thesis using each(3,4) by (simp add: t rs fs each(1,2))
qed

end
