(* ===== verification/Spec2Isabelle.thy ===== *)
theory Spec2Isabelle
  imports Task_Scheduler Task_Manager Geometry Message_Protocol Write_Context_Hash Object_Stream Data_Writer
    Write_Back_Queue Object_Cache Data_Service
    Write_Registry Failed_Tasks
begin

text \<open>
  \<^bold>\<open>A verification of the fly task and storage framework\<close>

  Fly runs a graph of tasks on worker processes.  A master keeps the dependency graph of the tasks,
  the state of every task and of every worker, and assigns ready tasks to idle workers.  Tasks read
  and write named objects.  An object is compressed block by block into a record, records are
  appended to data files, and an index log says where each object is.  Processes exchange framed
  messages.  The design flow on top places cells with geometric transforms.  All paths below are
  under \<^verbatim>\<open>src/src/\<close>.

  \<^bold>\<open>How the code is modelled.\<close>  Classes are records, enumerations are datatypes, fixed-width integers
  are words where wrap-around matters and otherwise \<open>int\<close> or \<open>nat\<close>.  Unordered maps whose iteration
  order the code uses are association lists with distinct keys, others are maps.  A method is a
  function that returns the new state; a failed assertion or a thrown exception is \<open>None\<close> or a value
  of a result type.  A method is one step: methods that hold the object's mutex are atomic, and the few
  that take several locks in turn (named in their theories) are taken as atomic too.  Clock readings, the success of
  I/O and the results of library calls are arguments.  Code that is not part of the repository is a
  parameter with the documented behaviour as a named hypothesis: the CRC (\<open>crc64\<close>), the LZ4, zlib
  and ZSTD calls (\<open>codec_libs\<close>, \<open>libs_ok\<close>), bitsery (\<open>idx_codec\<close>, \<open>codec_ok\<close>; \<open>record_codec\<close>, \<open>codec_on\<close>) and \<open>pread\<close>.

  \<^bold>\<open>Theories.\<close>
  \<^item> \<open>Fly_Prelude\<close>: lists as ordered sets, association lists, and components as state machines
    (\<open>reachable_by\<close>, \<open>run_ops\<close>, the locale \<open>component_invariant\<close>).
  \<^item> \<open>Dependency_Graph\<close> (task/cpp/dependency_graph): pending and ready tasks, wake-up on ready data and
    demotion on removed data.  The graph refines the set of tasks whose inputs are all ready under
    the stated discipline; two concrete histories outside the discipline lose a wake-up.
  \<^item> \<open>Task_Manager\<close> (task/cpp/task_manager): status buckets, status changes and the eviction of old
    finished tasks; it refines a map from ids to metadata.
  \<^item> \<open>Worker_Manager\<close> (task/cpp/worker_manager, heartbeat_monitor): registration, reconnection, grace
    period, assignment, capabilities and the heartbeat check on 64-bit clocks.
  \<^item> \<open>Task_Scheduler\<close> (task/cpp/task_scheduler): one scheduling round and the loop over rounds, with
    capability matching, locality scores and degradation, over the three components above through
    the locales \<open>ready_source\<close>, \<open>worker_pool\<close> and \<open>dispatcher\<close>.
  \<^item> \<open>Geometry\<close> (geometry/cpp, emir/design/cpp/ds_transform_util): points, boxes, polygons, the eight
    orientations and placement transforms on 32-bit coordinates.
  \<^item> \<open>Wire_Bytes\<close>, \<open>Object_Header\<close> (common/serialization/cpp/object_header, common/buffer/cpp/data_checksum):
    little- and big-endian encodings, object headers and record trailers with their rejections.
  \<^item> \<open>Message_Protocol\<close> (network/cpp/message_protocol): frame headers, frames, data responses, chunks.
  \<^item> \<open>Write_Context_Hash\<close> (common/runtime/cpp/write_context_hash): the provenance hash and its key.
  \<^item> \<open>Compressors\<close> (storage/cpp/compressor and the LZ4, zlib and ZSTD classes): the locale
    \<open>block_codec\<close> is what the pipeline relies on.
  \<^item> \<open>Block_Pipeline\<close> (storage/cpp/pipeline): the write stages and the read stages, the locale
    \<open>chunk_source\<close> is what the reader relies on.
  \<^item> \<open>Object_Stream\<close> (storage/cpp memory and disk chunk sources, the stream buffers, fly_stream):
    objects written to records and read back.
  \<^item> \<open>Local_Index\<close> (storage/cpp/local_index): the index log byte by byte, its replay, segments.
  \<^item> \<open>Data_Writer\<close> (storage/cpp/data_writer, data_reader): data files, file changes, incremental
    writes, segments and their roll-back, and readers.
  \<^item> \<open>Write_Back_Queue\<close> (storage/cpp/write_back_queue): the bounded queue of writes and its worker
    thread as a step relation over the states between two critical sections.
  \<^item> \<open>Object_Cache\<close> (storage/cpp/object_cache): the cache of loaded objects with its eviction.
  \<^item> \<open>Remote_Index\<close> (storage/cpp/data_service): object locations, worker addresses, replica order.
  \<^item> \<open>Data_Service\<close> (storage/cpp/data_service): the local index, whose infos live in a store of shared
    objects, and the readers that wait on its condition variables.
  \<^item> \<open>Write_Registry\<close> (agent/cpp/master_agent): the provenance of written objects, the frozen
    databases and the decision whether a write is accepted.
  \<^item> \<open>Failed_Tasks\<close> (agent/cpp/master_agent): the file of failed tasks and its restart.

  \<^bold>\<open>What the results say.\<close>  For every component there is an invariant that all operations keep and, where
  the component has a contract, a refinement: the ready list is the set of runnable tasks, the task
  manager is a map, the scheduler assigns ready tasks to idle workers with the best match and stops.
  Encoders and decoders are inverse in both directions, and a header with one flipped bit is
  rejected.  What is written to an object stream is what is read back, independently of how it was
  cut; no block that fails its checksum is delivered.  Loading an index log cut at any byte gives the
  effect of its complete records, the additions of a segment are visible all together or not at all,
  and a saved index reloads to what was in memory.  Records stay readable across file changes, a reader in another process finds them,
  and aborting a segment restores the files when the abort's own file operations succeed.  The write-back queue counts every request, keeps
  their order and drains; the object cache never returns a stale object; the location index and the
  local index are the maps their operations describe, and a finished write wakes its readers.
  The write registry is a map from objects to the write that produced them, a freeze requested in
  task mode follows the task that asked for it, the file of failed tasks gives back what was
  persisted, and a restart submits all of its records at the current paths or none.  Theorems about unintended behaviour are stated as
  such: a re-added task that is never woken, a worker killed by a heartbeat from the future, data lost
  when compression fails, a write request stuck in a stopped queue, additions swallowed by an unclosed segment, stale entries after an abort,
  temp files truncated on reopening.

  \<^bold>\<open>Bounds and fuel.\<close>  No definition uses fuel: loops are structural, have a termination proof, or are
  partial functions whose results are proved to exist (\<open>wp_write\<close>, \<open>fs_read_loop\<close>, \<open>next_free\<close>).  Results
  about records assume blocks of at most 64 MiB, the bound \<open>kMaxWireBlockBytes\<close> of the code; results
  about the index assume logs of less than \<open>2 ^ 56\<close> bytes, the range of its seven-byte length field.

  \<^bold>\<open>Not modelled.\<close>  Sockets, epoll, threads and their interleaving inside a method (mutex-protected
  methods are taken as atomic); the message handlers of the master and worker agents, which drive
  the modelled state through I/O and Python calls (of the master only the write registry and the
  failed tasks are modelled); logging, metrics, the web
  monitor and process management; the numerical solver (floating point over Eigen); the LEF, DEF and
  Liberty parsers, which are third-party code; bindings and the Python front end.
\<close>

end
